theory Spec2Isabelle
  imports Complex_Main "HOL-Library.Word" "HOL-Library.Monad_Syntax"
begin

section \<open>The arena cache of \<^verbatim>\<open>src/tuttex/cache.hpp\<close>\<close>

text \<open>
  The cache keeps variable-sized nodes in one byte buffer. The model works at the
  granularity of nodes: the arena is a partial map from byte offsets (relative to
  \<^verbatim>\<open>start_p\<close>) to node structs, a node at offset \<open>a\<close> occupying the bytes
  \<open>a ..< a + node_size\<close>; its key and its serialized polynomial, which follow the header
  in memory, are two more fields of the struct. A \<^verbatim>\<open>cache_node *\<close> is null, the address
  of a bucket sentinel, or an address inside the arena.

  A function of the model returns \<open>None\<close> where the C++ has no defined result: a
  dereference of a null or dangling pointer, an index outside the bucket array, a division
  by zero, or a loop that does not come to an end. An exception is a value \<open>Inl e\<close>.

  A key is the list of its bytes, so that \<^verbatim>\<open>sizeof_graph_key\<close> is the length of the list.
  What else the cache needs from \<^verbatim>\<open>nauty_graph.hpp\<close>, the stream classes and the C library
  is not in the sources at hand and is a parameter: the hash and the comparison of keys,
  the number of vertices a key records, \<^verbatim>\<open>sizeof(struct cache_node)\<close>, the serialization
  of polynomials, and the numbers \<^verbatim>\<open>rand()\<close> returns.

  A value of type \<^verbatim>\<open>float\<close> or \<^verbatim>\<open>double\<close> is a real number. The arithmetic of type
  \<^verbatim>\<open>double\<close> rounds, and how it does is a parameter too: \<open>to_double x\<close> is the
  \<^verbatim>\<open>double\<close> that the real number \<open>x\<close> is rounded to, so that a conversion, a sum or a
  quotient in \<^verbatim>\<open>double\<close> is \<open>to_double\<close> of the exact one.
\<close>

subsection \<open>Data\<close>

datatype ptr = Null | Bucket nat | Node nat

type_synonym byte = "8 word"

text \<open>\<^verbatim>\<open>std::bad_alloc\<close> and \<^verbatim>\<open>std::runtime_error\<close> with its message.\<close>

datatype exn = BadAlloc | RuntimeError string

record cache_node =
  next_ptr :: ptr
  prev_ptr :: ptr
  hit_count :: "32 word"
  graph_id :: "32 word"
  node_size :: "32 word"
  key_bytes :: "byte list"
  poly_bytes :: "byte list"

record cache =
  hits :: "32 word"
  misses :: "32 word"
  collisions :: "32 word"
  numentries :: "64 word"
  buckets :: "cache_node list"
  arena :: "nat \<Rightarrow> cache_node option"
  next_p :: nat
  bufsize :: nat
  replacement :: real
  min_replace_size :: "32 word"
  random_replacement :: bool
  rand_calls :: nat

text \<open>
  The last field is the state of the C library's generator, the number of calls of
  \<^verbatim>\<open>rand()\<close> so far: \<open>rand_seq i\<close> is what the \<open>i\<close>-th call returns.
\<close>

record clib =
  RAND_MAX :: nat
  rand_seq :: "nat \<Rightarrow> nat"

record 'p platform =
  hash_graph_key :: "byte list \<Rightarrow> 32 word"
  compare_graph_keys :: "byte list \<Rightarrow> byte list \<Rightarrow> bool"
  graph_size :: "byte list \<Rightarrow> 32 word"
  sizeof_cache_node :: nat
  write_poly :: "'p \<Rightarrow> byte list"
  read_poly :: "byte list \<Rightarrow> 'p"
  stdlib :: clib
  to_double :: "real \<Rightarrow> real"

subsection \<open>Accessors, \<^verbatim>\<open>clear\<close> and \<^verbatim>\<open>reset_stats\<close>\<close>

text \<open>\<^verbatim>\<open>int num_entries() { return numentries; }\<close>: the 64-bit counter read as an \<^verbatim>\<open>int\<close>.\<close>

definition num_entries :: "cache \<Rightarrow> int" where
  "num_entries c = sint (ucast (numentries c) :: 32 word)"

definition num_hits :: "cache \<Rightarrow> int" where
  "num_hits c = sint (hits c)"

definition num_misses :: "cache \<Rightarrow> int" where
  "num_misses c = sint (misses c)"

definition num_collisions :: "cache \<Rightarrow> int" where
  "num_collisions c = sint (collisions c)"

text \<open>\<^verbatim>\<open>size()\<close> is \<^verbatim>\<open>next_p - start_p\<close>; offsets are relative to \<^verbatim>\<open>start_p\<close>.\<close>

definition size_used :: "cache \<Rightarrow> nat" where
  "size_used c = next_p c"

definition capacity :: "cache \<Rightarrow> nat" where
  "capacity c = bufsize c"

definition clear :: "cache \<Rightarrow> cache" where
  "clear c = c\<lparr>next_p := 0,
     buckets := map (\<lambda>b. b\<lparr>next_ptr := Null, prev_ptr := Null\<rparr>) (buckets c)\<rparr>"

definition reset_stats :: "cache \<Rightarrow> cache" where
  "reset_stats c = c\<lparr>hits := 0, misses := 0, collisions := 0\<rparr>"

subsection \<open>Reading and writing through a pointer\<close>

definition get_node :: "cache \<Rightarrow> ptr \<Rightarrow> cache_node option" where
  "get_node c p =
     (case p of
        Null \<Rightarrow> None
      | Bucket i \<Rightarrow> if i < length (buckets c) then Some (buckets c ! i) else None
      | Node a \<Rightarrow> arena c a)"

definition put_node :: "ptr \<Rightarrow> cache_node \<Rightarrow> cache \<Rightarrow> cache option" where
  "put_node p n c =
     (case p of
        Null \<Rightarrow> None
      | Bucket i \<Rightarrow>
          if i < length (buckets c) then Some (c\<lparr>buckets := (buckets c)[i := n]\<rparr>) else None
      | Node a \<Rightarrow>
          (case arena c a of
             None \<Rightarrow> None
           | Some _ \<Rightarrow> Some (c\<lparr>arena := (arena c)(a \<mapsto> n)\<rparr>)))"

definition set_next :: "ptr \<Rightarrow> ptr \<Rightarrow> cache \<Rightarrow> cache option" where
  "set_next p q c =
     (case get_node c p of None \<Rightarrow> None | Some n \<Rightarrow> put_node p (n\<lparr>next_ptr := q\<rparr>) c)"

definition set_prev :: "ptr \<Rightarrow> ptr \<Rightarrow> cache \<Rightarrow> cache option" where
  "set_prev p q c =
     (case get_node c p of None \<Rightarrow> None | Some n \<Rightarrow> put_node p (n\<lparr>prev_ptr := q\<rparr>) c)"

subsection \<open>Node manipulation\<close>

text \<open>
  Every field is read again from the current heap where the source reads it, so that an
  alias between the pointers involved has the effect it has in the source.
\<close>

definition insert_node_after :: "ptr \<Rightarrow> ptr \<Rightarrow> cache \<Rightarrow> cache option" where
  "insert_node_after new_node pos c =
     do {
       pn \<leftarrow> get_node c pos;
       c1 \<leftarrow> set_next new_node (next_ptr pn) c;
       c2 \<leftarrow> set_prev new_node pos c1;
       c3 \<leftarrow> set_next pos new_node c2;
       nn \<leftarrow> get_node c3 new_node;
       if next_ptr nn \<noteq> Null then set_prev (next_ptr nn) new_node c3 else Some c3
     }"

definition remove_node :: "ptr \<Rightarrow> cache \<Rightarrow> cache option" where
  "remove_node node c =
     do {
       n \<leftarrow> get_node c node;
       c1 \<leftarrow> set_next (prev_ptr n) (next_ptr n) c;
       n1 \<leftarrow> get_node c1 node;
       c2 \<leftarrow> (if next_ptr n1 \<noteq> Null then set_prev (next_ptr n1) (prev_ptr n1) c1 else Some c1);
       c3 \<leftarrow> set_next node Null c2;
       set_prev node Null c3
     }"

text \<open>
  \<open>overwrite dst len n h\<close> is the arena after \<open>len\<close> bytes were written at \<open>dst\<close>: the
  node \<open>n\<close> is now found at \<open>dst\<close>, and a node that started inside the bytes written is
  no longer one. \<^verbatim>\<open>memmove(dst, ptr, ptr->size)\<close> writes the node at \<open>ptr\<close> in this way.
\<close>

definition overwrite ::
  "nat \<Rightarrow> nat \<Rightarrow> cache_node option \<Rightarrow> (nat \<Rightarrow> cache_node option) \<Rightarrow> nat \<Rightarrow> cache_node option" where
  "overwrite dst len n h = (\<lambda>x. if x = dst then n else if dst < x \<and> x < dst + len then None else h x)"

definition move_node :: "nat \<Rightarrow> nat \<Rightarrow> cache \<Rightarrow> cache option" where
  "move_node dst p c =
     do {
       n \<leftarrow> arena c p;
       c1 \<leftarrow> set_next (prev_ptr n) (Node dst) c;
       n1 \<leftarrow> arena c1 p;
       c2 \<leftarrow> (if next_ptr n1 \<noteq> Null then set_prev (next_ptr n1) (Node dst) c1 else Some c1);
       n2 \<leftarrow> arena c2 p;
       Some (c2\<lparr>arena := overwrite dst (unat (node_size n2)) (Some n2) (arena c2)\<rparr>)
     }"

subsection \<open>Compaction\<close>

text \<open>
  The loop of \<^verbatim>\<open>pack_buffer\<close>, with \<open>p\<close> for \<^verbatim>\<open>ptr\<close>. It ends when \<^verbatim>\<open>ptr\<close> meets
  \<^verbatim>\<open>pend\<close>; a node of size 0, on which the source would never advance, and a pointer
  past \<^verbatim>\<open>pend\<close>, from where the source would walk out of the buffer, give \<open>None\<close>.
\<close>

lemma pack_loop_measure:
  "node_size n \<noteq> 0 \<Longrightarrow> p \<noteq> pend \<Longrightarrow> \<not> pend < p
     \<Longrightarrow> pend - (p + unat (node_size n)) < pend - (p :: nat)"
  using unat_gt_0 [of "node_size n"] by arith

function pack_loop :: "nat \<Rightarrow> nat \<Rightarrow> nat \<Rightarrow> cache \<Rightarrow> (nat \<times> cache) option" where
  "pack_loop p pend diff c =
     (if p = pend then Some (diff, c)
      else if pend < p then None
      else
        (case arena c p of
           None \<Rightarrow> None
         | Some n \<Rightarrow>
             if node_size n = 0 then None
             else if next_ptr n = Null \<and> prev_ptr n = Null
             then pack_loop (p + unat (node_size n)) pend (diff + unat (node_size n)) c
             else if 0 < diff
             then (case move_node (p - diff) p c of
                     None \<Rightarrow> None
                   | Some c1 \<Rightarrow> pack_loop (p + unat (node_size n)) pend diff c1)
             else pack_loop (p + unat (node_size n)) pend diff c))"
  by pat_completeness auto
termination
  by (relation "measure (\<lambda>(p, pend, diff, c). pend - p)") (simp_all add: pack_loop_measure)

definition pack_buffer :: "cache \<Rightarrow> cache option" where
  "pack_buffer c =
     (case pack_loop 0 (next_p c) 0 c of
        None \<Rightarrow> None
      | Some (diff, c1) \<Rightarrow> Some (c1\<lparr>next_p := next_p c1 - diff\<rparr>))"

subsection \<open>Eviction\<close>

text \<open>
  \<^verbatim>\<open>remove_unused_nodes\<close>: \<open>unused_walk\<close> is the \<^verbatim>\<open>while\<close> loop over one bucket's list,
  \<open>unused_buckets\<close> the \<^verbatim>\<open>for\<close> loop over the buckets and \<open>unused_rounds\<close> the
  \<^verbatim>\<open>do ... while\<close> loop, entered with the value \<^verbatim>\<open>hc\<close> has before its increment. The
  comparison \<^verbatim>\<open>N < min_replace_size\<close> is one of \<^verbatim>\<open>unsigned int\<close>.

  \<^verbatim>\<open>amount\<close> is a \<^verbatim>\<open>double\<close>: \<^verbatim>\<open>amount += optr->size\<close> converts the size and rounds the
  sum. \<open>below_ratio\<close> is the test \<^verbatim>\<open>(amount / orig_size) < p\<close> of the loop: \<^verbatim>\<open>orig_size\<close>
  is converted to \<^verbatim>\<open>double\<close> and the quotient is rounded before it is compared. A
  quotient by zero is an infinity with the sign of \<^verbatim>\<open>amount\<close>, or a NaN when \<^verbatim>\<open>amount\<close>
  is zero, and a NaN is less than nothing.
\<close>

definition below_ratio :: "'p platform \<Rightarrow> real \<Rightarrow> nat \<Rightarrow> real \<Rightarrow> bool" where
  "below_ratio K p orig_size amount =
     (let d = to_double K (real orig_size)
      in if d = 0 then amount < 0 else to_double K (amount / d) < p)"

partial_function (option) unused_walk ::
  "'p platform \<Rightarrow> 32 word \<Rightarrow> ptr \<Rightarrow> 32 word \<times> real \<times> cache \<Rightarrow> (32 word \<times> real \<times> cache) option" where
  "unused_walk K hc p st =
     (case st of (count, amount, c) \<Rightarrow>
        if p = Null then Some (count, amount, c)
        else
          (case get_node c p of
             None \<Rightarrow> None
           | Some optr \<Rightarrow>
               if hit_count optr < hc \<and> graph_size K (key_bytes optr) < min_replace_size c
               then (case remove_node p c of
                       None \<Rightarrow> None
                     | Some c1 \<Rightarrow>
                         unused_walk K hc (next_ptr optr)
                           (count + 1,
                            to_double K (amount + to_double K (real (unat (node_size optr)))),
                            c1))
               else unused_walk K hc (next_ptr optr) (count, amount, c)))"

fun unused_buckets ::
  "'p platform \<Rightarrow> 32 word \<Rightarrow> nat list \<Rightarrow> 32 word \<times> real \<times> cache \<Rightarrow> (32 word \<times> real \<times> cache) option" where
  "unused_buckets K hc [] st = Some st"
| "unused_buckets K hc (i # is) st =
     (case unused_walk K hc (next_ptr (buckets (snd (snd st)) ! i)) st of
        None \<Rightarrow> None
      | Some st1 \<Rightarrow> unused_buckets K hc is st1)"

partial_function (option) unused_rounds ::
  "'p platform \<Rightarrow> real \<Rightarrow> nat \<Rightarrow> 32 word \<Rightarrow> real \<Rightarrow> cache \<Rightarrow> cache option" where
  "unused_rounds K p orig_size hc amount c =
     (case unused_buckets K (hc + 1) [0..<length (buckets c)] (0, amount, c) of
        None \<Rightarrow> None
      | Some (count, amount1, c1) \<Rightarrow>
          if below_ratio K p orig_size amount1
          then unused_rounds K p orig_size (hc + 1) amount1
                 (c1\<lparr>numentries := numentries c1 - ucast count\<rparr>)
          else Some (c1\<lparr>numentries := numentries c1 - ucast count\<rparr>))"

definition remove_unused_nodes :: "'p platform \<Rightarrow> real \<Rightarrow> cache \<Rightarrow> cache option" where
  "remove_unused_nodes K p c = unused_rounds K p (next_p c) 0 0 c"

text \<open>
  \<^verbatim>\<open>randomly_remove_nodes\<close>, with \<open>q\<close> for \<^verbatim>\<open>ptr\<close>. In
  \<^verbatim>\<open>((double) rand()) / RAND_MAX\<close> both numbers are converted and the quotient is rounded.
\<close>

partial_function (option) random_walk ::
  "'p platform \<Rightarrow> real \<Rightarrow> ptr \<Rightarrow> 64 word \<times> cache \<Rightarrow> (64 word \<times> cache) option" where
  "random_walk K p q st =
     (case st of (count, c) \<Rightarrow>
        if q = Null then Some (count, c)
        else
          (case get_node c q of
             None \<Rightarrow> None
           | Some optr \<Rightarrow>
               if graph_size K (key_bytes optr) < min_replace_size c
               then
                 (let f = to_double K
                            (to_double K (real (rand_seq (stdlib K) (rand_calls c)))
                             / to_double K (real (RAND_MAX (stdlib K))));
                      c0 = c\<lparr>rand_calls := rand_calls c + 1\<rparr>
                  in if f < p
                     then (case remove_node q c0 of
                             None \<Rightarrow> None
                           | Some c1 \<Rightarrow> random_walk K p (next_ptr optr) (count + 1, c1))
                     else random_walk K p (next_ptr optr) (count, c0))
               else random_walk K p (next_ptr optr) (count, c)))"

fun random_buckets ::
  "'p platform \<Rightarrow> real \<Rightarrow> nat list \<Rightarrow> 64 word \<times> cache \<Rightarrow> (64 word \<times> cache) option" where
  "random_buckets K p [] st = Some st"
| "random_buckets K p (i # is) st =
     (case random_walk K p (next_ptr (buckets (snd st) ! i)) st of
        None \<Rightarrow> None
      | Some st1 \<Rightarrow> random_buckets K p is st1)"

definition randomly_remove_nodes :: "'p platform \<Rightarrow> real \<Rightarrow> cache \<Rightarrow> cache option" where
  "randomly_remove_nodes K p c =
     (case random_buckets K p [0..<length (buckets c)] (0, c) of
        None \<Rightarrow> None
      | Some (count, c1) \<Rightarrow> Some (c1\<lparr>numentries := numentries c1 - count\<rparr>))"

subsection \<open>Allocation and \<^verbatim>\<open>store\<close>\<close>

text \<open>The body of the \<^verbatim>\<open>while\<close> loop of \<^verbatim>\<open>alloc_node\<close>, then the loop, then the function.\<close>

definition evict_and_pack :: "'p platform \<Rightarrow> cache \<Rightarrow> cache option" where
  "evict_and_pack K c =
     do {
       c1 \<leftarrow> (if random_replacement c then randomly_remove_nodes K (replacement c) c
              else remove_unused_nodes K (replacement c) c);
       pack_buffer c1
     }"

partial_function (option) alloc_loop :: "'p platform \<Rightarrow> nat \<Rightarrow> cache \<Rightarrow> (nat \<times> cache) option" where
  "alloc_loop K len c =
     (if bufsize c \<le> next_p c + len
      then (case evict_and_pack K c of None \<Rightarrow> None | Some c1 \<Rightarrow> alloc_loop K len c1)
      else Some (next_p c, c\<lparr>next_p := next_p c + len\<rparr>))"

definition alloc_node :: "'p platform \<Rightarrow> nat \<Rightarrow> cache \<Rightarrow> (exn + nat \<times> cache) option" where
  "alloc_node K len c =
     (if bufsize c \<le> len then Some (Inl BadAlloc)
      else map_option Inr (alloc_loop K len c))"

text \<open>
  \<^verbatim>\<open>store\<close> links the new node into its bucket before it fills in the other fields. The
  memory \<^verbatim>\<open>alloc_node\<close> returns is raw; \<open>raw_node\<close> stands for its content, every field
  of which is written before it is read.
\<close>

definition raw_node :: cache_node where
  "raw_node = \<lparr>next_ptr = Null, prev_ptr = Null, hit_count = 0, graph_id = 0, node_size = 0,
               key_bytes = [], poly_bytes = []\<rparr>"

definition store :: "'p platform \<Rightarrow> byte list \<Rightarrow> 'p \<Rightarrow> 32 word \<Rightarrow> cache \<Rightarrow> (exn + cache) option" where
  "store K key p ident c =
     (let sizeof_key = length key;
          bout = write_poly K p;
          len = sizeof_cache_node K + sizeof_key + length bout
      in case alloc_node K len c of
           None \<Rightarrow> None
         | Some (Inl e) \<Rightarrow> Some (Inl e)
         | Some (Inr (r, c1)) \<Rightarrow>
             if length (buckets c1) = 0 then None
             else
               (let bucket = unat (hash_graph_key K key) mod length (buckets c1);
                    c2 = c1\<lparr>arena := overwrite r len (Some raw_node) (arena c1)\<rparr>
                in case insert_node_after (Node r) (Bucket bucket) c2 of
                     None \<Rightarrow> None
                   | Some c3 \<Rightarrow>
                       (case arena c3 r of
                          None \<Rightarrow> None
                        | Some n \<Rightarrow>
                            Some (Inr (c3\<lparr>arena := (arena c3)
                                          (r \<mapsto> n\<lparr>hit_count := 0, graph_id := ident,
                                                  node_size := of_nat len, key_bytes := key,
                                                  poly_bytes := bout\<rparr>),
                                        numentries := numentries c3 + 1\<rparr>)))))"

subsection \<open>\<^verbatim>\<open>lookup\<close>\<close>

text \<open>
  The result is the polynomial and the graph id of the match, if any, with the cache the
  call leaves behind. The polynomial is read from the bytes that follow the key, as many
  as \<^verbatim>\<open>node_p->size - (sizeof_key + sizeof(struct cache_node))\<close>.
\<close>

partial_function (option) lookup_walk ::
  "'p platform \<Rightarrow> byte list \<Rightarrow> nat \<Rightarrow> ptr \<Rightarrow> cache \<Rightarrow> (('p \<times> 32 word) option \<times> cache) option" where
  "lookup_walk K key bucket node_p c =
     (if node_p = Null then Some (None, c\<lparr>misses := misses c + 1\<rparr>)
      else
        (case get_node c node_p of
           None \<Rightarrow> None
         | Some n \<Rightarrow>
             if compare_graph_keys K key (key_bytes n)
             then
               do {
                 c1 \<leftarrow> put_node node_p (n\<lparr>hit_count := hit_count n + 1\<rparr>) c;
                 c2 \<leftarrow> remove_node node_p c1;
                 c3 \<leftarrow> insert_node_after node_p (Bucket bucket) c2;
                 Some (Some (read_poly K
                               (take (unat (node_size n)
                                        - (length (key_bytes n) + sizeof_cache_node K))
                                  (poly_bytes n)),
                             graph_id n),
                       c3\<lparr>hits := hits c3 + 1\<rparr>)
               }
             else lookup_walk K key bucket (next_ptr n) (c\<lparr>collisions := collisions c + 1\<rparr>)))"

definition lookup ::
  "'p platform \<Rightarrow> byte list \<Rightarrow> cache \<Rightarrow> (('p \<times> 32 word) option \<times> cache) option" where
  "lookup K key c =
     (if length (buckets c) = 0 then None
      else
        (let bucket = unat (hash_graph_key K key) mod length (buckets c)
         in lookup_walk K key bucket (next_ptr (buckets c ! bucket)) c))"

section \<open>Caches to evaluate on\<close>

text \<open>
  A bucket sentinel with the given links, and a cache of 100 bytes with two buckets that
  holds two entries of bucket 1: the entry at offset 40 (36 bytes) in front of the entry
  at offset 0 (40 bytes). The replacement ratio of the caches is the \<^verbatim>\<open>float\<close> nearest to
  0.3, which is \<open>5033165 / 2^24\<close>.
\<close>

definition sentinel :: "ptr \<Rightarrow> ptr \<Rightarrow> cache_node" where
  "sentinel n p =
     \<lparr>next_ptr = n, prev_ptr = p, hit_count = 0, graph_id = 0, node_size = 0,
      key_bytes = [], poly_bytes = []\<rparr>"

definition two_entries :: cache where
  "two_entries =
     \<lparr>hits = 3, misses = 2, collisions = 1, numentries = 2,
      buckets = [sentinel Null Null, sentinel (Node 40) Null],
      arena = [0 \<mapsto> \<lparr>next_ptr = Null, prev_ptr = Node 40, hit_count = 0, graph_id = 7,
                         node_size = 40, key_bytes = [1, 5], poly_bytes = [9, 9, 9, 9, 9, 9]\<rparr>,
               40 \<mapsto> \<lparr>next_ptr = Node 0, prev_ptr = Bucket 1, hit_count = 2, graph_id = 8,
                          node_size = 36, key_bytes = [3, 5], poly_bytes = [4, 4]\<rparr>],
      next_p = 76, bufsize = 100, replacement = 5033165 / 16777216, min_replace_size = 1000,
      random_replacement = False, rand_calls = 0\<rparr>"

text \<open>
  The cache \<open>two_entries\<close> once the entry at offset 0 has been removed: a hole of 40
  bytes before the one live entry.
\<close>

definition one_hole :: cache where
  "one_hole =
     \<lparr>hits = 3, misses = 2, collisions = 1, numentries = 1,
      buckets = [sentinel Null Null, sentinel (Node 40) Null],
      arena = [0 \<mapsto> \<lparr>next_ptr = Null, prev_ptr = Null, hit_count = 0, graph_id = 7,
                         node_size = 40, key_bytes = [1, 5], poly_bytes = [9, 9, 9, 9, 9, 9]\<rparr>,
               40 \<mapsto> \<lparr>next_ptr = Null, prev_ptr = Bucket 1, hit_count = 2, graph_id = 8,
                          node_size = 36, key_bytes = [3, 5], poly_bytes = [4, 4]\<rparr>],
      next_p = 76, bufsize = 100, replacement = 5033165 / 16777216, min_replace_size = 1000,
      random_replacement = False, rand_calls = 0\<rparr>"

text \<open>An empty cache of 36 bytes.\<close>

definition empty_cache :: cache where
  "empty_cache =
     \<lparr>hits = 0, misses = 0, collisions = 0, numentries = 0,
      buckets = [sentinel Null Null, sentinel Null Null],
      arena = Map.empty,
      next_p = 0, bufsize = 36, replacement = 5033165 / 16777216, min_replace_size = 1000,
      random_replacement = False, rand_calls = 0\<rparr>"

text \<open>
  A cache of 72 bytes whose one entry, of 36 bytes, has never been hit: 36 bytes are
  free.
\<close>

definition half_full :: cache where
  "half_full =
     \<lparr>hits = 0, misses = 1, collisions = 0, numentries = 1,
      buckets = [sentinel Null Null, sentinel (Node 0) Null],
      arena = [0 \<mapsto> \<lparr>next_ptr = Null, prev_ptr = Bucket 1, hit_count = 0, graph_id = 8,
                         node_size = 36, key_bytes = [3, 5], poly_bytes = [4, 4]\<rparr>],
      next_p = 36, bufsize = 72, replacement = 5033165 / 16777216, min_replace_size = 1000,
      random_replacement = False, rand_calls = 0\<rparr>"

text \<open>
  A cache of \<open>2^32\<close> bytes with two large entries of bucket 1: 646761704 bytes at offset
  0, never hit, and the 1509110557 bytes behind them, hit once. \<open>zeros n\<close> is a polynomial
  of \<open>n\<close> bytes.
\<close>

definition zeros :: "nat \<Rightarrow> byte list" where
  "zeros n = replicate n 0"

definition two_large :: cache where
  "two_large =
     \<lparr>hits = 1, misses = 2, collisions = 0, numentries = 2,
      buckets = [sentinel Null Null, sentinel (Node 646761704) Null],
      arena = [0 \<mapsto> \<lparr>next_ptr = Null, prev_ptr = Node 646761704, hit_count = 0,
                         graph_id = 7, node_size = 646761704, key_bytes = [1, 5],
                         poly_bytes = zeros 646761670\<rparr>,
               646761704 \<mapsto> \<lparr>next_ptr = Node 0, prev_ptr = Bucket 1, hit_count = 1,
                                 graph_id = 8, node_size = 1509110557, key_bytes = [3, 5],
                                 poly_bytes = zeros 1509110523\<rparr>],
      next_p = 2155872261, bufsize = 4294967296, replacement = 5033165 / 16777216,
      min_replace_size = 1000, random_replacement = False, rand_calls = 0\<rparr>"

subsection \<open>The platform\<close>

text \<open>
  The \<^verbatim>\<open>double\<close> of the usual platforms is the binary64 format of IEEE 754 with rounding
  to nearest, ties to even: a number between \<open>2^e\<close> and \<open>2^(e + 1)\<close> is rounded to a
  multiple of \<open>2^(e - 52)\<close>. The bounds of the format on the exponent are left out: the
  numbers rounded here are byte counts and quotients of byte counts, far from overflow
  and from the subnormal numbers.
\<close>

definition round_even :: "real \<Rightarrow> int" where
  "round_even y =
     (let f = \<lfloor>y\<rfloor>
      in if y - of_int f < 1 / 2 then f
         else if 1 / 2 < y - of_int f then f + 1
         else if even f then f else f + 1)"

definition binary64 :: "real \<Rightarrow> real" where
  "binary64 x =
     (if x = 0 then 0
      else let e = \<lfloor>log 2 \<bar>x\<bar>\<rfloor>
           in of_int (round_even (x * 2 powr (52 - of_int e))) * 2 powr (of_int e - 52))"

text \<open>
  In \<open>demo_platform\<close> a node header has 32 bytes, the hash of a key is its first byte, the
  number of vertices its second byte, and a polynomial is the list of its bytes.
\<close>

definition demo_platform :: "byte list platform" where
  "demo_platform =
     \<lparr>hash_graph_key = (\<lambda>k. case k of [] \<Rightarrow> 0 | b # _ \<Rightarrow> ucast b),
      compare_graph_keys = (\<lambda>k1 k2. k1 = k2),
      graph_size = (\<lambda>k. case k of _ # n # _ \<Rightarrow> ucast n | _ \<Rightarrow> 0),
      sizeof_cache_node = 32,
      write_poly = (\<lambda>p. p),
      read_poly = (\<lambda>b. b),
      stdlib = \<lparr>RAND_MAX = 2147483647, rand_seq = (\<lambda>i. 0)\<rparr>,
      to_double = binary64\<rparr>"

section \<open>The reduction engine of \<^verbatim>\<open>src/tutte/tutte.cpp\<close>\<close>

text \<open>
  The three recursive functions \<^verbatim>\<open>tutte\<close>, \<^verbatim>\<open>flow\<close> and \<^verbatim>\<open>chromatic\<close> are templates
  over a graph class \<^verbatim>\<open>G\<close> and a polynomial class \<^verbatim>\<open>P\<close>, and they use the reductions
  of \<^verbatim>\<open>reductions.hpp\<close> and the global \<^verbatim>\<open>simple_cache\<close>. None of these classes is part of
  the sources at hand, so the engine takes their operations as parameters, collected in
  records: what a graph answers, how polynomials are built and combined, and how the cache
  is probed and filled. \<^verbatim>\<open>select_edge\<close> and the three recursive functions are translated
  from the source.

  The global variables of the engine are the fields of the state record, which every
  function takes and returns. A graph is passed by reference in the source; the model
  returns the graph a call leaves behind together with the polynomial.

  The functions recurse on a fuel argument that bounds the depth of the recursion:
  \<open>None\<close> is returned when the fuel is used up, and also where the C++ has no defined
  result (an index outside \<^verbatim>\<open>cache_hit_sizes\<close>, the read of the uninitialised \<^verbatim>\<open>cost\<close> in
  the random edge selection). An exception is \<open>Some (Inl e)\<close>.

  The text written to \<^verbatim>\<open>cout\<close> is not modelled. The timer signal decrements
  \<^verbatim>\<open>current_timeout\<close> asynchronously: \<open>tutte\<close>, \<open>flow\<close> and \<open>chromatic\<close> are the
  functions as they run while no signal is delivered, so that a call sees the value of
  \<^verbatim>\<open>current_timeout\<close> in the state it is given, and the last subsection adds the signal
  handler and its delivery between the frames of \<^verbatim>\<open>tutte\<close>. The operands of \<^verbatim>\<open>+\<close> in
  \<^verbatim>\<open>tutte(graph,lid) + tutte(g2,rid)\<close> are evaluated left to right, the delete branch
  first, as the source's comment says.
\<close>

subsection \<open>Types and collaborators\<close>

datatype edgesel_t = RANDOM | MAXIMISE_DEGREE | MINIMISE_DEGREE | MAXIMISE_MDEGREE
  | MINIMISE_MDEGREE | MINIMISE_SDEGREE | VERTEX_ORDER

text \<open>\<^verbatim>\<open>edge_t\<close>: the two end points and the number of parallel edges to treat at once.\<close>

type_synonym edge_t = "nat \<times> nat \<times> nat"

text \<open>
  The graph class. \<open>verts\<close> lists the vertices in the order of \<^verbatim>\<open>begin_verts()\<close>,
  \<open>edges_of g v\<close> the pairs (neighbour, multiplicity) in the order of \<^verbatim>\<open>begin_edges(v)\<close>.
  The operations that change the graph return the changed graph; \<open>reduce_loops\<close> (of
  \<^verbatim>\<open>reductions.hpp\<close>) returns the number of loops removed with it.
\<close>

record 'g graph_ops =
  num_vertices :: "'g \<Rightarrow> nat"
  num_edges :: "'g \<Rightarrow> nat"
  num_underlying_edges :: "'g \<Rightarrow> nat \<Rightarrow> nat"
  verts :: "'g \<Rightarrow> nat list"
  edges_of :: "'g \<Rightarrow> nat \<Rightarrow> (nat \<times> nat) list"
  is_multitree :: "'g \<Rightarrow> bool"
  is_multicycle :: "'g \<Rightarrow> bool"
  is_biconnected :: "'g \<Rightarrow> bool"
  extract_biconnected_components :: "'g \<Rightarrow> 'g list \<times> 'g"
  remove_graphs :: "'g \<Rightarrow> 'g list \<Rightarrow> 'g"
  remove_edge :: "'g \<Rightarrow> edge_t \<Rightarrow> 'g"
  contract_edge :: "'g \<Rightarrow> edge_t \<Rightarrow> 'g"
  simple_contract_edge :: "'g \<Rightarrow> edge_t \<Rightarrow> 'g"
  reduce_loops :: "'g \<Rightarrow> nat \<times> 'g"

text \<open>
  The polynomial class: \<open>X n\<close> and \<open>Y n\<close> are \<^verbatim>\<open>X(n)\<close> and \<^verbatim>\<open>Y(n)\<close>, \<open>Y2 a b\<close> is
  \<^verbatim>\<open>Y(a,b)\<close>, \<open>P_empty\<close> is the default-constructed \<^verbatim>\<open>P()\<close>.
\<close>

record ('g, 'p) poly_ops =
  X :: "nat \<Rightarrow> 'p"
  Y :: "nat \<Rightarrow> 'p"
  Y2 :: "nat \<Rightarrow> nat \<Rightarrow> 'p"
  P_empty :: "'p"
  poly_plus :: "'p \<Rightarrow> 'p \<Rightarrow> 'p"
  poly_times :: "'p \<Rightarrow> 'p \<Rightarrow> 'p"
  reduce_cycle :: "'p \<Rightarrow> 'g \<Rightarrow> 'p"
  reduce_tree :: "'p \<Rightarrow> 'g \<Rightarrow> 'p"

text \<open>
  \<^verbatim>\<open>graph_key\<close> and the global cache: a lookup returns the polynomial and the graph id of
  a hit together with the cache it leaves behind, a store the new cache or an exception.
\<close>

record ('g, 'p, 'k, 'c) cache_ops =
  graph_key :: "'g \<Rightarrow> 'k"
  cache_lookup :: "'k \<Rightarrow> 'c \<Rightarrow> ('p \<times> 32 word) option \<times> 'c"
  cache_store :: "'k \<Rightarrow> 'p \<Rightarrow> 32 word \<Rightarrow> 'c \<Rightarrow> exn + 'c"

text \<open>The globals that \<^verbatim>\<open>main\<close> sets from the command line and the engine only reads.\<close>

record options =
  small_graph_threshold :: nat
  edge_selection_heuristic :: edgesel_t
  reduce_multicycles :: bool
  reduce_multiedges :: bool
  reduce_lines :: bool
  write_tree :: bool

record ('g, 'p, 'k, 'c) env =
  gr :: "'g graph_ops"
  po :: "('g, 'p) poly_ops"
  ca :: "('g, 'p, 'k, 'c) cache_ops"
  opt :: options
  lib :: clib


subsection \<open>The engine's state\<close>

text \<open>The counters are \<^verbatim>\<open>unsigned long\<close> in the source and natural numbers here.\<close>

record 'c state =
  num_steps :: nat
  num_bicomps :: nat
  num_cycles :: nat
  num_disbicomps :: nat
  num_trees :: nat
  old_num_steps :: nat
  current_timeout :: int
  status_flag :: bool
  tree_id :: "32 word"
  cache_hit_sizes :: "32 word list"
  rand_count :: nat
  the_cache :: 'c

type_synonym 'a result = "(exn + 'a) option"

definition bindR :: "'a result \<Rightarrow> ('a \<Rightarrow> 'b result) \<Rightarrow> 'b result" where
  "bindR m f = (case m of None \<Rightarrow> None | Some (Inl e) \<Rightarrow> Some (Inl e) | Some (Inr x) \<Rightarrow> f x)"

text \<open>\<^verbatim>\<open>print_status\<close> clears the flag and remembers the step count; its output is left out.\<close>

definition print_status :: "'c state \<Rightarrow> 'c state" where
  "print_status s = s\<lparr>status_flag := False, old_num_steps := num_steps s\<rparr>"

subsection \<open>Edge selection\<close>

text \<open>
  \<^verbatim>\<open>select_edge\<close> walks over the vertices and their edges, keeping the edges that pass
  its two filters; \<open>candidate_edges\<close> lists them in that order, each with the underlying
  degrees of its end points. \<open>select_scan\<close> is the body of the loop: \<^verbatim>\<open>VERTEX_ORDER\<close>
  returns the first candidate, \<^verbatim>\<open>RANDOM\<close> returns a candidate when the running count
  meets the target and otherwise goes on to compare \<^verbatim>\<open>cost\<close>, which that case never
  assigned; the other heuristics keep the candidate of the highest cost, computed in
  \<^verbatim>\<open>unsigned int\<close>. The third component of the edge returned is the multiplicity, or 1
  when \<^verbatim>\<open>reduce_multiedges\<close> is off.
\<close>

definition edge_third :: "('g, 'p, 'k, 'c) env \<Rightarrow> nat \<Rightarrow> nat" where
  "edge_third E count = (if reduce_multiedges (opt E) then count else 1)"

definition candidate_edges ::
  "('g, 'p, 'k, 'c) env \<Rightarrow> 'g \<Rightarrow> (nat \<times> nat \<times> nat \<times> nat \<times> nat) list" where
  "candidate_edges E graph =
     concat (map (\<lambda>head.
       let headc = num_underlying_edges (gr E) graph head in
       if \<not> reduce_lines (opt E) \<or> headc \<noteq> 2
       then map (\<lambda>(tail, count). (head, tail, count, headc, num_underlying_edges (gr E) graph tail))
              (filter (\<lambda>(tail, count).
                 head < tail \<or> (reduce_lines (opt E) \<and> num_underlying_edges (gr E) graph tail = 2))
                 (edges_of (gr E) graph head))
       else []) (verts (gr E) graph))"

definition edge_cost :: "edgesel_t \<Rightarrow> nat \<Rightarrow> nat \<Rightarrow> nat \<Rightarrow> 32 word" where
  "edge_cost h V headc tailc =
     (case h of
        MAXIMISE_DEGREE \<Rightarrow> of_nat headc + of_nat tailc
      | MAXIMISE_MDEGREE \<Rightarrow> of_nat headc * of_nat tailc
      | MINIMISE_DEGREE \<Rightarrow> 2 * of_nat V - (of_nat headc + of_nat tailc)
      | MINIMISE_SDEGREE \<Rightarrow> of_nat V - of_nat (min headc tailc)
      | MINIMISE_MDEGREE \<Rightarrow> of_nat V * of_nat V - of_nat headc * of_nat tailc
      | _ \<Rightarrow> 0)"

fun select_scan ::
  "('g, 'p, 'k, 'c) env \<Rightarrow> nat \<Rightarrow> nat \<Rightarrow> (nat \<times> nat \<times> nat \<times> nat \<times> nat) list
     \<Rightarrow> 32 word \<Rightarrow> edge_t \<Rightarrow> nat \<Rightarrow> edge_t result" where
  "select_scan E V rtarget [] best r rcount =
     (if best = 0 then Some (Inl (RuntimeError ''internal failure'')) else Some (Inr r))"
| "select_scan E V rtarget ((head, tail, count, headc, tailc) # cs) best r rcount =
     (case edge_selection_heuristic (opt E) of
        VERTEX_ORDER \<Rightarrow> Some (Inr (head, tail, edge_third E count))
      | RANDOM \<Rightarrow>
          if rcount = rtarget then Some (Inr (head, tail, edge_third E count)) else None
      | h \<Rightarrow>
          let cost = edge_cost h V headc tailc in
          if cost > best then select_scan E V rtarget cs cost (head, tail, edge_third E count) rcount
          else select_scan E V rtarget cs best r rcount)"

definition select_edge ::
  "('g, 'p, 'k, 'c) env \<Rightarrow> 'g \<Rightarrow> 'c state \<Rightarrow> (edge_t \<times> 'c state) result" where
  "select_edge E graph s =
     (let V = num_vertices (gr E) graph;
          (rtarget, s1) =
            (if edge_selection_heuristic (opt E) = RANDOM
             then ((num_edges (gr E) graph * rand_seq (lib E) (rand_count s))
                      div (1 + RAND_MAX (lib E)),
                   s\<lparr>rand_count := rand_count s + 1\<rparr>)
             else (0, s))
      in bindR (select_scan E V rtarget (candidate_edges E graph) 0
                  (2 ^ 32 - 1, 2 ^ 32 - 1, 2 ^ 32 - 1) 0)
           (\<lambda>e. Some (Inr (e, s1))))"

subsection \<open>The recursion\<close>

text \<open>\<^verbatim>\<open>cache_hit_sizes[i]++\<close> on a \<^verbatim>\<open>vector<unsigned int>\<close>.\<close>

definition bump_hit :: "nat \<Rightarrow> 'c state \<Rightarrow> 'c state option" where
  "bump_hit i s =
     (if i < length (cache_hit_sizes s)
      then Some (s\<lparr>cache_hit_sizes := (cache_hit_sizes s)[i := cache_hit_sizes s ! i + 1]\<rparr>)
      else None)"

text \<open>
  Step 2 of a frame: when the test of the \<^verbatim>\<open>if\<close> holds, the key is computed and looked
  up. The result is the key (if one was computed), the hit (if there was one) and the
  state.
\<close>

definition probe ::
  "('g, 'p, 'k, 'c) env \<Rightarrow> bool \<Rightarrow> 'g \<Rightarrow> 'c state
     \<Rightarrow> 'k option \<times> ('p \<times> 32 word) option \<times> 'c state" where
  "probe E wanted graph s =
     (if wanted
      then (let key = graph_key (ca E) graph;
                (r, c) = cache_lookup (ca E) key (the_cache s)
            in (Some key, r, s\<lparr>the_cache := c\<rparr>))
      else (None, None, s))"

text \<open>The end of a frame: \<^verbatim>\<open>if(key != NULL) { cache.store(key,poly,mid); ... }\<close>.\<close>

definition save ::
  "('g, 'p, 'k, 'c) env \<Rightarrow> 'k option \<Rightarrow> 'p \<Rightarrow> 32 word \<Rightarrow> 'c state \<Rightarrow> 'c state result" where
  "save E key poly mid s =
     (case key of
        None \<Rightarrow> Some (Inr s)
      | Some k \<Rightarrow>
          (case cache_store (ca E) k poly mid (the_cache s) of
             Inl e \<Rightarrow> Some (Inl e)
           | Inr c \<Rightarrow> Some (Inr (s\<lparr>the_cache := c\<rparr>))))"

text \<open>
  The loop over the biconnected components in \<^verbatim>\<open>tutte\<close> and \<^verbatim>\<open>flow\<close>; \<open>rec\<close> is the
  recursive call and \<open>x1\<close> the first argument of \<^verbatim>\<open>reduce_cycle\<close> (\<^verbatim>\<open>X(1)\<close> in
  \<^verbatim>\<open>tutte\<close>, \<^verbatim>\<open>P()\<close> in \<^verbatim>\<open>flow\<close>). In the cycle branch \<^verbatim>\<open>tid++\<close> stands inside
  \<^verbatim>\<open>if(write_tree)\<close>.
\<close>

fun components_loop ::
  "('g, 'p, 'k, 'c) env \<Rightarrow> ('g \<Rightarrow> 32 word \<Rightarrow> 'c state \<Rightarrow> ('p \<times> 'g \<times> 'c state) result)
     \<Rightarrow> 'p \<Rightarrow> 'g list \<Rightarrow> 'p \<Rightarrow> 32 word \<Rightarrow> 'c state \<Rightarrow> ('p \<times> 'c state) result" where
  "components_loop E rec x1 [] poly tid s = Some (Inr (poly, s))"
| "components_loop E rec x1 (b # bs) poly tid s =
     (let s1 = s\<lparr>num_bicomps := num_bicomps s + 1\<rparr> in
      if is_multicycle (gr E) b
      then components_loop E rec x1 bs
             (poly_times (po E) poly (reduce_cycle (po E) x1 b))
             (if write_tree (opt E) then tid + 1 else tid)
             (s1\<lparr>num_cycles := num_cycles s1 + 1\<rparr>)
      else bindR (rec b tid s1)
             (\<lambda>(p, b', s2). components_loop E rec x1 bs (poly_times (po E) poly p) (tid + 1) s2))"

fun tutte ::
  "('g, 'p, 'k, 'c) env \<Rightarrow> nat \<Rightarrow> 'g \<Rightarrow> 32 word \<Rightarrow> 'c state \<Rightarrow> ('p \<times> 'g \<times> 'c state) result" where
  "tutte E 0 graph mid s =
     (if current_timeout s \<le> 0 then Some (Inr (X (po E) 0, graph, s)) else None)"
| "tutte E (Suc n) graph mid s =
     (if current_timeout s \<le> 0 then Some (Inr (X (po E) 0, graph, s))
      else
        let s = (if status_flag s then print_status s else s);
            s = s\<lparr>num_steps := num_steps s + 1\<rparr>;
            (loops, graph) = reduce_loops (gr E) graph;
            RF = Y (po E) loops;
            (key, hit, s) =
              probe E (num_vertices (gr E) graph \<ge> small_graph_threshold (opt E)
                       \<and> \<not> is_multitree (gr E) graph) graph s
        in case hit of
             Some (r, match_id) \<Rightarrow>
               (case bump_hit (num_vertices (gr E) graph + 1) s of
                  None \<Rightarrow> None
                | Some s \<Rightarrow> Some (Inr (poly_times (po E) r RF, graph, s)))
           | None \<Rightarrow>
               bindR
                 (if reduce_multicycles (opt E) \<and> is_multicycle (gr E) graph
                  then Some (Inr (reduce_cycle (po E) (X (po E) 1) graph, graph,
                                  s\<lparr>num_cycles := num_cycles s + 1\<rparr>))
                  else if \<not> is_biconnected (gr E) graph
                  then
                    let (biconnects, graph) = extract_biconnected_components (gr E) graph;
                        tid = tree_id s;
                        s = s\<lparr>tree_id := tree_id s + of_nat (length biconnects)\<rparr>;
                        graph = remove_graphs (gr E) graph biconnects;
                        s = (if is_multitree (gr E) graph
                             then s\<lparr>num_trees := num_trees s + 1\<rparr> else s);
                        s = (if length biconnects > 1
                             then s\<lparr>num_disbicomps := num_disbicomps s + 1\<rparr> else s);
                        poly = reduce_tree (po E) (X (po E) 1) graph
                    in bindR (components_loop E (tutte E n) (X (po E) 1) biconnects poly tid s)
                         (\<lambda>(poly, s). Some (Inr (poly, graph, s)))
                  else
                    let lid = tree_id s;
                        rid = tree_id s + 1;
                        s = s\<lparr>tree_id := tree_id s + 2\<rparr>;
                        g2 = graph
                    in bindR (select_edge E graph s) (\<lambda>(edge, s).
                         let graph = remove_edge (gr E) graph edge;
                             g2 = contract_edge (gr E) g2 edge
                         in bindR (tutte E n graph lid s) (\<lambda>(pl, graph, s).
                            bindR (tutte E n g2 rid s) (\<lambda>(pr, g2, s).
                              Some (Inr
                                (if snd (snd edge) > 1
                                 then poly_plus (po E) pl
                                        (poly_times (po E) pr (Y2 (po E) 0 (snd (snd edge) - 1)))
                                 else poly_plus (po E) pl pr,
                                 graph, s))))))
                 (\<lambda>(poly, graph, s).
                    bindR (save E key poly mid s)
                      (\<lambda>s. Some (Inr (poly_times (po E) poly RF, graph, s)))))"


text \<open>
  In \<^verbatim>\<open>flow\<close> the branches either fall through to the store at the end of the function
  (\<open>Inr\<close>) or leave it at once by \<^verbatim>\<open>return P()\<close> (\<open>Inl\<close>).
\<close>

fun flow ::
  "('g, 'p, 'k, 'c) env \<Rightarrow> nat \<Rightarrow> 'g \<Rightarrow> 32 word \<Rightarrow> 'c state \<Rightarrow> ('p \<times> 'g \<times> 'c state) result" where
  "flow E 0 graph mid s =
     (if current_timeout s \<le> 0 then Some (Inr (X (po E) 0, graph, s)) else None)"
| "flow E (Suc n) graph mid s =
     (if current_timeout s \<le> 0 then Some (Inr (X (po E) 0, graph, s))
      else
        let s = (if status_flag s then print_status s else s);
            s = s\<lparr>num_steps := num_steps s + 1\<rparr>;
            (loops, graph) = reduce_loops (gr E) graph;
            RF = Y (po E) loops;
            (key, hit, s) =
              probe E (num_vertices (gr E) graph \<ge> small_graph_threshold (opt E)
                       \<and> \<not> is_multitree (gr E) graph) graph s
        in case hit of
             Some (r, match_id) \<Rightarrow>
               (case bump_hit (num_vertices (gr E) graph) s of
                  None \<Rightarrow> None
                | Some s \<Rightarrow> Some (Inr (poly_times (po E) r RF, graph, s)))
           | None \<Rightarrow>
               bindR
                 (if reduce_multicycles (opt E) \<and> is_multicycle (gr E) graph
                  then Some (Inr (Inr (reduce_cycle (po E) (P_empty (po E)) graph, graph,
                                       s\<lparr>num_cycles := num_cycles s + 1\<rparr>)))
                  else if \<not> is_biconnected (gr E) graph
                  then
                    let (biconnects, graph) = extract_biconnected_components (gr E) graph;
                        tid = tree_id s;
                        s = s\<lparr>tree_id := tree_id s + of_nat (length biconnects)\<rparr>;
                        graph = remove_graphs (gr E) graph biconnects
                    in if list_ex (\<lambda>i. list_ex (\<lambda>j. snd j = 1) (edges_of (gr E) graph i))
                            (verts (gr E) graph)
                       then Some (Inr (Inl (P_empty (po E), graph,
                                            s\<lparr>num_trees := num_trees s + 1\<rparr>)))
                       else
                         let s = (if is_multitree (gr E) graph
                                  then s\<lparr>num_trees := num_trees s + 1\<rparr> else s);
                             s = (if length biconnects > 1
                                  then s\<lparr>num_disbicomps := num_disbicomps s + 1\<rparr> else s);
                             poly = reduce_tree (po E) (P_empty (po E)) graph
                         in bindR (components_loop E (flow E n) (P_empty (po E))
                                     biconnects poly tid s)
                              (\<lambda>(poly, s). Some (Inr (Inr (poly, graph, s))))
                  else
                    let lid = tree_id s;
                        rid = tree_id s + 1;
                        s = s\<lparr>tree_id := tree_id s + 2\<rparr>;
                        g2 = graph
                    in bindR (select_edge E graph s) (\<lambda>(edge, s).
                         let graph = remove_edge (gr E) graph edge;
                             g2 = contract_edge (gr E) g2 edge
                         in bindR (flow E n graph lid s) (\<lambda>(pl, graph, s).
                            bindR (flow E n g2 rid s) (\<lambda>(pr, g2, s).
                              Some (Inr (Inr
                                (if snd (snd edge) > 1
                                 then poly_plus (po E) pl
                                        (poly_times (po E) pr (Y2 (po E) 0 (snd (snd edge) - 1)))
                                 else poly_plus (po E) pl pr,
                                 graph, s)))))))
                 (\<lambda>out. case out of
                    Inl early \<Rightarrow> Some (Inr early)
                  | Inr (poly, graph, s) \<Rightarrow>
                      bindR (save E key poly mid s)
                        (\<lambda>s. Some (Inr (poly_times (po E) poly RF, graph, s)))))"

text \<open>In \<^verbatim>\<open>chromatic\<close> the store stands inside the delete-contract branch.\<close>

fun chromatic_components ::
  "('g, 'p, 'k, 'c) env \<Rightarrow> ('g \<Rightarrow> 32 word \<Rightarrow> 'c state \<Rightarrow> ('p \<times> 'g \<times> 'c state) result)
     \<Rightarrow> 'g list \<Rightarrow> 'p \<Rightarrow> 32 word \<Rightarrow> 'c state \<Rightarrow> ('p \<times> 'c state) result" where
  "chromatic_components E rec [] poly tid s = Some (Inr (poly, s))"
| "chromatic_components E rec (b # bs) poly tid s =
     bindR (rec b tid (s\<lparr>num_bicomps := num_bicomps s + 1\<rparr>))
       (\<lambda>(p, b', s2). chromatic_components E rec bs (poly_times (po E) poly p) (tid + 1) s2)"

fun chromatic ::
  "('g, 'p, 'k, 'c) env \<Rightarrow> nat \<Rightarrow> 'g \<Rightarrow> 32 word \<Rightarrow> 'c state \<Rightarrow> ('p \<times> 'g \<times> 'c state) result" where
  "chromatic E 0 graph mid s =
     (if current_timeout s \<le> 0 then Some (Inr (X (po E) 0, graph, s)) else None)"
| "chromatic E (Suc n) graph mid s =
     (if current_timeout s \<le> 0 then Some (Inr (X (po E) 0, graph, s))
      else
        let s = (if status_flag s then print_status s else s);
            s = s\<lparr>num_steps := num_steps s + 1\<rparr>;
            (key, hit, s) =
              probe E (num_vertices (gr E) graph \<ge> small_graph_threshold (opt E)) graph s
        in case hit of
             Some (r, match_id) \<Rightarrow>
               (case bump_hit (num_vertices (gr E) graph) s of
                  None \<Rightarrow> None
                | Some s \<Rightarrow> Some (Inr (r, graph, s)))
           | None \<Rightarrow>
               if \<not> is_biconnected (gr E) graph
               then
                 let (biconnects, graph) = extract_biconnected_components (gr E) graph;
                     tid = tree_id s;
                     s = s\<lparr>tree_id := tree_id s + of_nat (length biconnects)\<rparr>;
                     graph = remove_graphs (gr E) graph biconnects;
                     s = (if is_multitree (gr E) graph
                          then s\<lparr>num_trees := num_trees s + 1\<rparr> else s);
                     s = (if length biconnects > 1
                          then s\<lparr>num_disbicomps := num_disbicomps s + 1\<rparr> else s);
                     poly = X (po E) (num_edges (gr E) graph)
                 in bindR (chromatic_components E (chromatic E n) biconnects poly tid s)
                      (\<lambda>(poly, s). Some (Inr (poly, graph, s)))
               else
                 let lid = tree_id s;
                     rid = tree_id s + 1;
                     s = s\<lparr>tree_id := tree_id s + 2\<rparr>;
                     g2 = graph
                 in bindR (select_edge E graph s) (\<lambda>(edge, s).
                      let graph = remove_edge (gr E) graph edge;
                          g2 = simple_contract_edge (gr E) g2 edge
                      in bindR (chromatic E n graph lid s) (\<lambda>(pl, graph, s).
                         bindR (chromatic E n g2 rid s) (\<lambda>(pr, g2, s).
                           bindR (save E key (poly_plus (po E) pl pr) mid s)
                             (\<lambda>s. Some (Inr (poly_plus (po E) pl pr, graph, s)))))))"

subsection \<open>The timer\<close>

text \<open>
  \<^verbatim>\<open>timer_handler\<close> runs when \<^verbatim>\<open>SIGALRM\<close> is delivered, every \<^verbatim>\<open>status_interval\<close> seconds;
  \<^verbatim>\<open>verbose\<close> and \<^verbatim>\<open>status_interval\<close> are globals of the program and arguments here. It is
  the only code that changes \<^verbatim>\<open>current_timeout\<close> while the engine runs, and the engine
  reads \<^verbatim>\<open>current_timeout\<close> and \<^verbatim>\<open>status_flag\<close> in the first two statements of a frame
  only. So \<open>tutte\<close> above is the engine as it runs while no signal is delivered.

  \<open>tutte_frame\<close> is what a frame of \<^verbatim>\<open>tutte\<close> does once it has passed the test of its first
  statement, with \<open>rec\<close> for its recursive calls. \<open>tutte_sig\<close> is \<^verbatim>\<open>tutte\<close> with signals:
  \<open>sig\<close> is what the handler has done to the globals, since the frame before was entered,
  when a frame is entered in a given state.
\<close>

definition timer_handler :: "bool \<Rightarrow> int \<Rightarrow> 'c state \<Rightarrow> 'c state" where
  "timer_handler verbose status_interval s =
     s\<lparr>status_flag := (verbose \<or> status_flag s),
       current_timeout := current_timeout s - status_interval\<rparr>"

definition tutte_frame ::
  "('g, 'p, 'k, 'c) env \<Rightarrow> ('g \<Rightarrow> 32 word \<Rightarrow> 'c state \<Rightarrow> ('p \<times> 'g \<times> 'c state) result)
     \<Rightarrow> 'g \<Rightarrow> 32 word \<Rightarrow> 'c state \<Rightarrow> ('p \<times> 'g \<times> 'c state) result" where
  "tutte_frame E rec graph mid s =
     (let s = (if status_flag s then print_status s else s);
          s = s\<lparr>num_steps := num_steps s + 1\<rparr>;
          (loops, graph) = reduce_loops (gr E) graph;
          RF = Y (po E) loops;
          (key, hit, s) =
            probe E (num_vertices (gr E) graph \<ge> small_graph_threshold (opt E)
                     \<and> \<not> is_multitree (gr E) graph) graph s
      in case hit of
           Some (r, match_id) \<Rightarrow>
             (case bump_hit (num_vertices (gr E) graph + 1) s of
                None \<Rightarrow> None
              | Some s \<Rightarrow> Some (Inr (poly_times (po E) r RF, graph, s)))
         | None \<Rightarrow>
             bindR
               (if reduce_multicycles (opt E) \<and> is_multicycle (gr E) graph
                then Some (Inr (reduce_cycle (po E) (X (po E) 1) graph, graph,
                                s\<lparr>num_cycles := num_cycles s + 1\<rparr>))
                else if \<not> is_biconnected (gr E) graph
                then
                  let (biconnects, graph) = extract_biconnected_components (gr E) graph;
                      tid = tree_id s;
                      s = s\<lparr>tree_id := tree_id s + of_nat (length biconnects)\<rparr>;
                      graph = remove_graphs (gr E) graph biconnects;
                      s = (if is_multitree (gr E) graph
                           then s\<lparr>num_trees := num_trees s + 1\<rparr> else s);
                      s = (if length biconnects > 1
                           then s\<lparr>num_disbicomps := num_disbicomps s + 1\<rparr> else s);
                      poly = reduce_tree (po E) (X (po E) 1) graph
                  in bindR (components_loop E rec (X (po E) 1) biconnects poly tid s)
                       (\<lambda>(poly, s). Some (Inr (poly, graph, s)))
                else
                  let lid = tree_id s;
                      rid = tree_id s + 1;
                      s = s\<lparr>tree_id := tree_id s + 2\<rparr>;
                      g2 = graph
                  in bindR (select_edge E graph s) (\<lambda>(edge, s).
                       let graph = remove_edge (gr E) graph edge;
                           g2 = contract_edge (gr E) g2 edge
                       in bindR (rec graph lid s) (\<lambda>(pl, graph, s).
                          bindR (rec g2 rid s) (\<lambda>(pr, g2, s).
                            Some (Inr
                              (if snd (snd edge) > 1
                               then poly_plus (po E) pl
                                      (poly_times (po E) pr (Y2 (po E) 0 (snd (snd edge) - 1)))
                               else poly_plus (po E) pl pr,
                               graph, s))))))
               (\<lambda>(poly, graph, s).
                  bindR (save E key poly mid s)
                    (\<lambda>s. Some (Inr (poly_times (po E) poly RF, graph, s)))))"

fun tutte_sig ::
  "('g, 'p, 'k, 'c) env \<Rightarrow> ('c state \<Rightarrow> 'c state) \<Rightarrow> nat \<Rightarrow> 'g \<Rightarrow> 32 word \<Rightarrow> 'c state
     \<Rightarrow> ('p \<times> 'g \<times> 'c state) result" where
  "tutte_sig E sig 0 graph mid s =
     (let s = sig s
      in if current_timeout s \<le> 0 then Some (Inr (X (po E) 0, graph, s)) else None)"
| "tutte_sig E sig (Suc n) graph mid s =
     (let s = sig s
      in if current_timeout s \<le> 0 then Some (Inr (X (po E) 0, graph, s))
         else tutte_frame E (tutte_sig E sig n) graph mid s)"

section \<open>A small world to run the engine in\<close>

text \<open>
  Concrete collaborators for evaluating the engine: a handful of graphs, each listed with
  its vertices, its edges \<open>(u, v, multiplicity)\<close> and what the graph class answers about
  it; polynomials kept as unevaluated expressions; and a cache that is an association
  list, the graph's number serving as its key.
  \<^item> \<open>path5\<close>: the path on five vertices.
  \<^item> \<open>dumbbell\<close>: two triangles \<open>triangle_a\<close> and \<open>triangle_b\<close> joined by the bridge
    \<open>2--3\<close>; what is left of it when the triangles are removed is \<open>bridge23\<close>.
  \<^item> \<open>diamond\<close>: the complete graph on four vertices less the edge \<open>0--3\<close>; \<open>diamond2\<close> is
    the same graph with the edge \<open>0--1\<close> doubled. Deleting \<open>0--1\<close> from either leaves
    \<open>pendant\<close> (the triangle \<open>triangle_c\<close> with the edge \<open>0--2\<close> hanging off it, of
    which \<open>edge02\<close> is left when the triangle is removed), contracting it gives
    \<open>fat_triangle\<close>, a triangle with one doubled edge.
  \<^item> \<open>wheel4\<close>: a hub joined to the four vertices of a cycle.
\<close>

datatype demo_poly = PX nat | PY nat | PY2 nat nat | PEmpty
  | PPlus demo_poly demo_poly | PTimes demo_poly demo_poly
  | PCycle demo_poly nat | PTree demo_poly nat

record demo_graph =
  dg_id :: nat
  dg_verts :: "nat list"
  dg_edges :: "(nat \<times> nat \<times> nat) list"
  dg_multitree :: bool
  dg_multicycle :: bool
  dg_biconnected :: bool

definition mk_graph ::
  "nat \<Rightarrow> nat list \<Rightarrow> (nat \<times> nat \<times> nat) list \<Rightarrow> bool \<Rightarrow> bool \<Rightarrow> bool \<Rightarrow> demo_graph" where
  "mk_graph i vs es t c b =
     \<lparr>dg_id = i, dg_verts = vs, dg_edges = es, dg_multitree = t, dg_multicycle = c,
      dg_biconnected = b\<rparr>"

definition path5 :: demo_graph where
  "path5 = mk_graph 1 [0, 1, 2, 3, 4] [(0, 1, 1), (1, 2, 1), (2, 3, 1), (3, 4, 1)]
     True False False"

definition dumbbell :: demo_graph where
  "dumbbell = mk_graph 2 [0, 1, 2, 3, 4, 5]
     [(0, 1, 1), (0, 2, 1), (1, 2, 1), (2, 3, 1), (3, 4, 1), (3, 5, 1), (4, 5, 1)]
     False False False"

definition triangle_a :: demo_graph where
  "triangle_a = mk_graph 3 [0, 1, 2] [(0, 1, 1), (0, 2, 1), (1, 2, 1)] False True True"

definition triangle_b :: demo_graph where
  "triangle_b = mk_graph 4 [3, 4, 5] [(3, 4, 1), (3, 5, 1), (4, 5, 1)] False True True"

definition bridge23 :: demo_graph where
  "bridge23 = mk_graph 5 [2, 3] [(2, 3, 1)] True False False"

definition diamond2 :: demo_graph where
  "diamond2 = mk_graph 6 [0, 1, 2, 3]
     [(0, 1, 2), (0, 2, 1), (1, 2, 1), (1, 3, 1), (2, 3, 1)] False False True"

definition diamond :: demo_graph where
  "diamond = mk_graph 9 [0, 1, 2, 3]
     [(0, 1, 1), (0, 2, 1), (1, 2, 1), (1, 3, 1), (2, 3, 1)] False False True"

definition pendant :: demo_graph where
  "pendant = mk_graph 7 [0, 1, 2, 3] [(0, 2, 1), (1, 2, 1), (1, 3, 1), (2, 3, 1)]
     False False False"

definition triangle_c :: demo_graph where
  "triangle_c = mk_graph 12 [1, 2, 3] [(1, 2, 1), (1, 3, 1), (2, 3, 1)] False True True"

definition edge02 :: demo_graph where
  "edge02 = mk_graph 11 [0, 2] [(0, 2, 1)] True False False"

definition fat_triangle :: demo_graph where
  "fat_triangle = mk_graph 8 [0, 2, 3] [(0, 2, 2), (0, 3, 1), (2, 3, 1)] False True True"

definition wheel4 :: demo_graph where
  "wheel4 = mk_graph 10 [0, 1, 2, 3, 4]
     [(0, 1, 1), (0, 2, 1), (0, 3, 1), (0, 4, 1), (1, 2, 1), (1, 4, 1), (2, 3, 1), (3, 4, 1)]
     False False True"

definition demo_edges_of :: "demo_graph \<Rightarrow> nat \<Rightarrow> (nat \<times> nat) list" where
  "demo_edges_of g v =
     concat (map (\<lambda>(a, b, k). if a = v then [(b, k)] else if b = v then [(a, k)] else [])
       (dg_edges g))"

definition demo_graph_ops :: "demo_graph graph_ops" where
  "demo_graph_ops =
     \<lparr>num_vertices = (\<lambda>g. length (dg_verts g)),
      num_edges = (\<lambda>g. sum_list (map (\<lambda>(a, b, k). k) (dg_edges g))),
      num_underlying_edges = (\<lambda>g v. length (demo_edges_of g v)),
      verts = dg_verts,
      edges_of = demo_edges_of,
      is_multitree = dg_multitree,
      is_multicycle = dg_multicycle,
      is_biconnected = dg_biconnected,
      extract_biconnected_components =
        (\<lambda>g. if dg_id g = 2 then ([triangle_a, triangle_b], g)
             else if dg_id g = 7 then ([triangle_c], g) else ([], g)),
      remove_graphs =
        (\<lambda>g bs. if dg_id g = 2 then bridge23 else if dg_id g = 7 then edge02 else g),
      remove_edge = (\<lambda>g e. if dg_id g = 6 \<or> dg_id g = 9 then pendant else g),
      contract_edge = (\<lambda>g e. if dg_id g = 6 \<or> dg_id g = 9 then fat_triangle else g),
      simple_contract_edge = (\<lambda>g e. g),
      reduce_loops = (\<lambda>g. (0, g))\<rparr>"

definition demo_poly_ops :: "(demo_graph, demo_poly) poly_ops" where
  "demo_poly_ops =
     \<lparr>X = PX, Y = PY, Y2 = PY2, P_empty = PEmpty, poly_plus = PPlus, poly_times = PTimes,
      reduce_cycle = (\<lambda>p g. PCycle p (dg_id g)),
      reduce_tree = (\<lambda>p g. PTree p (dg_id g))\<rparr>"

type_synonym demo_cache = "(nat \<times> demo_poly \<times> 32 word) list"

definition demo_cache_ops :: "(demo_graph, demo_poly, nat, demo_cache) cache_ops" where
  "demo_cache_ops =
     \<lparr>graph_key = dg_id,
      cache_lookup = (\<lambda>k c. (map_of c k, c)),
      cache_store = (\<lambda>k p i c. Inr ((k, p, i) # c))\<rparr>"

definition demo_options :: options where
  "demo_options =
     \<lparr>small_graph_threshold = 5, edge_selection_heuristic = VERTEX_ORDER,
      reduce_multicycles = True, reduce_multiedges = True, reduce_lines = False,
      write_tree = False\<rparr>"

definition demo_env :: "(demo_graph, demo_poly, nat, demo_cache) env" where
  "demo_env =
     \<lparr>gr = demo_graph_ops, po = demo_poly_ops, ca = demo_cache_ops, opt = demo_options,
      lib = \<lparr>RAND_MAX = 2147483647, rand_seq = (\<lambda>i. 0)\<rparr>\<rparr>"

definition demo_state :: "int \<Rightarrow> demo_cache \<Rightarrow> demo_cache state" where
  "demo_state t c =
     \<lparr>num_steps = 0, num_bicomps = 0, num_cycles = 0, num_disbicomps = 0, num_trees = 0,
      old_num_steps = 0, current_timeout = t, status_flag = False, tree_id = 2,
      cache_hit_sizes = [0, 0, 0, 0, 0, 0, 0, 0], rand_count = 0, the_cache = c\<rparr>"

text \<open>
  The same collaborators with a threshold of four vertices, so that the diamond has a key;
  and a timer that rings once, five seconds after the start, when one frame has passed its
  test and no other has been entered yet (\<^verbatim>\<open>status_interval\<close> is 5, \<^verbatim>\<open>verbose\<close> is off).
\<close>

definition demo_env4 :: "(demo_graph, demo_poly, nat, demo_cache) env" where
  "demo_env4 = demo_env\<lparr>opt := demo_options\<lparr>small_graph_threshold := 4\<rparr>\<rparr>"

definition rings_once :: "demo_cache state \<Rightarrow> demo_cache state" where
  "rings_once s =
     (if num_steps s = 1 \<and> 0 < current_timeout s then timer_handler False 5 s else s)"

section \<open>The shape of a well-formed cache\<close>

text \<open>
  The view of a cache is what its pointers point to: \<open>get_node c\<close>. The list \<open>ps\<close> of
  pointers is the doubly-linked list that follows \<open>p\<close> in the view \<open>V\<close> (\<open>dl V p ps\<close>) when
  following \<^verbatim>\<open>next\<close> from \<open>p\<close> visits exactly \<open>ps\<close> and then meets null, and every
  member's \<^verbatim>\<open>prev\<close> is the pointer before it. The entries at the offsets \<open>as\<close> are, in
  this order, the list of bucket \<open>b\<close> (\<open>bucket_chain c b as\<close>) when they are distinct and
  follow the bucket's sentinel in this way.
\<close>

fun dl :: "(ptr \<Rightarrow> cache_node option) \<Rightarrow> ptr \<Rightarrow> ptr list \<Rightarrow> bool" where
  "dl V p [] = (case V p of None \<Rightarrow> False | Some n \<Rightarrow> next_ptr n = Null)"
| "dl V p (q # qs) =
     (case V p of
        None \<Rightarrow> False
      | Some n \<Rightarrow>
          next_ptr n = q \<and> (case V q of None \<Rightarrow> False | Some m \<Rightarrow> prev_ptr m = p) \<and> dl V q qs)"

definition bucket_chain :: "cache \<Rightarrow> nat \<Rightarrow> nat list \<Rightarrow> bool" where
  "bucket_chain c b as =
     (b < length (buckets c) \<and> distinct as \<and> dl (get_node c) (Bucket b) (map Node as))"

text \<open>The two links of a node, and the node without them: what an entry holds.\<close>

definition links :: "cache_node \<Rightarrow> ptr \<times> ptr" where
  "links n = (next_ptr n, prev_ptr n)"

definition content :: "cache_node \<Rightarrow> cache_node" where
  "content n = n\<lparr>next_ptr := Null, prev_ptr := Null\<rparr>"

text \<open>Two caches that differ at most in the bucket array's content and in the arena.\<close>

definition same_frame :: "cache \<Rightarrow> cache \<Rightarrow> bool" where
  "same_frame c c' =
     (c' = c\<lparr>buckets := buckets c', arena := arena c'\<rparr> \<and> length (buckets c') = length (buckets c))"

text \<open>The first pointer of a list of pointers, null when there is none.\<close>

definition hd_ptr :: "ptr list \<Rightarrow> ptr" where
  "hd_ptr ps = (case ps of [] \<Rightarrow> Null | q # _ \<Rightarrow> q)"

text \<open>The entry at offset \<open>x\<close> has a key that \<^verbatim>\<open>compare_graph_keys\<close> finds equal to \<open>key\<close>.\<close>

definition matches :: "'p platform \<Rightarrow> byte list \<Rightarrow> cache \<Rightarrow> nat \<Rightarrow> bool" where
  "matches K key c x =
     (case arena c x of None \<Rightarrow> False | Some n \<Rightarrow> compare_graph_keys K key (key_bytes n))"

section \<open>The layout of the arena\<close>

text \<open>
  A node is free when both its links are null: this is the test of \<^verbatim>\<open>pack_buffer\<close>, and
  what \<^verbatim>\<open>remove_node\<close> leaves. The entry at offset \<open>a\<close> of the arena \<open>h\<close> is live when it
  is a node that is not free; \<open>size_at h a\<close> is its \<^verbatim>\<open>size\<close> field.
\<close>

definition is_free :: "cache_node \<Rightarrow> bool" where
  "is_free n = (next_ptr n = Null \<and> prev_ptr n = Null)"

definition live_at :: "(nat \<Rightarrow> cache_node option) \<Rightarrow> nat \<Rightarrow> bool" where
  "live_at h a = (case h a of None \<Rightarrow> False | Some n \<Rightarrow> \<not> is_free n)"

definition size_at :: "(nat \<Rightarrow> cache_node option) \<Rightarrow> nat \<Rightarrow> nat" where
  "size_at h a = (case h a of None \<Rightarrow> 0 | Some n \<Rightarrow> unat (node_size n))"

text \<open>
  The entries at the offsets \<open>as\<close> tile the arena from \<open>a\<close> to \<open>e\<close>: the first is at \<open>a\<close>,
  each one starts where the one before it ends (\<^verbatim>\<open>next_node\<close>), none has size 0, and the
  last ends at \<open>e\<close>.
\<close>

fun tiled :: "(nat \<Rightarrow> cache_node option) \<Rightarrow> nat \<Rightarrow> nat list \<Rightarrow> nat \<Rightarrow> bool" where
  "tiled h a [] e = (a = e)"
| "tiled h a (x # xs) e =
     (x = a \<and> (case h a of
                  None \<Rightarrow> False
                | Some n \<Rightarrow> node_size n \<noteq> 0 \<and> tiled h (a + unat (node_size n)) xs e))"

text \<open>
  The sum of the weights \<open>w\<close> of the entries before offset \<open>x\<close>; the total size of the
  free entries before \<open>x\<close>, and of the live ones; and where the entry at \<open>x\<close> is after it
  has slid down over the free entries before it.
\<close>

definition before :: "(nat \<Rightarrow> nat) \<Rightarrow> nat list \<Rightarrow> nat \<Rightarrow> nat" where
  "before w as x = sum_list (map w (filter (\<lambda>a. a < x) as))"

definition freed_before :: "(nat \<Rightarrow> cache_node option) \<Rightarrow> nat list \<Rightarrow> nat \<Rightarrow> nat" where
  "freed_before h as x = before (\<lambda>a. if live_at h a then 0 else size_at h a) as x"

definition live_before :: "(nat \<Rightarrow> cache_node option) \<Rightarrow> nat list \<Rightarrow> nat \<Rightarrow> nat" where
  "live_before h as x = before (\<lambda>a. if live_at h a then size_at h a else 0) as x"

definition slide :: "(nat \<Rightarrow> cache_node option) \<Rightarrow> nat list \<Rightarrow> nat \<Rightarrow> nat" where
  "slide h as x = x - freed_before h as x"

text \<open>
  A pointer and a node's links after the entries have been moved by \<open>f\<close>; the bucket
  sentinels stay where they are.
\<close>

definition slide_ptr :: "(nat \<Rightarrow> nat) \<Rightarrow> ptr \<Rightarrow> ptr" where
  "slide_ptr f p = (case p of Node x \<Rightarrow> Node (f x) | _ \<Rightarrow> p)"

definition relink :: "(nat \<Rightarrow> nat) \<Rightarrow> cache_node \<Rightarrow> cache_node" where
  "relink f n = n\<lparr>next_ptr := slide_ptr f (next_ptr n), prev_ptr := slide_ptr f (prev_ptr n)\<rparr>"

text \<open>
  A well-formed cache, ready for compaction: the entries at \<open>as\<close> tile the arena from its
  start to the frontier, \<open>bl\<close> gives for every bucket the offsets of the entries in its
  list, no entry is in two lists or twice in one, the entries in the lists are exactly
  the live ones, and every sentinel's \<^verbatim>\<open>prev\<close> is null.
\<close>

definition packable :: "cache \<Rightarrow> nat list \<Rightarrow> nat list list \<Rightarrow> bool" where
  "packable c as bl =
     (tiled (arena c) 0 as (next_p c)
      \<and> length bl = length (buckets c)
      \<and> distinct (concat bl)
      \<and> set (concat bl) = set (filter (live_at (arena c)) as)
      \<and> (\<forall>j<length bl. dl (get_node c) (Bucket j) (map Node (bl ! j))
                          \<and> prev_ptr (buckets c ! j) = Null))"

text \<open>
  For the proof of compaction. While the pass is at offset \<open>p\<close> the entries before \<open>p\<close>
  have been moved and the others have not (\<open>psi\<close>). The pointers in use are the sentinels
  and the live entries (\<open>dom_ptrs\<close>); \<open>linked\<close> says that their links point to each other;
  \<open>pk_inv\<close> is the invariant of the loop, with \<open>c0\<close> the cache at its start.
\<close>

definition psi :: "(nat \<Rightarrow> cache_node option) \<Rightarrow> nat list \<Rightarrow> nat \<Rightarrow> nat \<Rightarrow> nat" where
  "psi h as p x = (if x < p then slide h as x else x)"

definition dom_ptrs :: "cache \<Rightarrow> nat list \<Rightarrow> ptr set" where
  "dom_ptrs c as =
     {q. (\<exists>j. q = Bucket j \<and> j < length (buckets c))
         \<or> (\<exists>a. q = Node a \<and> a \<in> set as \<and> live_at (arena c) a)}"

definition linked :: "cache \<Rightarrow> nat list \<Rightarrow> bool" where
  "linked c as =
     ((\<forall>q n. q \<in> dom_ptrs c as \<longrightarrow> get_node c q = Some n \<longrightarrow> next_ptr n \<noteq> Null \<longrightarrow>
          next_ptr n \<in> dom_ptrs c as \<and> next_ptr n \<noteq> q
          \<and> (\<exists>b m. next_ptr n = Node b \<and> arena c b = Some m \<and> prev_ptr m = q))
      \<and> (\<forall>a n. Node a \<in> dom_ptrs c as \<longrightarrow> arena c a = Some n \<longrightarrow>
          prev_ptr n \<in> dom_ptrs c as \<and> prev_ptr n \<noteq> Node a \<and> prev_ptr n \<noteq> next_ptr n
          \<and> (\<exists>m. get_node c (prev_ptr n) = Some m \<and> next_ptr m = Node a))
      \<and> (\<forall>j. j < length (buckets c) \<longrightarrow> prev_ptr (buckets c ! j) = Null))"

definition pk_inv :: "cache \<Rightarrow> nat list \<Rightarrow> nat \<Rightarrow> cache \<Rightarrow> bool" where
  "pk_inv c0 as p c =
     (same_frame c0 c
      \<and> (\<forall>q. q \<in> dom_ptrs c0 as \<longrightarrow>
            get_node c (slide_ptr (psi (arena c0) as p) q)
            = map_option (relink (psi (arena c0) as p)) (get_node c0 q))
      \<and> (\<forall>a. a \<in> set as \<longrightarrow> p \<le> a \<longrightarrow> \<not> live_at (arena c0) a \<longrightarrow> arena c a = arena c0 a))"

section \<open>Eviction by usage\<close>

text \<open>
  The test of \<^verbatim>\<open>remove_unused_nodes\<close> on the entry at offset \<open>a\<close>, in the round with
  counter \<open>hc\<close>. The lists \<open>bl\<close> are the bucket lists of the cache (\<open>all_chains\<close>): one per
  bucket, doubly linked from its sentinel, no entry in two of them or twice in one.
  \<open>removed_bytes K c bl h\<close> is the total size of the entries of these lists that the
  test selects with counter \<open>h\<close>, and \<open>links_at a c\<close> are the two links of the entry at
  offset \<open>a\<close>: both are null when the entry has been removed.

  \<open>add_bytes K c amount as\<close> is \<^verbatim>\<open>amount\<close> after \<^verbatim>\<open>amount += optr->size\<close> for the entries
  \<open>as\<close>, one after the other, and \<open>removed_amount K c bl h\<close> is the \<^verbatim>\<open>amount\<close> that
  \<^verbatim>\<open>remove_unused_nodes\<close> has summed up at the end of the round with counter \<open>h\<close>: the
  round adds the entries that the test selects with \<open>h\<close> and did not select before, in
  the order of the buckets and of their lists.
\<close>

definition victim :: "'p platform \<Rightarrow> cache \<Rightarrow> 32 word \<Rightarrow> nat \<Rightarrow> bool" where
  "victim K c hc a =
     (case arena c a of
        None \<Rightarrow> False
      | Some optr \<Rightarrow> hit_count optr < hc \<and> graph_size K (key_bytes optr) < min_replace_size c)"

definition all_chains :: "cache \<Rightarrow> nat list list \<Rightarrow> bool" where
  "all_chains c bl =
     (length bl = length (buckets c) \<and> distinct (concat bl)
      \<and> (\<forall>j<length bl. dl (get_node c) (Bucket j) (map Node (bl ! j))))"

definition links_at :: "nat \<Rightarrow> cache \<Rightarrow> (ptr \<times> ptr) option" where
  "links_at a c = map_option links (arena c a)"

definition removed_bytes :: "'p platform \<Rightarrow> cache \<Rightarrow> nat list list \<Rightarrow> nat \<Rightarrow> nat" where
  "removed_bytes K c bl h =
     sum_list (map (size_at (arena c)) (filter (victim K c (of_nat h)) (concat bl)))"

definition add_bytes :: "'p platform \<Rightarrow> cache \<Rightarrow> real \<Rightarrow> nat list \<Rightarrow> real" where
  "add_bytes K c amount as =
     foldl (\<lambda>x a. to_double K (x + to_double K (real (size_at (arena c) a)))) amount as"

fun removed_amount :: "'p platform \<Rightarrow> cache \<Rightarrow> nat list list \<Rightarrow> nat \<Rightarrow> real" where
  "removed_amount K c bl 0 = 0"
| "removed_amount K c bl (Suc h) =
     add_bytes K c (removed_amount K c bl h)
       (filter (\<lambda>a. \<not> victim K c (of_nat h) a \<and> victim K c (of_nat (Suc h)) a) (concat bl))"

text \<open>
  For the proof of eviction: how the cache \<open>c'\<close> differs from \<open>c\<close> once the rounds with
  counters 1 to \<open>h\<close> have been made on \<open>c\<close>, whose bucket lists are \<open>bl\<close>.
\<close>

definition evicted :: "'p platform \<Rightarrow> cache \<Rightarrow> nat list list \<Rightarrow> nat \<Rightarrow> cache \<Rightarrow> bool" where
  "evicted K c bl h c' =
     (all_chains c' (map (filter (\<lambda>a. \<not> victim K c (of_nat h) a)) bl)
      \<and> c' = c\<lparr>buckets := buckets c', arena := arena c',
                 numentries := numentries c
                   - of_nat (length (filter (victim K c (of_nat h)) (concat bl)))\<rparr>
      \<and> (\<forall>a. map_option content (arena c' a) = map_option content (arena c a))
      \<and> (\<forall>a. a \<notin> set (concat bl) \<longrightarrow> arena c' a = arena c a)
      \<and> (\<forall>a\<in>set (concat bl). victim K c (of_nat h) a \<longrightarrow>
             map_option links (arena c' a) = Some (Null, Null)))"

section \<open>Making room\<close>

text \<open>
  The body of the \<^verbatim>\<open>while\<close> loop of \<^verbatim>\<open>alloc_node\<close>, eviction then compaction, run \<open>n\<close>
  times.
\<close>

fun evict_times :: "'p platform \<Rightarrow> nat \<Rightarrow> cache \<Rightarrow> cache option" where
  "evict_times K 0 c = Some c"
| "evict_times K (Suc n) c =
     (case evict_and_pack K c of None \<Rightarrow> None | Some c1 \<Rightarrow> evict_times K n c1)"

section \<open>Evaluation rules\<close>

text \<open>The equations that unfold the small world, the engine's helper functions and the cache's.\<close>

lemmas demo_defs = demo_env_def demo_graph_ops_def demo_poly_ops_def demo_cache_ops_def
  demo_options_def demo_state_def mk_graph_def demo_edges_of_def
  path5_def dumbbell_def triangle_a_def triangle_b_def bridge23_def diamond2_def diamond_def
  pendant_def triangle_c_def edge02_def fat_triangle_def wheel4_def demo_env4_def rings_once_def

lemmas eng_defs = probe_def save_def bindR_def bump_hit_def select_edge_def candidate_edges_def
  edge_third_def print_status_def

lemmas cache_defs = get_node_def put_node_def set_next_def set_prev_def insert_node_after_def
  remove_node_def overwrite_def move_node_def pack_buffer_def remove_unused_nodes_def
  randomly_remove_nodes_def evict_and_pack_def alloc_node_def raw_node_def store_def lookup_def
  two_entries_def demo_platform_def sentinel_def

section \<open>Rounding to binary64\<close>

text \<open>
  The number \<open>x\<close> is rounded on the grid of the multiples of \<open>2^(-m)\<close>, or of \<open>2^m\<close>, when
  that is the grid of the binary64 numbers around it.
\<close>

lemma round_even_int [simp]: "round_even (of_int k) = k"
  by (simp add: round_even_def)

lemma round_even_numeral [simp]: "round_even (numeral k) = numeral k"
  using round_even_int [of "numeral k"] by simp

lemma round_even_1 [simp]: "round_even 1 = 1"
  using round_even_int [of 1] by simp

lemma floor_log2:
  assumes "0 < x" and "2 powr of_int e \<le> x" and "x < 2 powr (of_int e + 1)"
  shows "\<lfloor>log 2 x\<rfloor> = e"
proof -
  have "of_int e \<le> log 2 x" using assms(1,2) by (simp add: le_log_iff)
  moreover have "log 2 x < of_int e + 1" using assms(1,3) by (simp add: log_less_iff)
  ultimately show ?thesis by linarith
qed

lemma binary64_up:
  assumes "2 ^ 52 \<le> x * 2 ^ m" and "x * 2 ^ m < 2 ^ 53"
  shows "binary64 x = of_int (round_even (x * 2 ^ m)) / 2 ^ m"
proof -
  have pos: "0 < x"
  proof (rule ccontr)
    assume "\<not> 0 < x"
    then have "x * 2 ^ m \<le> 0" by (simp add: mult_le_0_iff)
    with assms(1) show False by (smt (verit) zero_less_power)
  qed
  let ?e = "52 - int m"
  have p: "(2::real) powr of_int ?e = 2 ^ 52 / 2 ^ m"
    by (simp add: powr_diff powr_realpow)
  have p1: "(2::real) powr (of_int ?e + 1) = 2 ^ 53 / 2 ^ m"
    by (simp add: powr_diff powr_add powr_realpow)
  have a: "2 powr of_int ?e \<le> x" unfolding p using assms(1) by (simp add: divide_le_eq)
  have b: "x < 2 powr (of_int ?e + 1)" unfolding p1 using assms(2) by (simp add: less_divide_eq)
  have e: "\<lfloor>log 2 \<bar>x\<bar>\<rfloor> = ?e" using floor_log2 [OF pos a b] pos by simp
  have s1: "(2::real) powr (52 - of_int ?e) = 2 ^ m" by (simp add: powr_realpow)
  have s2: "(2::real) powr (of_int ?e - 52) = 1 / 2 ^ m" by (simp add: powr_minus powr_realpow divide_inverse)
  show ?thesis using pos unfolding binary64_def e Let_def s1 s2 by simp
qed

lemma binary64_down:
  assumes "2 ^ 52 \<le> x / 2 ^ m" and "x / 2 ^ m < 2 ^ 53"
  shows "binary64 x = of_int (round_even (x / 2 ^ m)) * 2 ^ m"
proof -
  have pos: "0 < x"
  proof (rule ccontr)
    assume "\<not> 0 < x"
    then have "x / 2 ^ m \<le> 0" by (simp add: divide_le_0_iff)
    with assms(1) show False by (smt (verit) zero_less_power)
  qed
  let ?e = "52 + int m"
  have p: "(2::real) powr of_int ?e = 2 ^ 52 * 2 ^ m"
    by (simp add: powr_add powr_realpow)
  have p1: "(2::real) powr (of_int ?e + 1) = 2 ^ 53 * 2 ^ m"
    by (simp add: powr_add powr_realpow)
  have a: "2 powr of_int ?e \<le> x" unfolding p using assms(1) by (simp add: le_divide_eq)
  have b: "x < 2 powr (of_int ?e + 1)" unfolding p1 using assms(2) by (simp add: divide_less_eq)
  have e: "\<lfloor>log 2 \<bar>x\<bar>\<rfloor> = ?e" using floor_log2 [OF pos a b] pos by simp
  have s1: "(2::real) powr (52 - of_int ?e) = 1 / 2 ^ m" by (simp add: powr_minus powr_realpow divide_inverse)
  have s2: "(2::real) powr (of_int ?e - 52) = 2 ^ m" by (simp add: powr_realpow)
  show ?thesis using pos unfolding binary64_def e Let_def s1 s2 by simp
qed

lemma binary64_0 [simp]: "binary64 0 = 0" by (simp add: binary64_def)

lemma binary64_small_nat:
  "binary64 40 = 40" "binary64 36 = 36" "binary64 76 = 76" "binary64 1 = 1"
  using binary64_up [of 40 47] binary64_up [of 36 47] binary64_up [of 76 46]
    binary64_up [of 1 52] by simp_all

section \<open>Clearing the cache\<close>

text \<open>
  C10. \<^verbatim>\<open>clear()\<close> puts the frontier back at the start of the buffer, so \<^verbatim>\<open>size()\<close> is 0,
  and nulls the \<^verbatim>\<open>next\<close> and \<^verbatim>\<open>prev\<close> links of every bucket, but it does not touch
  the entry counter: \<^verbatim>\<open>num_entries()\<close> returns after the call what it returned before.
  \<^verbatim>\<open>reset_stats()\<close> zeroes hits, misses and collisions and leaves the entry counter alone
  as well.
\<close>

theorem clear_keeps_numentries:
  "size_used (clear c) = 0
   \<and> length (buckets (clear c)) = length (buckets c)
   \<and> (\<forall>i. i < length (buckets c) \<longrightarrow>
         next_ptr (buckets (clear c) ! i) = Null \<and> prev_ptr (buckets (clear c) ! i) = Null)
   \<and> numentries (clear c) = numentries c
   \<and> num_entries (clear c) = num_entries c
   \<and> numentries (reset_stats c) = numentries c
   \<and> num_entries (reset_stats c) = num_entries c
   \<and> hits (reset_stats c) = 0 \<and> misses (reset_stats c) = 0 \<and> collisions (reset_stats c) = 0"
  by (simp add: clear_def reset_stats_def size_used_def num_entries_def)

theorem clear_keeps_numentries_witness:
  "(1::nat) < length (buckets two_entries)
   \<and> size_used two_entries = 76
   \<and> num_entries two_entries = 2
   \<and> next_ptr (buckets two_entries ! 1) = Node 40
   \<and> size_used (clear two_entries) = 0
   \<and> next_ptr (buckets (clear two_entries) ! 1) = Null
   \<and> prev_ptr (buckets (clear two_entries) ! 1) = Null
   \<and> num_entries (clear two_entries) = 2"
proof -
  have l: "(1::nat) < length (buckets two_entries)" by (simp add: two_entries_def)
  from clear_keeps_numentries [of two_entries] l
  have "next_ptr (buckets (clear two_entries) ! 1) = Null
      \<and> prev_ptr (buckets (clear two_entries) ! 1) = Null
      \<and> size_used (clear two_entries) = 0
      \<and> num_entries (clear two_entries) = num_entries two_entries"
    by simp
  moreover have "size_used two_entries = 76" "num_entries two_entries = 2"
    "next_ptr (buckets two_entries ! 1) = Node 40"
    by (simp_all add: two_entries_def size_used_def num_entries_def sentinel_def)
  ultimately show ?thesis using l by simp
qed

section \<open>Linking and unlinking nodes\<close>

text \<open>What writing through a pointer does to the view of a cache.\<close>

lemma same_frame_refl: "same_frame c c"
  by (simp add: same_frame_def)

lemma same_frame_trans: "same_frame c c1 \<Longrightarrow> same_frame c1 c2 \<Longrightarrow> same_frame c c2"
  unfolding same_frame_def
  by (metis (no_types, lifting) cache.surjective cache.update_convs(5) cache.update_convs(6))

lemma get_node_Null: "get_node c Null = None"
  by (simp add: get_node_def)

lemma put_node_view:
  assumes "get_node c p = Some m"
  shows "\<exists>c'. put_node p n c = Some c' \<and> get_node c' = (get_node c)(p := Some n)
           \<and> same_frame c c'"
proof (cases p)
  case Null
  with assms show ?thesis by (simp add: get_node_def)
next
  case (Bucket i)
  with assms have i: "i < length (buckets c)"
    by (simp add: get_node_def split: if_splits)
  let ?c = "c\<lparr>buckets := (buckets c)[i := n]\<rparr>"
  have "get_node ?c q = ((get_node c)(p := Some n)) q" for q
    using i Bucket by (cases q) (auto simp: get_node_def nth_list_update)
  then have "get_node ?c = (get_node c)(p := Some n)" by (rule ext)
  moreover have "same_frame c ?c" by (simp add: same_frame_def)
  ultimately show ?thesis using i Bucket by (simp add: put_node_def)
next
  case (Node a)
  with assms have a: "arena c a = Some m" by (simp add: get_node_def)
  let ?c = "c\<lparr>arena := (arena c)(a \<mapsto> n)\<rparr>"
  have "get_node ?c q = ((get_node c)(p := Some n)) q" for q
    using Node by (cases q) (auto simp: get_node_def)
  then have "get_node ?c = (get_node c)(p := Some n)" by (rule ext)
  moreover have "same_frame c ?c" by (simp add: same_frame_def)
  ultimately show ?thesis using a Node by (simp add: put_node_def)
qed

lemma set_next_view:
  assumes "get_node c p = Some m"
  shows "\<exists>c'. set_next p q c = Some c'
           \<and> get_node c' = (get_node c)(p := Some (m\<lparr>next_ptr := q\<rparr>)) \<and> same_frame c c'"
  using put_node_view [OF assms, of "m\<lparr>next_ptr := q\<rparr>"] assms by (simp add: set_next_def)

lemma set_prev_view:
  assumes "get_node c p = Some m"
  shows "\<exists>c'. set_prev p q c = Some c'
           \<and> get_node c' = (get_node c)(p := Some (m\<lparr>prev_ptr := q\<rparr>)) \<and> same_frame c c'"
  using put_node_view [OF assms, of "m\<lparr>prev_ptr := q\<rparr>"] assms by (simp add: set_prev_def)

text \<open>Unlinking a node whose neighbours are where its links say.\<close>

lemma remove_node_view:
  assumes a: "get_node c a = Some n"
    and p: "get_node c (prev_ptr n) = Some m"
    and s: "next_ptr n = Null \<or> get_node c (next_ptr n) = Some k"
    and d: "prev_ptr n \<noteq> a" "next_ptr n \<noteq> a" "prev_ptr n \<noteq> next_ptr n"
  shows "\<exists>c'. remove_node a c = Some c' \<and> same_frame c c'
           \<and> get_node c' =
               (if next_ptr n = Null
                then (get_node c)(prev_ptr n := Some (m\<lparr>next_ptr := next_ptr n\<rparr>),
                                  a := Some (n\<lparr>next_ptr := Null, prev_ptr := Null\<rparr>))
                else (get_node c)(prev_ptr n := Some (m\<lparr>next_ptr := next_ptr n\<rparr>),
                                  next_ptr n := Some (k\<lparr>prev_ptr := prev_ptr n\<rparr>),
                                  a := Some (n\<lparr>next_ptr := Null, prev_ptr := Null\<rparr>)))"
proof -
  from set_next_view [OF p, of "next_ptr n"] obtain c1 where
    c1: "set_next (prev_ptr n) (next_ptr n) c = Some c1"
      "get_node c1 = (get_node c)(prev_ptr n := Some (m\<lparr>next_ptr := next_ptr n\<rparr>))"
      "same_frame c c1" by blast
  have a1: "get_node c1 a = Some n" using c1(2) a d(1) by simp
  show ?thesis
  proof (cases "next_ptr n = Null")
    case True
    from set_next_view [OF a1, of Null] obtain c3 where
      c3: "set_next a Null c1 = Some c3"
        "get_node c3 = (get_node c1)(a := Some (n\<lparr>next_ptr := Null\<rparr>))"
        "same_frame c1 c3" by blast
    have a3: "get_node c3 a = Some (n\<lparr>next_ptr := Null\<rparr>)" using c3(2) by simp
    from set_prev_view [OF a3, of Null] obtain c4 where
      c4: "set_prev a Null c3 = Some c4"
        "get_node c4 = (get_node c3)(a := Some (n\<lparr>next_ptr := Null, prev_ptr := Null\<rparr>))"
        "same_frame c3 c4" by auto
    have "remove_node a c = Some c4"
      using a c1(1) a1 True c3(1) c4(1) by (simp add: remove_node_def)
    moreover have "same_frame c c4"
      using c1(3) c3(3) c4(3) by (blast intro: same_frame_trans)
    moreover have "get_node c4 =
        (get_node c)(prev_ptr n := Some (m\<lparr>next_ptr := next_ptr n\<rparr>),
                     a := Some (n\<lparr>next_ptr := Null, prev_ptr := Null\<rparr>))"
      using c4(2) c3(2) c1(2) by simp
    ultimately show ?thesis using True by simp
  next
    case False
    with s have k: "get_node c (next_ptr n) = Some k" by simp
    have k1: "get_node c1 (next_ptr n) = Some k" using c1(2) k d(3) by simp
    from set_prev_view [OF k1, of "prev_ptr n"] obtain c2 where
      c2: "set_prev (next_ptr n) (prev_ptr n) c1 = Some c2"
        "get_node c2 = (get_node c1)(next_ptr n := Some (k\<lparr>prev_ptr := prev_ptr n\<rparr>))"
        "same_frame c1 c2" by blast
    have a2: "get_node c2 a = Some n" using c2(2) a1 d(2) by simp
    from set_next_view [OF a2, of Null] obtain c3 where
      c3: "set_next a Null c2 = Some c3"
        "get_node c3 = (get_node c2)(a := Some (n\<lparr>next_ptr := Null\<rparr>))"
        "same_frame c2 c3" by blast
    have a3: "get_node c3 a = Some (n\<lparr>next_ptr := Null\<rparr>)" using c3(2) by simp
    from set_prev_view [OF a3, of Null] obtain c4 where
      c4: "set_prev a Null c3 = Some c4"
        "get_node c4 = (get_node c3)(a := Some (n\<lparr>next_ptr := Null, prev_ptr := Null\<rparr>))"
        "same_frame c3 c4" by auto
    have "remove_node a c = Some c4"
      using a c1(1) a1 False c2(1) c3(1) c4(1) by (simp add: remove_node_def)
    moreover have "same_frame c c4"
      using c1(3) c2(3) c3(3) c4(3) by (blast intro: same_frame_trans)
    moreover have "get_node c4 =
        (get_node c)(prev_ptr n := Some (m\<lparr>next_ptr := next_ptr n\<rparr>),
                     next_ptr n := Some (k\<lparr>prev_ptr := prev_ptr n\<rparr>),
                     a := Some (n\<lparr>next_ptr := Null, prev_ptr := Null\<rparr>))"
      using c4(2) c3(2) c2(2) c1(2) by simp
    ultimately show ?thesis using False by simp
  qed
qed

text \<open>Linking a node in behind a position.\<close>

lemma insert_node_after_view:
  assumes a: "get_node c a = Some n"
    and p: "get_node c pos = Some m"
    and s: "next_ptr m = Null \<or> get_node c (next_ptr m) = Some k"
    and d: "pos \<noteq> a" "next_ptr m \<noteq> a" "next_ptr m \<noteq> pos"
  shows "\<exists>c'. insert_node_after a pos c = Some c' \<and> same_frame c c'
           \<and> get_node c' =
               (if next_ptr m = Null
                then (get_node c)(a := Some (n\<lparr>next_ptr := next_ptr m, prev_ptr := pos\<rparr>),
                                  pos := Some (m\<lparr>next_ptr := a\<rparr>))
                else (get_node c)(a := Some (n\<lparr>next_ptr := next_ptr m, prev_ptr := pos\<rparr>),
                                  pos := Some (m\<lparr>next_ptr := a\<rparr>),
                                  next_ptr m := Some (k\<lparr>prev_ptr := a\<rparr>)))"
proof -
  from set_next_view [OF a, of "next_ptr m"] obtain c1 where
    c1: "set_next a (next_ptr m) c = Some c1"
      "get_node c1 = (get_node c)(a := Some (n\<lparr>next_ptr := next_ptr m\<rparr>))"
      "same_frame c c1" by blast
  have a1: "get_node c1 a = Some (n\<lparr>next_ptr := next_ptr m\<rparr>)" using c1(2) by simp
  from set_prev_view [OF a1, of pos] obtain c2 where
    c2: "set_prev a pos c1 = Some c2"
      "get_node c2 = (get_node c1)(a := Some (n\<lparr>next_ptr := next_ptr m, prev_ptr := pos\<rparr>))"
      "same_frame c1 c2" by auto
  have p2: "get_node c2 pos = Some m" using c2(2) c1(2) p d(1) by simp
  from set_next_view [OF p2, of a] obtain c3 where
    c3: "set_next pos a c2 = Some c3"
      "get_node c3 = (get_node c2)(pos := Some (m\<lparr>next_ptr := a\<rparr>))"
      "same_frame c2 c3" by blast
  have a3: "get_node c3 a = Some (n\<lparr>next_ptr := next_ptr m, prev_ptr := pos\<rparr>)"
    using c3(2) c2(2) d(1) by simp
  show ?thesis
  proof (cases "next_ptr m = Null")
    case True
    have "insert_node_after a pos c = Some c3"
      using p c1(1) c2(1) c3(1) a3 True by (simp add: insert_node_after_def)
    moreover have "same_frame c c3"
      using c1(3) c2(3) c3(3) by (blast intro: same_frame_trans)
    moreover have "get_node c3 =
        (get_node c)(a := Some (n\<lparr>next_ptr := next_ptr m, prev_ptr := pos\<rparr>),
                     pos := Some (m\<lparr>next_ptr := a\<rparr>))"
      using c3(2) c2(2) c1(2) by simp
    ultimately show ?thesis using True by simp
  next
    case False
    with s have k: "get_node c (next_ptr m) = Some k" by simp
    have k3: "get_node c3 (next_ptr m) = Some k"
      using c3(2) c2(2) c1(2) k d(2,3) by simp
    from set_prev_view [OF k3, of a] obtain c4 where
      c4: "set_prev (next_ptr m) a c3 = Some c4"
        "get_node c4 = (get_node c3)(next_ptr m := Some (k\<lparr>prev_ptr := a\<rparr>))"
        "same_frame c3 c4" by blast
    have "insert_node_after a pos c = Some c4"
      using p c1(1) c2(1) c3(1) a3 False c4(1) by (simp add: insert_node_after_def)
    moreover have "same_frame c c4"
      using c1(3) c2(3) c3(3) c4(3) by (blast intro: same_frame_trans)
    moreover have "get_node c4 =
        (get_node c)(a := Some (n\<lparr>next_ptr := next_ptr m, prev_ptr := pos\<rparr>),
                     pos := Some (m\<lparr>next_ptr := a\<rparr>),
                     next_ptr m := Some (k\<lparr>prev_ptr := a\<rparr>))"
      using c4(2) c3(2) c2(2) c1(2) by simp
    ultimately show ?thesis using False by simp
  qed
qed

section \<open>Doubly-linked lists in a view\<close>

lemma content_simps [simp]:
  "content (n\<lparr>next_ptr := q\<rparr>) = content n"
  "content (n\<lparr>prev_ptr := q\<rparr>) = content n"
  by (simp_all add: content_def)

lemma links_simps [simp]:
  "links (n\<lparr>hit_count := h\<rparr>) = links n"
  by (simp add: links_def)

lemma dl_defined: "dl V p ps \<Longrightarrow> \<exists>n. V p = Some n"
  by (cases ps) (auto split: option.splits)

lemma dl_all_defined: "dl V p ps \<Longrightarrow> q \<in> set ps \<Longrightarrow> \<exists>n. V q = Some n"
  by (induction ps arbitrary: p) (auto split: option.splits)

lemma dl_cong:
  assumes "\<And>x. x \<in> set (p # ps) \<Longrightarrow> map_option links (V' x) = map_option links (V x)"
  shows "dl V' p ps = dl V p ps"
  using assms
proof (induction ps arbitrary: p)
  case Nil
  from Nil [of p] show ?case
    by (cases "V p"; cases "V' p") (auto simp: links_def)
next
  case (Cons q qs)
  have ih: "dl V' q qs = dl V q qs" using Cons.prems by (intro Cons.IH) simp
  from Cons.prems [of p] Cons.prems [of q] ih show ?case
    by (cases "V p"; cases "V' p"; cases "V q"; cases "V' q") (auto simp: links_def)
qed

text \<open>A frame rule that lets the head's \<open>prev\<close> link change.\<close>

lemma dl_cong_head:
  assumes "map_option next_ptr (V' p) = map_option next_ptr (V p)"
    and "\<And>x. x \<in> set ps \<Longrightarrow> map_option links (V' x) = map_option links (V x)"
  shows "dl V' p ps = dl V p ps"
proof (cases ps)
  case Nil
  with assms(1) show ?thesis by (cases "V p"; cases "V' p") auto
next
  case (Cons q qs)
  have t: "dl V' q qs = dl V q qs"
    using assms(2) Cons by (intro dl_cong) simp
  from assms(1) assms(2) [of q] t Cons show ?thesis
    by (cases "V p"; cases "V' p"; cases "V q"; cases "V' q") (auto simp: links_def)
qed

text \<open>What a list says about one of its members and its two neighbours.\<close>

lemma dl_at:
  assumes "dl V p0 (xs @ a # ys)"
  shows "\<exists>n m. V a = Some n \<and> prev_ptr n = last (p0 # xs) \<and> V (last (p0 # xs)) = Some m
           \<and> next_ptr m = a
           \<and> next_ptr n = (case ys of [] \<Rightarrow> Null | y # _ \<Rightarrow> y)
           \<and> (case ys of [] \<Rightarrow> True | y # _ \<Rightarrow> (case V y of None \<Rightarrow> False | Some k \<Rightarrow> prev_ptr k = a))"
  using assms
proof (induction xs arbitrary: p0)
  case Nil
  then show ?case by (cases ys) (auto split: option.splits)
next
  case (Cons x xs)
  from Cons.prems have "dl V x (xs @ a # ys)" by (auto split: option.splits)
  from Cons.IH [OF this] show ?case by simp
qed

lemma dl_unlink:
  assumes "dl V p0 (xs @ a # ys)"
    and "distinct (p0 # xs @ a # ys)"
    and "V a = Some n"
    and "V (prev_ptr n) = Some m"
    and "next_ptr n = Null \<or> V (next_ptr n) = Some k"
    and "V' = (if next_ptr n = Null
               then V(prev_ptr n := Some (m\<lparr>next_ptr := next_ptr n\<rparr>),
                      a := Some (n\<lparr>next_ptr := Null, prev_ptr := Null\<rparr>))
               else V(prev_ptr n := Some (m\<lparr>next_ptr := next_ptr n\<rparr>),
                      next_ptr n := Some (k\<lparr>prev_ptr := prev_ptr n\<rparr>),
                      a := Some (n\<lparr>next_ptr := Null, prev_ptr := Null\<rparr>)))"
    and "V Null = None"
  shows "dl V' p0 (xs @ ys)"
  using assms(1,2)
proof (induction xs arbitrary: p0)
  case Nil
  from dl_at [of V p0 "[]" a ys] Nil(1) assms(3)
  have pn: "prev_ptr n = p0" and nn: "next_ptr n = (case ys of [] \<Rightarrow> Null | y # _ \<Rightarrow> y)"
    and yk: "(case ys of [] \<Rightarrow> True | y # _ \<Rightarrow> (case V y of None \<Rightarrow> False | Some k \<Rightarrow> prev_ptr k = a))"
    by auto
  show ?case
  proof (cases ys)
    case Nil
    with nn have "next_ptr n = Null" by simp
    with assms(6) pn assms(4) Nil Nil.prems(2) show ?thesis by auto
  next
    case (Cons y ys')
    with nn have ny: "next_ptr n = y" by simp
    from Nil.prems(1) Cons have dy: "dl V y ys'" and vy: "V y \<noteq> None"
      by (auto split: option.splits)
    from vy have yN: "y \<noteq> Null" using assms(7) by auto
    have k: "V y = Some k" using assms(5) ny yN by simp
    have V': "V' = V(p0 := Some (m\<lparr>next_ptr := y\<rparr>), y := Some (k\<lparr>prev_ptr := p0\<rparr>),
                     a := Some (n\<lparr>next_ptr := Null, prev_ptr := Null\<rparr>))"
      using assms(6) ny yN pn by simp
    have d: "y \<noteq> a" "y \<noteq> p0" "p0 \<noteq> a" "a \<notin> set ys'" "p0 \<notin> set ys'" "y \<notin> set ys'"
      using Nil.prems(2) Cons by auto
    have "dl V' y ys' = dl V y ys'"
    proof (rule dl_cong_head)
      show "map_option next_ptr (V' y) = map_option next_ptr (V y)"
        using V' d k by simp
    next
      fix x assume "x \<in> set ys'"
      then have "x \<noteq> a" "x \<noteq> p0" "x \<noteq> y" using d by auto
      then show "map_option links (V' x) = map_option links (V x)" using V' by simp
    qed
    with dy have t: "dl V' y ys'" by simp
    have vp: "V' p0 = Some (m\<lparr>next_ptr := y\<rparr>)" using V' d by simp
    have vy': "V' y = Some (k\<lparr>prev_ptr := p0\<rparr>)" using V' d by simp
    show ?thesis using t vp vy' Cons by simp
  qed
next
  case (Cons x xs)
  from Cons.prems(1) have dx: "dl V x (xs @ a # ys)"
    and px: "\<exists>n0. V p0 = Some n0 \<and> next_ptr n0 = x"
    and xx: "\<exists>m0. V x = Some m0 \<and> prev_ptr m0 = p0"
    by (auto split: option.splits)
  from Cons.prems(2) have dd: "distinct (x # xs @ a # ys)" by simp
  from Cons.IH [OF dx dd] have ih: "dl V' x (xs @ ys)" .
  from dl_at [OF Cons.prems(1)] assms(3)
  have pn: "prev_ptr n = last (x # xs)"
    and nn: "next_ptr n = (case ys of [] \<Rightarrow> Null | y # _ \<Rightarrow> y)" by auto
  have lin: "last (x # xs) \<in> set (x # xs)" by (rule last_in_set) simp
  have p0a: "p0 \<noteq> a" using Cons.prems(2) by auto
  have p0p: "p0 \<noteq> prev_ptr n"
  proof
    assume "p0 = prev_ptr n"
    with pn lin have "p0 \<in> set (x # xs)" by simp
    with Cons.prems(2) show False by auto
  qed
  have p0n: "next_ptr n \<noteq> Null \<Longrightarrow> p0 \<noteq> next_ptr n"
    using nn Cons.prems(2) by (cases ys) auto
  have vp0: "V' p0 = V p0" using assms(6) p0a p0p p0n by auto
  have xa: "x \<noteq> a" using Cons.prems(2) by auto
  have xn: "next_ptr n \<noteq> Null \<Longrightarrow> x \<noteq> next_ptr n"
    using nn Cons.prems(2) by (cases ys) auto
  have "\<exists>m1. V' x = Some m1 \<and> prev_ptr m1 = p0"
  proof (cases "x = prev_ptr n")
    case True
    with xx assms(4) have "prev_ptr m = p0" by simp
    with True xa xn assms(6) show ?thesis by auto
  next
    case False
    with xa xn assms(6) have "V' x = V x" by auto
    with xx show ?thesis by simp
  qed
  with px vp0 ih show ?case by (cases "xs @ ys") (auto split: option.splits)
qed

lemma dl_push:
  assumes "dl V p0 ps"
    and "a \<notin> set (p0 # ps)"
    and "V a = Some n"
    and "V p0 = Some m"
    and "next_ptr m = Null \<or> V (next_ptr m) = Some k"
    and "V' = (if next_ptr m = Null
               then V(a := Some (n\<lparr>next_ptr := next_ptr m, prev_ptr := p0\<rparr>),
                      p0 := Some (m\<lparr>next_ptr := a\<rparr>))
               else V(a := Some (n\<lparr>next_ptr := next_ptr m, prev_ptr := p0\<rparr>),
                      p0 := Some (m\<lparr>next_ptr := a\<rparr>),
                      next_ptr m := Some (k\<lparr>prev_ptr := a\<rparr>)))"
    and "distinct (p0 # ps)"
    and "V Null = None"
  shows "dl V' p0 (a # ps)"
proof (cases ps)
  case Nil
  with assms(1,4) have "next_ptr m = Null" by simp
  with assms(2,6) Nil show ?thesis by auto
next
  case (Cons y ys)
  with assms(1,4) have ny: "next_ptr m = y" and dy: "dl V y ys"
    and vy: "\<exists>k0. V y = Some k0 \<and> prev_ptr k0 = p0"
    by (auto split: option.splits)
  have yN: "y \<noteq> Null" using vy assms(8) by auto
  have k: "V y = Some k" using assms(5) ny yN by simp
  have d: "y \<noteq> a" "y \<noteq> p0" "p0 \<noteq> a" "a \<notin> set ys" "p0 \<notin> set ys" "y \<notin> set ys"
    using assms(2,7) Cons by auto
  have V': "V' = V(a := Some (n\<lparr>next_ptr := y, prev_ptr := p0\<rparr>),
                   p0 := Some (m\<lparr>next_ptr := a\<rparr>), y := Some (k\<lparr>prev_ptr := a\<rparr>))"
    using assms(6) ny yN by simp
  have "dl V' y ys = dl V y ys"
  proof (rule dl_cong_head)
    show "map_option next_ptr (V' y) = map_option next_ptr (V y)" using V' k by simp
  next
    fix x assume "x \<in> set ys"
    then have "x \<noteq> a" "x \<noteq> p0" "x \<noteq> y" using d by auto
    then show "map_option links (V' x) = map_option links (V x)" using V' by simp
  qed
  with dy have t: "dl V' y ys" by simp
  have va: "V' a = Some (n\<lparr>next_ptr := y, prev_ptr := p0\<rparr>)" using V' d by simp
  have vp: "V' p0 = Some (m\<lparr>next_ptr := a\<rparr>)" using V' d by simp
  have vy': "V' y = Some (k\<lparr>prev_ptr := a\<rparr>)" using V' d by simp
  show ?thesis using t va vp vy' Cons by simp
qed

section \<open>Looking a key up\<close>

lemma dl_next: "dl V p ps \<Longrightarrow> \<exists>n. V p = Some n \<and> next_ptr n = hd_ptr ps"
  by (cases ps) (auto simp: hd_ptr_def split: option.splits)

lemma get_node_collisions [simp]: "get_node (c\<lparr>collisions := v\<rparr>) = get_node c"
  by (rule ext) (simp add: get_node_def split: ptr.splits)

lemma get_node_hits [simp]: "get_node (c\<lparr>hits := v\<rparr>) = get_node c"
  by (rule ext) (simp add: get_node_def split: ptr.splits)

lemma unlink_frame:
  assumes "V' = (if next_ptr n = Null
               then V(prev_ptr n := Some (m\<lparr>next_ptr := next_ptr n\<rparr>),
                      a := Some (n\<lparr>next_ptr := Null, prev_ptr := Null\<rparr>))
               else V(prev_ptr n := Some (m\<lparr>next_ptr := next_ptr n\<rparr>),
                      next_ptr n := Some (k\<lparr>prev_ptr := prev_ptr n\<rparr>),
                      a := Some (n\<lparr>next_ptr := Null, prev_ptr := Null\<rparr>)))"
    and "V a = Some n" and "V (prev_ptr n) = Some m"
    and "next_ptr n = Null \<or> V (next_ptr n) = Some k"
  shows "map_option content (V' x) = map_option content (V x)"
    and "x \<noteq> a \<Longrightarrow> x \<noteq> prev_ptr n \<Longrightarrow> x \<noteq> next_ptr n \<Longrightarrow> V' x = V x"
  using assms by (auto simp: content_def)

lemma push_frame:
  assumes "V' = (if next_ptr m = Null
               then V(a := Some (n\<lparr>next_ptr := next_ptr m, prev_ptr := p0\<rparr>),
                      p0 := Some (m\<lparr>next_ptr := a\<rparr>))
               else V(a := Some (n\<lparr>next_ptr := next_ptr m, prev_ptr := p0\<rparr>),
                      p0 := Some (m\<lparr>next_ptr := a\<rparr>),
                      next_ptr m := Some (k\<lparr>prev_ptr := a\<rparr>)))"
    and "V a = Some n" and "V p0 = Some m"
    and "next_ptr m = Null \<or> V (next_ptr m) = Some k"
  shows "map_option content (V' x) = map_option content (V x)"
    and "x \<noteq> a \<Longrightarrow> x \<noteq> p0 \<Longrightarrow> x \<noteq> next_ptr m \<Longrightarrow> V' x = V x"
  using assms by (auto simp: content_def)

text \<open>The walk passes the entries that do not match, counting a collision for each.\<close>

lemma lookup_walk_skip:
  assumes "dl (get_node c) p0 (map Node xs @ rest)"
    and "\<forall>x\<in>set xs. \<not> matches K key c x"
  shows "lookup_walk K key b (hd_ptr (map Node xs @ rest)) c
         = lookup_walk K key b (hd_ptr rest) (c\<lparr>collisions := collisions c + of_nat (length xs)\<rparr>)"
  using assms
proof (induction xs arbitrary: p0 c)
  case Nil
  then show ?case by simp
next
  case (Cons x xs)
  from Cons.prems(1) have "dl (get_node c) p0 (Node x # (map Node xs @ rest))" by simp
  then obtain n where n0: "get_node c (Node x) = Some n"
    and d: "dl (get_node c) (Node x) (map Node xs @ rest)"
    by (auto split: option.splits)
  from n0 have n: "arena c x = Some n" by (simp add: get_node_def)
  from dl_next [OF d] n have nx: "next_ptr n = hd_ptr (map Node xs @ rest)"
    by (simp add: get_node_def)
  from Cons.prems(2) n have nm: "\<not> compare_graph_keys K key (key_bytes n)"
    by (simp add: matches_def)
  let ?c = "c\<lparr>collisions := collisions c + 1\<rparr>"
  have d': "dl (get_node ?c) (Node x) (map Node xs @ rest)" using d by simp
  have m': "\<forall>x\<in>set xs. \<not> matches K key ?c x" using Cons.prems(2) by (simp add: matches_def)
  have "lookup_walk K key b (hd_ptr (map Node (x # xs) @ rest)) c
        = lookup_walk K key b (hd_ptr (map Node xs @ rest)) ?c"
    by (subst lookup_walk.simps) (simp add: hd_ptr_def [of "_ # _"] get_node_def n nm nx)
  also have "\<dots> = lookup_walk K key b (hd_ptr rest)
                     (?c\<lparr>collisions := collisions ?c + of_nat (length xs)\<rparr>)"
    by (rule Cons.IH [OF d' m'])
  finally show ?case by (simp add: ac_simps)
qed

lemma lookup_miss:
  assumes "bucket_chain c b as"
    and "b = unat (hash_graph_key K key) mod length (buckets c)"
    and "\<forall>x\<in>set as. \<not> matches K key c x"
  shows "lookup K key c
         = Some (None, c\<lparr>misses := misses c + 1,
                          collisions := collisions c + of_nat (length as)\<rparr>)"
proof -
  from assms(1) have b: "b < length (buckets c)"
    and d: "dl (get_node c) (Bucket b) (map Node as @ [])"
    by (simp_all add: bucket_chain_def)
  from dl_next [OF d] b have h: "next_ptr (buckets c ! b) = hd_ptr (map Node as @ [])"
    by (simp add: get_node_def)
  have "lookup K key c = lookup_walk K key b (hd_ptr (map Node as @ [])) c"
    using b assms(2) h by (auto simp add: lookup_def Let_def)
  also have "\<dots> = lookup_walk K key b (hd_ptr [])
                     (c\<lparr>collisions := collisions c + of_nat (length as)\<rparr>)"
    by (rule lookup_walk_skip [OF d assms(3)])
  also have "\<dots> = Some (None, c\<lparr>misses := misses c + 1,
                          collisions := collisions c + of_nat (length as)\<rparr>)"
    by (subst lookup_walk.simps) (simp add: hd_ptr_def)
  finally show ?thesis .
qed

lemma hd_ptr_cases: "hd_ptr ps = Null \<and> ps = [] \<or> (\<exists>qs. ps = hd_ptr ps # qs)"
  by (cases ps) (simp_all add: hd_ptr_def)

lemma same_frame_length: "same_frame c c' \<Longrightarrow> length (buckets c') = length (buckets c)"
  by (simp add: same_frame_def)

lemma get_node_Bucket: "j < length (buckets c) \<Longrightarrow> get_node c (Bucket j) = Some (buckets c ! j)"
  by (simp add: get_node_def)

lemma get_node_Node: "get_node c (Node x) = arena c x"
  by (simp add: get_node_def)

text \<open>Unlinking a member of a bucket's list and putting it at the front.\<close>

lemma move_to_front:
  assumes d: "dl (get_node c) (Bucket b) (map Node xs @ Node a # map Node ys)"
    and dist: "distinct (xs @ a # ys)"
    and n: "get_node c (Node a) = Some n"
  shows "\<exists>c2 c3. remove_node (Node a) c = Some c2
           \<and> insert_node_after (Node a) (Bucket b) c2 = Some c3
           \<and> same_frame c c3
           \<and> dl (get_node c3) (Bucket b) (Node a # map Node xs @ map Node ys)
           \<and> (\<forall>x. map_option content (get_node c3 x) = map_option content (get_node c x))
           \<and> (\<forall>x. x \<notin> set (Bucket b # map Node xs @ Node a # map Node ys)
                  \<longrightarrow> get_node c3 x = get_node c x)"
proof -
  let ?V = "get_node c"
  let ?L = "map Node xs @ Node a # map Node ys"
  have VN: "?V Null = None" by (rule get_node_Null)
  have dL: "distinct (Bucket b # ?L)"
    using dist by (auto simp: distinct_map inj_on_def)
  from dl_at [OF d] n obtain m where
    pn: "prev_ptr n = last (Bucket b # map Node xs)"
    and m: "?V (prev_ptr n) = Some m"
    and nn: "next_ptr n = hd_ptr (map Node ys)"
    and yk: "(case map Node ys of [] \<Rightarrow> True
              | y # _ \<Rightarrow> (case ?V y of None \<Rightarrow> False | Some k \<Rightarrow> prev_ptr k = Node a))"
    by (auto simp: hd_ptr_def)
  have pin: "prev_ptr n \<in> set (Bucket b # map Node xs)"
    unfolding pn by (rule last_in_set) simp
  have sin: "next_ptr n = Null \<or> next_ptr n \<in> set (map Node ys)"
    using hd_ptr_cases [of "map Node ys"] nn by (metis list.set_intros(1))
  obtain k where k: "next_ptr n = Null \<or> ?V (next_ptr n) = Some k"
    using yk nn by (cases "map Node ys") (auto simp: hd_ptr_def split: option.splits)
  have d1: "prev_ptr n \<noteq> Node a" using pin dL by auto
  have d2: "next_ptr n \<noteq> Node a" using sin dL by auto
  have d3: "prev_ptr n \<noteq> next_ptr n"
    using pin sin dL m VN by (cases "next_ptr n = Null") auto
  from remove_node_view [OF n m k d1 d2 d3] obtain c2 where
    r: "remove_node (Node a) c = Some c2" and f2: "same_frame c c2"
    and V2: "get_node c2 =
               (if next_ptr n = Null
                then ?V(prev_ptr n := Some (m\<lparr>next_ptr := next_ptr n\<rparr>),
                        Node a := Some (n\<lparr>next_ptr := Null, prev_ptr := Null\<rparr>))
                else ?V(prev_ptr n := Some (m\<lparr>next_ptr := next_ptr n\<rparr>),
                        next_ptr n := Some (k\<lparr>prev_ptr := prev_ptr n\<rparr>),
                        Node a := Some (n\<lparr>next_ptr := Null, prev_ptr := Null\<rparr>)))"
    by blast
  let ?V2 = "get_node c2"
  let ?L2 = "map Node xs @ map Node ys"
  have dl2: "dl ?V2 (Bucket b) ?L2"
    by (rule dl_unlink [OF d dL n m k V2 VN])
  have c2a: "\<And>x. map_option content (?V2 x) = map_option content (?V x)"
    by (rule unlink_frame(1) [OF V2 n m k])
  have c2b: "\<And>x. x \<notin> set (Bucket b # ?L) \<Longrightarrow> ?V2 x = ?V x"
  proof -
    fix x assume x: "x \<notin> set (Bucket b # ?L)"
    have "x \<noteq> Node a" "x \<noteq> prev_ptr n" using x pin by auto
    moreover have "x \<noteq> next_ptr n \<or> next_ptr n = Null" using x sin by auto
    ultimately show "?V2 x = ?V x"
      using V2 by (cases "next_ptr n = Null") auto
  qed
  have a2: "?V2 (Node a) = Some (n\<lparr>next_ptr := Null, prev_ptr := Null\<rparr>)"
    using V2 by simp
  from dl_next [OF dl2] obtain m2 where
    m2: "?V2 (Bucket b) = Some m2" and nm2: "next_ptr m2 = hd_ptr ?L2" by blast
  have VN2: "?V2 Null = None" by (rule get_node_Null)
  have sin2: "next_ptr m2 = Null \<or> next_ptr m2 \<in> set ?L2"
    using hd_ptr_cases [of ?L2] nm2 by (metis list.set_intros(1))
  obtain k2 where k2: "next_ptr m2 = Null \<or> ?V2 (next_ptr m2) = Some k2"
    using sin2 dl_all_defined [OF dl2] by blast
  have dL2: "distinct (Bucket b # ?L2)" using dL by auto
  have anin: "Node a \<notin> set (Bucket b # ?L2)" using dL by auto
  have e1: "Bucket b \<noteq> Node a" by simp
  have e2: "next_ptr m2 \<noteq> Node a" using sin2 anin by auto
  have e3: "next_ptr m2 \<noteq> Bucket b" using sin2 by auto
  from insert_node_after_view [OF a2 m2 k2 e1 e2 e3] obtain c3 where
    i: "insert_node_after (Node a) (Bucket b) c2 = Some c3" and f3: "same_frame c2 c3"
    and V3: "get_node c3 =
               (if next_ptr m2 = Null
                then ?V2(Node a := Some (n\<lparr>next_ptr := Null, prev_ptr := Null\<rparr>
                                          \<lparr>next_ptr := next_ptr m2, prev_ptr := Bucket b\<rparr>),
                         Bucket b := Some (m2\<lparr>next_ptr := Node a\<rparr>))
                else ?V2(Node a := Some (n\<lparr>next_ptr := Null, prev_ptr := Null\<rparr>
                                          \<lparr>next_ptr := next_ptr m2, prev_ptr := Bucket b\<rparr>),
                         Bucket b := Some (m2\<lparr>next_ptr := Node a\<rparr>),
                         next_ptr m2 := Some (k2\<lparr>prev_ptr := Node a\<rparr>)))"
    by blast
  let ?V3 = "get_node c3"
  have dl3: "dl ?V3 (Bucket b) (Node a # ?L2)"
    by (rule dl_push [OF dl2 anin a2 m2 k2 V3 dL2 VN2])
  have c3a: "\<And>x. map_option content (?V3 x) = map_option content (?V2 x)"
    by (rule push_frame(1) [OF V3 a2 m2 k2])
  have c3b: "\<And>x. x \<notin> set (Bucket b # ?L) \<Longrightarrow> ?V3 x = ?V2 x"
  proof -
    fix x assume x: "x \<notin> set (Bucket b # ?L)"
    have "x \<noteq> Node a" "x \<noteq> Bucket b" using x by auto
    moreover have "x \<noteq> next_ptr m2 \<or> next_ptr m2 = Null" using x sin2 by auto
    ultimately show "?V3 x = ?V2 x"
      using V3 by (cases "next_ptr m2 = Null") auto
  qed
  have "same_frame c c3" using f2 f3 by (rule same_frame_trans)
  moreover have "\<forall>x. map_option content (?V3 x) = map_option content (?V x)"
    using c3a c2a by simp
  moreover have "\<forall>x. x \<notin> set (Bucket b # ?L) \<longrightarrow> ?V3 x = ?V x"
    using c3b c2b by simp
  ultimately show ?thesis using r i dl3 by blast
qed

lemma lookup_hit:
  assumes ch: "bucket_chain c b (xs @ a # ys)"
    and b: "b = unat (hash_graph_key K key) mod length (buckets c)"
    and nm: "\<forall>x\<in>set xs. \<not> matches K key c x"
    and n: "arena c a = Some n"
    and m: "compare_graph_keys K key (key_bytes n)"
  shows "\<exists>c'. lookup K key c
              = Some (Some (read_poly K
                              (take (unat (node_size n)
                                       - (length (key_bytes n) + sizeof_cache_node K))
                                 (poly_bytes n)),
                            graph_id n), c')
           \<and> bucket_chain c' b (a # xs @ ys)
           \<and> map_option content (arena c' a)
               = Some (content (n\<lparr>hit_count := hit_count n + 1\<rparr>))
           \<and> (\<forall>x. x \<noteq> a \<longrightarrow> map_option content (arena c' x) = map_option content (arena c x))
           \<and> (\<forall>x. x \<notin> set (xs @ a # ys) \<longrightarrow> arena c' x = arena c x)
           \<and> length (buckets c') = length (buckets c)
           \<and> (\<forall>j. j < length (buckets c) \<longrightarrow> j \<noteq> b \<longrightarrow> buckets c' ! j = buckets c ! j)
           \<and> content (buckets c' ! b) = content (buckets c ! b)
           \<and> c' = c\<lparr>hits := hits c + 1,
                     collisions := collisions c + of_nat (length xs),
                     buckets := buckets c', arena := arena c'\<rparr>"
proof -
  let ?L = "map Node xs @ Node a # map Node ys"
  let ?c0 = "c\<lparr>collisions := collisions c + of_nat (length xs)\<rparr>"
  let ?n1 = "n\<lparr>hit_count := hit_count n + 1\<rparr>"
  from ch have bl: "b < length (buckets c)" and dist: "distinct (xs @ a # ys)"
    and d: "dl (get_node c) (Bucket b) ?L"
    by (simp_all add: bucket_chain_def)
  from dl_next [OF d] bl have h: "next_ptr (buckets c ! b) = hd_ptr ?L"
    by (simp add: get_node_def)
  have ne: "buckets c \<noteq> []" using bl by auto
  have "lookup K key c = lookup_walk K key b (hd_ptr ?L) c"
    using b h ne by (simp add: lookup_def Let_def)
  also have "\<dots> = lookup_walk K key b (hd_ptr (Node a # map Node ys)) ?c0"
    by (rule lookup_walk_skip [OF d nm])
  finally have l0: "lookup K key c = lookup_walk K key b (Node a) ?c0"
    by (simp add: hd_ptr_def)
  have n0: "get_node ?c0 (Node a) = Some n" using n by (simp add: get_node_def)
  from put_node_view [OF n0, of ?n1] obtain c1 where
    p: "put_node (Node a) ?n1 ?c0 = Some c1"
    and V1: "get_node c1 = (get_node c)(Node a := Some ?n1)"
    and f1: "same_frame ?c0 c1" by auto
  have d1: "dl (get_node c1) (Bucket b) ?L"
  proof -
    have "dl (get_node c1) (Bucket b) ?L = dl (get_node c) (Bucket b) ?L"
    proof (rule dl_cong)
      fix x
      show "map_option links (get_node c1 x) = map_option links (get_node c x)"
        using V1 n by (simp add: get_node_def)
    qed
    with d show ?thesis by simp
  qed
  have n1: "get_node c1 (Node a) = Some ?n1" using V1 by simp
  from move_to_front [OF d1 dist n1] obtain c2 c3 where
    r: "remove_node (Node a) c1 = Some c2"
    and i: "insert_node_after (Node a) (Bucket b) c2 = Some c3"
    and f3: "same_frame c1 c3"
    and d3: "dl (get_node c3) (Bucket b) (Node a # map Node xs @ map Node ys)"
    and k3: "\<And>x. map_option content (get_node c3 x) = map_option content (get_node c1 x)"
    and o3: "\<And>x. x \<notin> set (Bucket b # ?L) \<Longrightarrow> get_node c3 x = get_node c1 x"
    by blast
  let ?c' = "c3\<lparr>hits := hits c3 + 1\<rparr>"
  have res: "lookup K key c
              = Some (Some (read_poly K
                              (take (unat (node_size n)
                                       - (length (key_bytes n) + sizeof_cache_node K))
                                 (poly_bytes n)),
                            graph_id n), ?c')"
    unfolding l0 using n0 by (subst lookup_walk.simps) (simp add: m p r i)
  have f03: "same_frame ?c0 c3" using f1 f3 by (rule same_frame_trans)
  then have len: "length (buckets c3) = length (buckets c)"
    by (simp add: same_frame_def)
  have g1: "bucket_chain ?c' b (a # xs @ ys)"
    using d3 dist bl len by (auto simp: bucket_chain_def)
  have g2: "map_option content (arena ?c' a) = Some (content ?n1)"
    using k3 [of "Node a"] n1 by (simp add: get_node_Node)
  have g3: "\<forall>x. x \<noteq> a \<longrightarrow> map_option content (arena ?c' x) = map_option content (arena c x)"
    using k3 [of "Node _"] V1 by (simp add: get_node_Node)
  have g4: "\<forall>x. x \<notin> set (xs @ a # ys) \<longrightarrow> arena ?c' x = arena c x"
  proof (intro allI impI)
    fix x assume "x \<notin> set (xs @ a # ys)"
    then have "Node x \<notin> set (Bucket b # ?L)" and "x \<noteq> a" by auto
    with o3 [of "Node x"] V1 show "arena ?c' x = arena c x" by (simp add: get_node_Node)
  qed
  have g5: "\<forall>j. j < length (buckets c) \<longrightarrow> j \<noteq> b \<longrightarrow> buckets ?c' ! j = buckets c ! j"
  proof (intro allI impI)
    fix j assume j: "j < length (buckets c)" "j \<noteq> b"
    then have "Bucket j \<notin> set (Bucket b # ?L)" by auto
    from o3 [OF this] V1 have "get_node c3 (Bucket j) = get_node c (Bucket j)" by simp
    with j len show "buckets ?c' ! j = buckets c ! j" by (simp add: get_node_def)
  qed
  have g6: "content (buckets ?c' ! b) = content (buckets c ! b)"
    using k3 [of "Bucket b"] V1 bl len by (simp add: get_node_def)
  have g7: "?c' = c\<lparr>hits := hits c + 1,
                     collisions := collisions c + of_nat (length xs),
                     buckets := buckets ?c', arena := arena ?c'\<rparr>"
  proof -
    from f03 have "c3 = ?c0\<lparr>buckets := buckets c3, arena := arena c3\<rparr>"
      by (simp add: same_frame_def)
    then have "?c' = ?c0\<lparr>buckets := buckets c3, arena := arena c3\<rparr>\<lparr>hits := hits c + 1\<rparr>"
      by (metis (no_types, lifting) cache.select_convs(1) cache.surjective
          cache.update_convs(1,3,5,6))
    then show ?thesis by simp
  qed
  show ?thesis
    using res g1 g2 g3 g4 g5 g6 g7 len by (intro exI [of _ ?c']) simp
qed

text \<open>
  C2. \<^verbatim>\<open>lookup\<close> hashes the key to the bucket \<open>b = hash(K) mod nbuckets\<close> and walks that
  bucket's list \<open>as\<close>, comparing each entry's stored key with \<open>K\<close> (by
  \<^verbatim>\<open>compare_graph_keys\<close>).
  \<^item> When the first entry that matches is \<open>a\<close>, with the entries \<open>xs\<close> before it and \<open>ys\<close>
    after it, the call returns a hit with the polynomial deserialized from the entry's
    bytes and the entry's graph id. In the cache it leaves behind, the list of the bucket
    is \<open>a # xs @ ys\<close> (the entry has moved to the front), the entry's hit count is one
    more than before and the rest of what it holds is as before, every other entry holds
    what it held (only links changed), the entries outside this bucket and the other
    buckets are untouched, \<^verbatim>\<open>hits\<close> is one more and \<^verbatim>\<open>collisions\<close> has grown by the
    number of entries passed.
  \<^item> When no entry of the bucket matches, the call returns a miss, and the cache is as
    before but for the counters: \<^verbatim>\<open>misses\<close> is one more, and \<^verbatim>\<open>collisions\<close> has grown
    by the length of the list.
\<close>

theorem lookup_moves_to_front:
  assumes "bucket_chain c b as"
    and "b = unat (hash_graph_key K key) mod length (buckets c)"
  shows "(as = xs @ a # ys \<and> (\<forall>x\<in>set xs. \<not> matches K key c x) \<and> arena c a = Some n
            \<and> compare_graph_keys K key (key_bytes n)
          \<longrightarrow> (\<exists>c'. lookup K key c
                       = Some (Some (read_poly K
                                       (take (unat (node_size n)
                                                - (length (key_bytes n) + sizeof_cache_node K))
                                          (poly_bytes n)),
                                     graph_id n), c')
                \<and> bucket_chain c' b (a # xs @ ys)
                \<and> map_option content (arena c' a)
                    = Some (content (n\<lparr>hit_count := hit_count n + 1\<rparr>))
                \<and> (\<forall>x. x \<noteq> a
                       \<longrightarrow> map_option content (arena c' x) = map_option content (arena c x))
                \<and> (\<forall>x. x \<notin> set as \<longrightarrow> arena c' x = arena c x)
                \<and> length (buckets c') = length (buckets c)
                \<and> (\<forall>j. j < length (buckets c) \<longrightarrow> j \<noteq> b \<longrightarrow> buckets c' ! j = buckets c ! j)
                \<and> content (buckets c' ! b) = content (buckets c ! b)
                \<and> c' = c\<lparr>hits := hits c + 1,
                          collisions := collisions c + of_nat (length xs),
                          buckets := buckets c', arena := arena c'\<rparr>))
       \<and> ((\<forall>x\<in>set as. \<not> matches K key c x)
          \<longrightarrow> lookup K key c
              = Some (None, c\<lparr>misses := misses c + 1,
                               collisions := collisions c + of_nat (length as)\<rparr>))"
proof (intro conjI impI)
  assume h: "as = xs @ a # ys \<and> (\<forall>x\<in>set xs. \<not> matches K key c x) \<and> arena c a = Some n
            \<and> compare_graph_keys K key (key_bytes n)"
  then have ch: "bucket_chain c b (xs @ a # ys)" using assms(1) by simp
  from h have h1: "\<forall>x\<in>set xs. \<not> matches K key c x" and h2: "arena c a = Some n"
    and h3: "compare_graph_keys K key (key_bytes n)" by simp_all
  from lookup_hit [OF ch assms(2) h1 h2 h3] h
  show "\<exists>c'. lookup K key c
                       = Some (Some (read_poly K
                                       (take (unat (node_size n)
                                                - (length (key_bytes n) + sizeof_cache_node K))
                                          (poly_bytes n)),
                                     graph_id n), c')
                \<and> bucket_chain c' b (a # xs @ ys)
                \<and> map_option content (arena c' a)
                    = Some (content (n\<lparr>hit_count := hit_count n + 1\<rparr>))
                \<and> (\<forall>x. x \<noteq> a
                       \<longrightarrow> map_option content (arena c' x) = map_option content (arena c x))
                \<and> (\<forall>x. x \<notin> set as \<longrightarrow> arena c' x = arena c x)
                \<and> length (buckets c') = length (buckets c)
                \<and> (\<forall>j. j < length (buckets c) \<longrightarrow> j \<noteq> b \<longrightarrow> buckets c' ! j = buckets c ! j)
                \<and> content (buckets c' ! b) = content (buckets c ! b)
                \<and> c' = c\<lparr>hits := hits c + 1,
                          collisions := collisions c + of_nat (length xs),
                          buckets := buckets c', arena := arena c'\<rparr>"
    by simp
next
  assume "\<forall>x\<in>set as. \<not> matches K key c x"
  from lookup_miss [OF assms(1,2) this]
  show "lookup K key c
              = Some (None, c\<lparr>misses := misses c + 1,
                               collisions := collisions c + of_nat (length as)\<rparr>)" .
qed

lemma content_hit_count: "content z = content w \<Longrightarrow> hit_count z = hit_count w"
  by (simp add: content_def) (metis cache_node.select_convs(3) cache_node.surjective cache_node.update_convs(1,2))

theorem lookup_moves_to_front_witness:
  "bucket_chain two_entries 1 [40, 0]
   \<and> unat (hash_graph_key demo_platform [1, 5]) mod length (buckets two_entries) = 1
   \<and> \<not> matches demo_platform [1, 5] two_entries 40
   \<and> matches demo_platform [1, 5] two_entries 0
   \<and> (\<exists>c'. lookup demo_platform [1, 5] two_entries = Some (Some ([9, 9, 9, 9, 9, 9], 7), c')
          \<and> bucket_chain c' 1 [0, 40]
          \<and> map_option hit_count (arena c' 0) = Some 1
          \<and> hits c' = 4 \<and> misses c' = 2 \<and> collisions c' = 2)
   \<and> unat (hash_graph_key demo_platform [5, 5]) mod length (buckets two_entries) = 1
   \<and> \<not> matches demo_platform [5, 5] two_entries 40
   \<and> \<not> matches demo_platform [5, 5] two_entries 0
   \<and> lookup demo_platform [5, 5] two_entries
       = Some (None, two_entries\<lparr>misses := 3, collisions := 3\<rparr>)"
proof -
  let ?n = "\<lparr>next_ptr = Null, prev_ptr = Node 40, hit_count = 0, graph_id = 7,
             node_size = 40, key_bytes = [1, 5], poly_bytes = [9, 9, 9, 9, 9, 9]\<rparr>"
  have ch: "bucket_chain two_entries 1 [40, 0]"
    by (simp add: bucket_chain_def get_node_def two_entries_def sentinel_def)
  have b1: "1 = unat (hash_graph_key demo_platform [1, 5]) mod length (buckets two_entries)"
    by (simp add: demo_platform_def two_entries_def)
  have len: "length (buckets two_entries) = 2" by (simp add: two_entries_def)
  have b2: "1 = unat (hash_graph_key demo_platform [5, 5]) mod length (buckets two_entries)"
    unfolding len by (simp add: demo_platform_def)
  have m1: "\<not> matches demo_platform [1, 5] two_entries 40"
    "matches demo_platform [1, 5] two_entries 0"
    "\<not> matches demo_platform [5, 5] two_entries 40"
    "\<not> matches demo_platform [5, 5] two_entries 0"
    by (simp_all add: matches_def demo_platform_def two_entries_def)
  have n: "arena two_entries 0 = Some ?n" by (simp add: two_entries_def)
  have cmp: "compare_graph_keys demo_platform [1, 5] (key_bytes ?n)"
    by (simp add: demo_platform_def)
  from lookup_moves_to_front [OF ch b1, where xs = "[40]" and a = 0 and ys = "[]"
      and n = ?n] m1 n cmp
  obtain c' where
    l: "lookup demo_platform [1, 5] two_entries
          = Some (Some (read_poly demo_platform
                          (take (unat (node_size ?n)
                                   - (length (key_bytes ?n) + sizeof_cache_node demo_platform))
                             (poly_bytes ?n)), graph_id ?n), c')"
    and c: "bucket_chain c' 1 [0, 40]"
    and hc: "map_option content (arena c' 0) = Some (content (?n\<lparr>hit_count := hit_count ?n + 1\<rparr>))"
    and eq: "c' = two_entries\<lparr>hits := hits two_entries + 1,
                   collisions := collisions two_entries + of_nat (length [40::nat]),
                   buckets := buckets c', arena := arena c'\<rparr>"
    by auto
  from hc obtain z where z: "arena c' 0 = Some z"
    and zc: "content z = content (?n\<lparr>hit_count := hit_count ?n + 1\<rparr>)" by auto
  from content_hit_count [OF zc] z have h1: "map_option hit_count (arena c' 0) = Some 1"
    by simp
  have st: "hits c' = 4" "misses c' = 2" "collisions c' = 2"
    by (subst eq, simp add: two_entries_def)+
  have l': "lookup demo_platform [1, 5] two_entries = Some (Some ([9, 9, 9, 9, 9, 9], 7), c')"
    using l by (simp add: demo_platform_def)
  from lookup_moves_to_front [OF ch b2] m1
  have miss: "lookup demo_platform [5, 5] two_entries
       = Some (None, two_entries\<lparr>misses := misses two_entries + 1,
                 collisions := collisions two_entries + of_nat (length [40::nat, 0])\<rparr>)"
    by simp
  have "two_entries\<lparr>misses := misses two_entries + 1,
                 collisions := collisions two_entries + of_nat (length [40::nat, 0])\<rparr>
        = two_entries\<lparr>misses := 3, collisions := 3\<rparr>"
    by (simp add: two_entries_def)
  with miss have miss': "lookup demo_platform [5, 5] two_entries
       = Some (None, two_entries\<lparr>misses := 3, collisions := 3\<rparr>)" by simp
  show ?thesis
    using ch b1 [symmetric] b2 [symmetric] m1 l' c h1 st miss' by blast
qed

section \<open>The engine: timeout\<close>

text \<open>
  After the timeout a loop over biconnected components runs to its end: every recursive
  call in it returns at once, and the cache and the hit counters stay as they are.
\<close>

lemma components_loop_timeout:
  assumes "\<And>b tid s. current_timeout s \<le> 0 \<Longrightarrow> rec b tid s = Some (Inr (x0, b, s))"
  shows "current_timeout s \<le> 0 \<Longrightarrow>
     \<exists>p s'. components_loop E rec x1 bs poly tid s = Some (Inr (p, s'))
       \<and> the_cache s' = the_cache s \<and> cache_hit_sizes s' = cache_hit_sizes s
       \<and> current_timeout s' = current_timeout s"
proof (induction bs arbitrary: poly tid s)
  case Nil
  then show ?case by simp
next
  case (Cons b bs)
  show ?case
  proof (cases "is_multicycle (gr E) b")
    case True
    let ?s = "s\<lparr>num_bicomps := num_bicomps s + 1, num_cycles := num_cycles s + 1\<rparr>"
    have "current_timeout ?s \<le> 0" using Cons.prems by simp
    from Cons.IH [OF this] show ?thesis using True by (simp add: Let_def)
  next
    case False
    let ?s = "s\<lparr>num_bicomps := num_bicomps s + 1\<rparr>"
    have t: "current_timeout ?s \<le> 0" using Cons.prems by simp
    from Cons.IH [OF t] assms [OF t] show ?thesis using False
      by (simp add: Let_def bindR_def)
  qed
qed

lemma chromatic_components_timeout:
  assumes "\<And>b tid s. current_timeout s \<le> 0 \<Longrightarrow> rec b tid s = Some (Inr (x0, b, s))"
  shows "current_timeout s \<le> 0 \<Longrightarrow>
     \<exists>p s'. chromatic_components E rec bs poly tid s = Some (Inr (p, s'))
       \<and> the_cache s' = the_cache s \<and> cache_hit_sizes s' = cache_hit_sizes s
       \<and> current_timeout s' = current_timeout s"
proof (induction bs arbitrary: poly tid s)
  case Nil
  then show ?case by simp
next
  case (Cons b bs)
  let ?s = "s\<lparr>num_bicomps := num_bicomps s + 1\<rparr>"
  have t: "current_timeout ?s \<le> 0" using Cons.prems by simp
  from Cons.IH [OF t] assms [OF t] show ?case
    by (simp add: bindR_def)
qed

lemma tutte_timeout:
  "current_timeout s \<le> 0 \<Longrightarrow> tutte E n graph mid s = Some (Inr (X (po E) 0, graph, s))"
  by (cases n) simp_all

lemma flow_timeout:
  "current_timeout s \<le> 0 \<Longrightarrow> flow E n graph mid s = Some (Inr (X (po E) 0, graph, s))"
  by (cases n) simp_all

lemma chromatic_timeout:
  "current_timeout s \<le> 0 \<Longrightarrow> chromatic E n graph mid s = Some (Inr (X (po E) 0, graph, s))"
  by (cases n) simp_all

text \<open>
  C5, as the code has it. A frame tests the timeout counter in its first statement. Once
  the counter has reached zero (\<^verbatim>\<open>current_timeout <= 0\<close>), every frame of \<^verbatim>\<open>tutte\<close>,
  \<^verbatim>\<open>flow\<close> and \<^verbatim>\<open>chromatic\<close> that is entered returns the sentinel \<^verbatim>\<open>X(0)\<close> at once: the
  graph it was given and the whole state, the cache and the counters included, are
  returned unchanged, whatever the graph and however little fuel is left. So do the
  recursive calls that a loop over biconnected components still has to make, and the loop
  ends with the cache as it was.
\<close>

theorem timeout_returns_sentinel:
  assumes "current_timeout s \<le> 0"
  shows "tutte E n graph mid s = Some (Inr (X (po E) 0, graph, s))
       \<and> flow E n graph mid s = Some (Inr (X (po E) 0, graph, s))
       \<and> chromatic E n graph mid s = Some (Inr (X (po E) 0, graph, s))
       \<and> (\<exists>p s'. components_loop E (tutte E n) x1 bs poly tid s = Some (Inr (p, s'))
             \<and> the_cache s' = the_cache s)
       \<and> (\<exists>p s'. components_loop E (flow E n) x1 bs poly tid s = Some (Inr (p, s'))
             \<and> the_cache s' = the_cache s)
       \<and> (\<exists>p s'. chromatic_components E (chromatic E n) bs poly tid s = Some (Inr (p, s'))
             \<and> the_cache s' = the_cache s)"
proof -
  have a: "\<exists>p s'. components_loop E (tutte E n) x1 bs poly tid s = Some (Inr (p, s'))
             \<and> the_cache s' = the_cache s"
    using components_loop_timeout [of "tutte E n" "X (po E) 0" s E x1 bs poly tid] assms
    by (auto simp: tutte_timeout)
  have b: "\<exists>p s'. components_loop E (flow E n) x1 bs poly tid s = Some (Inr (p, s'))
             \<and> the_cache s' = the_cache s"
    using components_loop_timeout [of "flow E n" "X (po E) 0" s E x1 bs poly tid] assms
    by (auto simp: flow_timeout)
  have c: "\<exists>p s'. chromatic_components E (chromatic E n) bs poly tid s = Some (Inr (p, s'))
             \<and> the_cache s' = the_cache s"
    using chromatic_components_timeout [of "chromatic E n" "X (po E) 0" s E bs poly tid] assms
    by (auto simp: chromatic_timeout)
  show ?thesis
    using assms a b c by (simp add: tutte_timeout flow_timeout chromatic_timeout)
qed

theorem timeout_returns_sentinel_witness:
  "current_timeout (demo_state 0 []) \<le> 0
   \<and> tutte demo_env 0 wheel4 1 (demo_state 0 []) = Some (Inr (PX 0, wheel4, demo_state 0 []))
   \<and> flow demo_env 3 wheel4 1 (demo_state 0 []) = Some (Inr (PX 0, wheel4, demo_state 0 []))
   \<and> chromatic demo_env 3 wheel4 1 (demo_state 0 [])
       = Some (Inr (PX 0, wheel4, demo_state 0 []))"
proof -
  have t: "current_timeout (demo_state 0 []) \<le> 0" by (simp add: demo_state_def)
  have x: "X (po demo_env) 0 = PX 0" by (simp add: demo_env_def demo_poly_ops_def)
  from timeout_returns_sentinel [OF t, of demo_env 0 wheel4 1]
    timeout_returns_sentinel [OF t, of demo_env 3 wheel4 1] t x
  show ?thesis by simp
qed

text \<open>
  A frame is its test followed by \<open>tutte_frame\<close>, and without signals \<open>tutte_sig\<close> is
  \<open>tutte\<close>.
\<close>

lemma tutte_Suc:
  "tutte E (Suc n) graph mid s
   = (if current_timeout s \<le> 0 then Some (Inr (X (po E) 0, graph, s))
      else tutte_frame E (tutte E n) graph mid s)"
  by (simp add: tutte_frame_def)

lemma tutte_sig_none: "tutte_sig E (\<lambda>s. s) n graph mid s = tutte E n graph mid s"
proof (induction n arbitrary: graph mid s)
  case 0
  then show ?case by simp
next
  case (Suc n)
  then have "tutte_sig E (\<lambda>s. s) n = tutte E n" by (simp add: fun_eq_iff)
  then show ?case by (simp add: tutte_frame_def)
qed

text \<open>
  A frame that has passed its test when the counter reaches zero goes on. Take the diamond
  with the edge \<open>0--1\<close> doubled, an empty cache and a timeout of five seconds, and let the
  timer ring when the first frame has passed its test: the counter is zero from then on.
  The two recursive calls of the frame return \<^verbatim>\<open>X(0)\<close>; the frame, which was pending, adds
  them up to \<open>X(0) + X(0) * Y(0,1)\<close>, stores the sum under the key of the diamond and
  returns it times \<open>Y(0)\<close>.
\<close>

theorem pending_frame_stores_sentinels:
  "0 < current_timeout (demo_state 5 [])
   \<and> the_cache (demo_state 5 []) = []
   \<and> tutte_sig demo_env4 rings_once 2 diamond2 1 (demo_state 5 [])
       = Some (Inr (PTimes (PPlus (PX 0) (PTimes (PX 0) (PY2 0 1))) (PY 0), pendant,
                    (demo_state 0 [(6, PPlus (PX 0) (PTimes (PX 0) (PY2 0 1)), 1)])
                      \<lparr>num_steps := 1, tree_id := 4\<rparr>))"
  by (simp add: demo_defs eng_defs tutte_frame_def timer_handler_def numeral_2_eq_2 save_def)

section \<open>The engine: flow polynomial of a graph with a bridge\<close>

text \<open>
  C4. In flow mode, take a frame that has not timed out, whose cache probe (if any) missed
  and whose graph, once its loops are removed, is neither a multicycle to be reduced nor
  biconnected. When the biconnected components have been extracted and removed and some
  vertex of what is left has an edge of multiplicity 1, the frame returns the empty
  polynomial \<^verbatim>\<open>P()\<close> for the whole graph. It does so at once: \<^verbatim>\<open>num_trees\<close> is
  incremented and \<^verbatim>\<open>tree_id\<close> has been advanced by the number of components, but
  no component is reduced and nothing is multiplied or stored.
\<close>

theorem flow_tree_kills_branch:
  assumes "0 < current_timeout s"
    and "reduce_loops (gr E) graph = (loops, g1)"
    and "probe E (small_graph_threshold (opt E) \<le> num_vertices (gr E) g1
                   \<and> \<not> is_multitree (gr E) g1) g1
           ((if status_flag s then print_status s else s)\<lparr>num_steps := num_steps s + 1\<rparr>)
         = (key, None, s2)"
    and "\<not> (reduce_multicycles (opt E) \<and> is_multicycle (gr E) g1)"
    and "\<not> is_biconnected (gr E) g1"
    and "extract_biconnected_components (gr E) g1 = (biconnects, g2)"
    and "i \<in> set (verts (gr E) (remove_graphs (gr E) g2 biconnects))"
    and "(t, 1) \<in> set (edges_of (gr E) (remove_graphs (gr E) g2 biconnects) i)"
  shows "flow E (Suc n) graph mid s =
           Some (Inr (P_empty (po E), remove_graphs (gr E) g2 biconnects,
                      s2\<lparr>tree_id := tree_id s2 + of_nat (length biconnects),
                         num_trees := num_trees s2 + 1\<rparr>))"
proof -
  have ex: "list_ex (\<lambda>i. list_ex (\<lambda>j. snd j = 1)
               (edges_of (gr E) (remove_graphs (gr E) g2 biconnects) i))
             (verts (gr E) (remove_graphs (gr E) g2 biconnects))"
    using assms(7,8) by (force simp: list_ex_iff)
  have ns: "num_steps (if status_flag s then print_status s else s) = num_steps s"
    by (simp add: print_status_def)
  show ?thesis
    using assms(1-6) ex ns by (auto simp add: bindR_def Let_def)
qed


theorem flow_tree_kills_branch_witness:
  "0 < current_timeout (demo_state 100 [])
   \<and> \<not> is_biconnected (gr demo_env) dumbbell
   \<and> extract_biconnected_components (gr demo_env) dumbbell = ([triangle_a, triangle_b], dumbbell)
   \<and> remove_graphs (gr demo_env) dumbbell [triangle_a, triangle_b] = bridge23
   \<and> (3, 1) \<in> set (edges_of (gr demo_env) bridge23 2)
   \<and> flow demo_env (Suc 0) dumbbell 1 (demo_state 100 [])
       = Some (Inr (PEmpty, bridge23,
                    (demo_state 100 [])\<lparr>num_steps := 1, tree_id := 4, num_trees := 1\<rparr>))"
proof -
  let ?s = "demo_state 100 []"
  have h1: "0 < current_timeout ?s" by (simp add: demo_defs)
  have h2: "reduce_loops (gr demo_env) dumbbell = (0, dumbbell)" by (simp add: demo_defs)
  have h3: "probe demo_env (small_graph_threshold (opt demo_env) \<le> num_vertices (gr demo_env) dumbbell
                   \<and> \<not> is_multitree (gr demo_env) dumbbell) dumbbell
           ((if status_flag ?s then print_status ?s else ?s)\<lparr>num_steps := num_steps ?s + 1\<rparr>)
         = (Some 2, None, ?s\<lparr>num_steps := 1\<rparr>)"
    by (simp add: demo_defs probe_def)
  have h4: "\<not> (reduce_multicycles (opt demo_env) \<and> is_multicycle (gr demo_env) dumbbell)"
    by (simp add: demo_defs)
  have h5: "\<not> is_biconnected (gr demo_env) dumbbell" by (simp add: demo_defs)
  have h6: "extract_biconnected_components (gr demo_env) dumbbell
              = ([triangle_a, triangle_b], dumbbell)"
    by (simp add: demo_defs)
  have r: "remove_graphs (gr demo_env) dumbbell [triangle_a, triangle_b] = bridge23"
    by (simp add: demo_defs)
  have h7: "2 \<in> set (verts (gr demo_env)
              (remove_graphs (gr demo_env) dumbbell [triangle_a, triangle_b]))"
    by (simp add: demo_defs)
  have h8: "(3, 1) \<in> set (edges_of (gr demo_env)
              (remove_graphs (gr demo_env) dumbbell [triangle_a, triangle_b]) 2)"
    by (simp add: demo_defs)
  have p: "P_empty (po demo_env) = PEmpty" by (simp add: demo_defs)
  from flow_tree_kills_branch [OF h1 h2 h3 h4 h5 h6 h7 h8, of 0 1] h1 h5 h6 h8 r p
  show ?thesis by (simp add: demo_state_def)
qed

section \<open>The engine: delete-contract on a multi-edge\<close>

text \<open>
  C3. In Tutte and in flow mode (\<open>f\<close> is \<open>tutte\<close> or \<open>flow\<close>), take a frame that reaches
  the delete-contract step: it has not timed out, its probe missed, and its graph is
  biconnected and not a multicycle to be reduced. Let \<open>(u, v, k)\<close> be the edge that
  \<^verbatim>\<open>select_edge\<close> returns, \<open>pd\<close> the polynomial of the delete branch and \<open>pc\<close> that of the
  contract branch. When \<open>k > 1\<close> the frame computes \<open>pd + pc * Y(0, k - 1)\<close>, otherwise
  \<open>pd + pc\<close>; this is the polynomial it stores under its key, and it returns it multiplied
  by \<open>Y(loops)\<close>. The number \<open>k\<close> is the third component of the selected edge, which is
  the edge's multiplicity unless multi-edge reduction is switched off.
\<close>

theorem multi_edge_recurrence:
  assumes "f = tutte \<or> f = flow"
    and "0 < current_timeout s"
    and "reduce_loops (gr E) graph = (loops, g1)"
    and "probe E (small_graph_threshold (opt E) \<le> num_vertices (gr E) g1
                   \<and> \<not> is_multitree (gr E) g1) g1
           ((if status_flag s then print_status s else s)\<lparr>num_steps := num_steps s + 1\<rparr>)
         = (key, None, s2)"
    and "\<not> (reduce_multicycles (opt E) \<and> is_multicycle (gr E) g1)"
    and "is_biconnected (gr E) g1"
    and "select_edge E g1 (s2\<lparr>tree_id := tree_id s2 + 2\<rparr>) = Some (Inr ((u, v, k), s3))"
    and "f E n (remove_edge (gr E) g1 (u, v, k)) (tree_id s2) s3 = Some (Inr (pd, gd, s4))"
    and "f E n (contract_edge (gr E) g1 (u, v, k)) (tree_id s2 + 1) s4 = Some (Inr (pc, gc, s5))"
    and "save E key
           (if 1 < k then poly_plus (po E) pd (poly_times (po E) pc (Y2 (po E) 0 (k - 1)))
            else poly_plus (po E) pd pc) mid s5 = Some (Inr s6)"
  shows "f E (Suc n) graph mid s =
           Some (Inr (poly_times (po E)
                        (if 1 < k
                         then poly_plus (po E) pd (poly_times (po E) pc (Y2 (po E) 0 (k - 1)))
                         else poly_plus (po E) pd pc)
                        (Y (po E) loops), gd, s6))"
proof -
  have ns: "num_steps (if status_flag s then print_status s else s) = num_steps s"
    by (simp add: print_status_def)
  from assms(1) show ?thesis
  proof
    assume "f = tutte"
    then show ?thesis
      using assms(2-10) ns by (auto simp add: bindR_def Let_def)
  next
    assume "f = flow"
    then show ?thesis
      using assms(2-10) ns by (auto simp add: bindR_def Let_def)
  qed
qed


theorem multi_edge_recurrence_witness:
  "is_biconnected (gr demo_env) diamond2
   \<and> select_edge demo_env diamond2 ((demo_state 100 [])\<lparr>num_steps := 1, tree_id := 4\<rparr>)
       = Some (Inr ((0, 1, 2), (demo_state 100 [])\<lparr>num_steps := 1, tree_id := 4\<rparr>))
   \<and> tutte demo_env (Suc 1) diamond2 1 (demo_state 100 [])
       = Some (Inr (PTimes
                     (PPlus (PTimes (PTimes (PTree (PX 1) 11) (PCycle (PX 1) 12)) (PY 0))
                        (PTimes (PTimes (PCycle (PX 1) 8) (PY 0)) (PY2 0 1)))
                     (PY 0),
                    edge02,
                    (demo_state 100 [])\<lparr>num_steps := 3, tree_id := 5, num_trees := 1,
                       num_bicomps := 1, num_cycles := 2\<rparr>))
   \<and> select_edge demo_env diamond ((demo_state 100 [])\<lparr>num_steps := 1, tree_id := 4\<rparr>)
       = Some (Inr ((0, 1, 1), (demo_state 100 [])\<lparr>num_steps := 1, tree_id := 4\<rparr>))
   \<and> flow demo_env (Suc 1) diamond 1 (demo_state 100 [])
       = Some (Inr (PTimes (PPlus PEmpty (PTimes (PCycle PEmpty 8) (PY 0))) (PY 0),
                    edge02,
                    (demo_state 100 [])\<lparr>num_steps := 3, tree_id := 5, num_trees := 1,
                       num_cycles := 1\<rparr>))"
proof -
  let ?s = "demo_state 100 []"
  let ?s2 = "?s\<lparr>num_steps := 1\<rparr>"
  let ?s3 = "?s\<lparr>num_steps := 1, tree_id := 4\<rparr>"
  let ?pd = "PTimes (PTimes (PTree (PX 1) 11) (PCycle (PX 1) 12)) (PY 0)"
  let ?pc = "PTimes (PCycle (PX 1) 8) (PY 0)"
  let ?s4 = "?s\<lparr>num_steps := 2, tree_id := 5, num_trees := 1, num_bicomps := 1,
                num_cycles := 1\<rparr>"
  let ?s5 = "?s\<lparr>num_steps := 3, tree_id := 5, num_trees := 1, num_bicomps := 1,
                num_cycles := 2\<rparr>"
  let ?fc = "PTimes (PCycle PEmpty 8) (PY 0)"
  let ?f4 = "?s\<lparr>num_steps := 2, tree_id := 5, num_trees := 1\<rparr>"
  let ?f5 = "?s\<lparr>num_steps := 3, tree_id := 5, num_trees := 1, num_cycles := 1\<rparr>"
  have h2: "0 < current_timeout ?s" by (simp add: demo_defs)
  have a3: "reduce_loops (gr demo_env) diamond2 = (0, diamond2)" by (simp add: demo_defs)
  have a4: "probe demo_env (small_graph_threshold (opt demo_env) \<le> num_vertices (gr demo_env) diamond2
                   \<and> \<not> is_multitree (gr demo_env) diamond2) diamond2
           ((if status_flag ?s then print_status ?s else ?s)\<lparr>num_steps := num_steps ?s + 1\<rparr>)
         = (None, None, ?s2)"
    by (simp add: demo_defs probe_def)
  have a5: "\<not> (reduce_multicycles (opt demo_env) \<and> is_multicycle (gr demo_env) diamond2)"
    by (simp add: demo_defs)
  have a6: "is_biconnected (gr demo_env) diamond2" by (simp add: demo_defs)
  have a7: "select_edge demo_env diamond2 (?s2\<lparr>tree_id := tree_id ?s2 + 2\<rparr>)
              = Some (Inr ((0, 1, 2), ?s3))"
    by (simp add: demo_defs eng_defs)
  have a8: "tutte demo_env 1 (remove_edge (gr demo_env) diamond2 (0, 1, 2)) (tree_id ?s2) ?s3
              = Some (Inr (?pd, edge02, ?s4))"
    by (simp add: demo_defs eng_defs)
  have a9: "tutte demo_env 1 (contract_edge (gr demo_env) diamond2 (0, 1, 2)) (tree_id ?s2 + 1) ?s4
              = Some (Inr (?pc, fat_triangle, ?s5))"
    by (simp add: demo_defs eng_defs)
  have a10: "save demo_env None
           (if 1 < (2::nat)
            then poly_plus (po demo_env) ?pd
                   (poly_times (po demo_env) ?pc (Y2 (po demo_env) 0 (2 - 1)))
            else poly_plus (po demo_env) ?pd ?pc) 1 ?s5 = Some (Inr ?s5)"
    by (simp add: save_def)
  have b3: "reduce_loops (gr demo_env) diamond = (0, diamond)" by (simp add: demo_defs)
  have b4: "probe demo_env (small_graph_threshold (opt demo_env) \<le> num_vertices (gr demo_env) diamond
                   \<and> \<not> is_multitree (gr demo_env) diamond) diamond
           ((if status_flag ?s then print_status ?s else ?s)\<lparr>num_steps := num_steps ?s + 1\<rparr>)
         = (None, None, ?s2)"
    by (simp add: demo_defs probe_def)
  have b5: "\<not> (reduce_multicycles (opt demo_env) \<and> is_multicycle (gr demo_env) diamond)"
    by (simp add: demo_defs)
  have b6: "is_biconnected (gr demo_env) diamond" by (simp add: demo_defs)
  have b7: "select_edge demo_env diamond (?s2\<lparr>tree_id := tree_id ?s2 + 2\<rparr>)
              = Some (Inr ((0, 1, 1), ?s3))"
    by (simp add: demo_defs eng_defs)
  have b8: "flow demo_env 1 (remove_edge (gr demo_env) diamond (0, 1, 1)) (tree_id ?s2) ?s3
              = Some (Inr (PEmpty, edge02, ?f4))"
    by (simp add: demo_defs eng_defs)
  have b9: "flow demo_env 1 (contract_edge (gr demo_env) diamond (0, 1, 1)) (tree_id ?s2 + 1) ?f4
              = Some (Inr (?fc, fat_triangle, ?f5))"
    by (simp add: demo_defs eng_defs)
  have b10: "save demo_env None
           (if 1 < (1::nat)
            then poly_plus (po demo_env) PEmpty
                   (poly_times (po demo_env) ?fc (Y2 (po demo_env) 0 (1 - 1)))
            else poly_plus (po demo_env) PEmpty ?fc) 1 ?f5 = Some (Inr ?f5)"
    by (simp add: save_def)
  have ops: "poly_plus (po demo_env) = PPlus" "poly_times (po demo_env) = PTimes"
    "Y2 (po demo_env) = PY2" "Y (po demo_env) = PY"
    by (simp_all add: demo_defs)
  have t: "tutte demo_env (Suc 1) diamond2 1 ?s
       = Some (Inr (PTimes (PPlus ?pd (PTimes ?pc (PY2 0 1))) (PY 0), edge02, ?s5))"
    using multi_edge_recurrence [where f = tutte, OF _ h2 a3 a4 a5 a6 a7 a8 a9 a10]
    by (simp add: ops)
  have f: "flow demo_env (Suc 1) diamond 1 ?s
       = Some (Inr (PTimes (PPlus PEmpty ?fc) (PY 0), edge02, ?f5))"
    using multi_edge_recurrence [where f = flow, OF _ h2 b3 b4 b5 b6 b7 b8 b9 b10]
    by (simp add: ops)
  have e1: "?s2\<lparr>tree_id := tree_id ?s2 + 2\<rparr> = ?s3" by (simp add: demo_state_def)
  have st: "?s5 = ?s\<lparr>num_steps := 3, tree_id := 5, num_trees := 1, num_bicomps := 1,
              num_cycles := 2\<rparr>" by simp
  show ?thesis
    using t f a6 a7 b7 unfolding e1 by simp
qed

section \<open>The engine: counting cache hits by graph size\<close>

text \<open>
  On a cache hit \<^verbatim>\<open>tutte\<close> increments the cell of \<^verbatim>\<open>cache_hit_sizes\<close> with index
  \<open>|V| + 1\<close>, while \<^verbatim>\<open>flow\<close> and \<^verbatim>\<open>chromatic\<close> increment the cell with index \<open>|V|\<close>.
\<close>

lemma tutte_hit_bumps_next_cell:
  assumes "0 < current_timeout s"
    and "reduce_loops (gr E) graph = (loops, g1)"
    and "probe E (small_graph_threshold (opt E) \<le> num_vertices (gr E) g1
                   \<and> \<not> is_multitree (gr E) g1) g1
           ((if status_flag s then print_status s else s)\<lparr>num_steps := num_steps s + 1\<rparr>)
         = (key, Some (r, match_id), s2)"
    and "num_vertices (gr E) g1 + 1 < length (cache_hit_sizes s2)"
  shows "tutte E (Suc n) graph mid s =
           Some (Inr (poly_times (po E) r (Y (po E) loops), g1,
                      s2\<lparr>cache_hit_sizes := (cache_hit_sizes s2)
                           [num_vertices (gr E) g1 + 1 :=
                              cache_hit_sizes s2 ! (num_vertices (gr E) g1 + 1) + 1]\<rparr>))"
proof -
  have ns: "num_steps (if status_flag s then print_status s else s) = num_steps s"
    by (simp add: print_status_def)
  show ?thesis using assms ns by (simp add: bump_hit_def Let_def)
qed

lemma flow_hit_bumps_cell:
  assumes "0 < current_timeout s"
    and "reduce_loops (gr E) graph = (loops, g1)"
    and "probe E (small_graph_threshold (opt E) \<le> num_vertices (gr E) g1
                   \<and> \<not> is_multitree (gr E) g1) g1
           ((if status_flag s then print_status s else s)\<lparr>num_steps := num_steps s + 1\<rparr>)
         = (key, Some (r, match_id), s2)"
    and "num_vertices (gr E) g1 < length (cache_hit_sizes s2)"
  shows "flow E (Suc n) graph mid s =
           Some (Inr (poly_times (po E) r (Y (po E) loops), g1,
                      s2\<lparr>cache_hit_sizes := (cache_hit_sizes s2)
                           [num_vertices (gr E) g1 :=
                              cache_hit_sizes s2 ! (num_vertices (gr E) g1) + 1]\<rparr>))"
proof -
  have ns: "num_steps (if status_flag s then print_status s else s) = num_steps s"
    by (simp add: print_status_def)
  show ?thesis using assms ns by (simp add: bump_hit_def Let_def)
qed

lemma chromatic_hit_bumps_cell:
  assumes "0 < current_timeout s"
    and "probe E (small_graph_threshold (opt E) \<le> num_vertices (gr E) graph) graph
           ((if status_flag s then print_status s else s)\<lparr>num_steps := num_steps s + 1\<rparr>)
         = (key, Some (r, match_id), s2)"
    and "num_vertices (gr E) graph < length (cache_hit_sizes s2)"
  shows "chromatic E (Suc n) graph mid s =
           Some (Inr (r, graph,
                      s2\<lparr>cache_hit_sizes := (cache_hit_sizes s2)
                           [num_vertices (gr E) graph :=
                              cache_hit_sizes s2 ! (num_vertices (gr E) graph) + 1]\<rparr>))"
proof -
  have ns: "num_steps (if status_flag s then print_status s else s) = num_steps s"
    by (simp add: print_status_def)
  show ?thesis using assms ns by (simp add: bump_hit_def Let_def)
qed

text \<open>
  C9 says that on every hit, in all modes, the cell indexed by the number of vertices of
  the current graph is incremented. The wheel on five vertices is in the cache and the
  counters have eight cells: \<^verbatim>\<open>tutte\<close> increments cell 6, \<^verbatim>\<open>flow\<close> and \<^verbatim>\<open>chromatic\<close>
  increment cell 5.
\<close>

theorem tutte_hit_counts_wrong_cell:
  "num_vertices (gr demo_env) wheel4 = 5
   \<and> tutte demo_env (Suc 0) wheel4 1 (demo_state 100 [(10, PX 7, 3)])
       = Some (Inr (PTimes (PX 7) (PY 0), wheel4,
                    (demo_state 100 [(10, PX 7, 3)])
                      \<lparr>num_steps := 1, cache_hit_sizes := [0, 0, 0, 0, 0, 0, 1, 0]\<rparr>))
   \<and> flow demo_env (Suc 0) wheel4 1 (demo_state 100 [(10, PX 7, 3)])
       = Some (Inr (PTimes (PX 7) (PY 0), wheel4,
                    (demo_state 100 [(10, PX 7, 3)])
                      \<lparr>num_steps := 1, cache_hit_sizes := [0, 0, 0, 0, 0, 1, 0, 0]\<rparr>))
   \<and> chromatic demo_env (Suc 0) wheel4 1 (demo_state 100 [(10, PX 7, 3)])
       = Some (Inr (PX 7, wheel4,
                    (demo_state 100 [(10, PX 7, 3)])
                      \<lparr>num_steps := 1, cache_hit_sizes := [0, 0, 0, 0, 0, 1, 0, 0]\<rparr>))"
  by (simp add: demo_defs eng_defs)

section \<open>The engine: storing the result of a frame\<close>

text \<open>
  C1 says that every frame that computed a key and missed stores its polynomial under
  that key before it returns. In chromatic mode the path on five vertices reaches the
  threshold, so its key is computed, and the empty cache misses; the graph is not
  biconnected, and the frame returns \<open>x^4\<close> with the cache still empty.
\<close>

theorem chromatic_skips_store:
  "small_graph_threshold (opt demo_env) \<le> num_vertices (gr demo_env) path5
   \<and> cache_lookup (ca demo_env) (graph_key (ca demo_env) path5) [] = (None, [])
   \<and> chromatic demo_env (Suc 0) path5 1 (demo_state 100 [])
       = Some (Inr (PX 4, path5, (demo_state 100 [])\<lparr>num_steps := 1, num_trees := 1\<rparr>))
   \<and> the_cache ((demo_state 100 [])\<lparr>num_steps := 1, num_trees := 1\<rparr>) = []"
  by (simp add: demo_defs eng_defs)

text \<open>
  The same in flow mode: the key of the dumbbell is computed and missed, and the frame
  leaves by \<^verbatim>\<open>return P()\<close> with the cache still empty.
\<close>

lemma flow_early_return_skips_store:
  "small_graph_threshold (opt demo_env) \<le> num_vertices (gr demo_env) dumbbell
   \<and> \<not> is_multitree (gr demo_env) dumbbell
   \<and> cache_lookup (ca demo_env) (graph_key (ca demo_env) dumbbell) [] = (None, [])
   \<and> flow demo_env (Suc 0) dumbbell 1 (demo_state 100 [])
       = Some (Inr (PEmpty, bridge23,
                    (demo_state 100 [])\<lparr>num_steps := 1, tree_id := 4, num_trees := 1\<rparr>))
   \<and> the_cache ((demo_state 100 [])\<lparr>num_steps := 1, tree_id := 4, num_trees := 1\<rparr>) = []"
  by (simp add: demo_defs eng_defs)

text \<open>
  \<^verbatim>\<open>tutte\<close> does store: whenever a frame that computed the key \<open>k\<close> and missed returns
  normally, the cache it returns is the result of a store under \<open>k\<close> with the frame's own
  id, and the polynomial returned is the stored one times \<open>Y(loops)\<close>.
\<close>

lemma tutte_stores_on_miss:
  fixes E :: "('g, 'p, 'k, 'c) env"
  assumes "0 < current_timeout s"
    and "reduce_loops (gr E) graph = (loops, g1)"
    and "probe E (small_graph_threshold (opt E) \<le> num_vertices (gr E) g1
                   \<and> \<not> is_multitree (gr E) g1) g1
           ((if status_flag s then print_status s else s)\<lparr>num_steps := num_steps s + 1\<rparr>)
         = (Some k, None, s2)"
    and "tutte E (Suc n) graph mid s = Some (Inr (p, g', s'))"
  shows "\<exists>poly (sb :: 'c state). cache_store (ca E) k poly mid (the_cache sb) = Inr (the_cache s')
           \<and> p = poly_times (po E) poly (Y (po E) loops)"
proof -
  have ns: "num_steps (if status_flag s then print_status s else s) = num_steps s"
    by (simp add: print_status_def)
  show ?thesis using assms ns
    by (auto simp add: bindR_def Let_def save_def
          split: option.splits sum.splits prod.splits if_splits) blast+
qed

section \<open>Compaction\<close>

text \<open>Tilings and the prefix sums over them.\<close>

lemma tiled_append:
  "tiled h s (ds @ rs) e = (\<exists>p. tiled h s ds p \<and> tiled h p rs e)"
  by (induction ds arbitrary: s) (auto split: option.splits)

lemma tiled_le: "tiled h s as e \<Longrightarrow> s \<le> e"
proof (induction as arbitrary: s)
  case Nil
  then show ?case by simp
next
  case (Cons a as)
  then show ?case by (fastforce split: option.splits)
qed

lemma tiled_bounds:
  "tiled h s as e \<Longrightarrow> x \<in> set as \<Longrightarrow> s \<le> x \<and> x + size_at h x \<le> e \<and> 0 < size_at h x"
proof (induction as arbitrary: s)
  case Nil
  then show ?case by simp
next
  case (Cons a as)
  from Cons.prems(1) obtain n where n: "h s = Some n" "a = s" "node_size n \<noteq> 0"
    and t: "tiled h (s + unat (node_size n)) as e"
    by (auto split: option.splits)
  have pos: "0 < unat (node_size n)" using n(3) by (simp add: unat_gt_0)
  show ?case
  proof (cases "x = a")
    case True
    have "s + unat (node_size n) \<le> e" using t by (rule tiled_le)
    with True n pos show ?thesis by (simp add: size_at_def)
  next
    case False
    with Cons.prems(2) have "x \<in> set as" by simp
    from Cons.IH [OF t this] show ?thesis by simp
  qed
qed

lemma tiled_gap:
  assumes "tiled h s (ds @ a # rs) e"
  shows "(\<forall>y\<in>set ds. y < a) \<and> (\<forall>y\<in>set rs. a + size_at h a \<le> y) \<and> tiled h s ds a
         \<and> tiled h (a + size_at h a) rs e \<and> 0 < size_at h a \<and> h a \<noteq> None"
proof -
  from assms obtain p where d: "tiled h s ds p" and r: "tiled h p (a # rs) e"
    by (auto simp: tiled_append)
  from r obtain n where n: "h a = Some n" "a = p" "node_size n \<noteq> 0"
    and t: "tiled h (a + unat (node_size n)) rs e"
    by (auto split: option.splits)
  have pos: "0 < unat (node_size n)" using n(3) by (simp add: unat_gt_0)
  have sz: "size_at h a = unat (node_size n)" using n by (simp add: size_at_def)
  have "\<forall>y\<in>set ds. y < a"
  proof
    fix y assume "y \<in> set ds"
    from tiled_bounds [OF d this] n(2) show "y < a" by simp
  qed
  moreover have "\<forall>y\<in>set rs. a + size_at h a \<le> y"
  proof
    fix y assume "y \<in> set rs"
    from tiled_bounds [OF t this] sz show "a + size_at h a \<le> y" by simp
  qed
  ultimately show ?thesis using d n t pos sz by simp
qed

lemma tiled_distinct: "tiled h s as e \<Longrightarrow> distinct as"
proof (induction as arbitrary: s)
  case Nil
  then show ?case by simp
next
  case (Cons a as)
  from tiled_gap [of h s "[]" a as e] Cons.prems
  have g: "\<forall>y\<in>set as. a + size_at h a \<le> y" "tiled h (a + size_at h a) as e" "0 < size_at h a"
    by simp_all
  from g(1,3) have "a \<notin> set as" by fastforce
  with Cons.IH [OF g(2)] show ?case by simp
qed

lemma before_append: "before w (ds @ rs) x = before w ds x + before w rs x"
  by (simp add: before_def)

lemma before_all: "\<forall>y\<in>set ds. y < x \<Longrightarrow> before w ds x = sum_list (map w ds)"
  by (induction ds) (simp_all add: before_def)

lemma before_none: "\<forall>y\<in>set rs. x \<le> y \<Longrightarrow> before w rs x = 0"
  by (induction rs) (simp_all add: before_def)

lemma before_mono: "x \<le> y \<Longrightarrow> before w as x \<le> before w as y"
  by (induction as) (auto simp: before_def)

text \<open>The prefix sums at an element of a tiling and just behind it.\<close>

lemma before_at:
  assumes "tiled h s (ds @ a # rs) e"
  shows "before w (ds @ a # rs) a = sum_list (map w ds)"
    and "before w (ds @ a # rs) (a + size_at h a) = sum_list (map w ds) + w a"
proof -
  from tiled_gap [OF assms] have g: "\<forall>y\<in>set ds. y < a" "\<forall>y\<in>set rs. a + size_at h a \<le> y"
    "0 < size_at h a" by simp_all
  have r0: "before w rs a = 0" using g(2) by (intro before_none) auto
  have r1: "before w rs (a + size_at h a) = 0" using g(2) by (intro before_none) auto
  have d1: "before w ds (a + size_at h a) = sum_list (map w ds)"
    using g(1) by (intro before_all) auto
  show "before w (ds @ a # rs) a = sum_list (map w ds)"
    using before_all [of ds a w] g(1) r0
    by (simp add: before_append before_def [of w "a # rs"]) (simp add: before_def)
  show "before w (ds @ a # rs) (a + size_at h a) = sum_list (map w ds) + w a"
    using d1 r1 g(3)
    by (simp add: before_append before_def [of w "a # rs"]) (simp add: before_def)
qed

lemma before_end:
  assumes "tiled h s as e"
  shows "before w as e = sum_list (map w as)"
proof -
  have "\<forall>y\<in>set as. y < e"
  proof
    fix y assume "y \<in> set as"
    from tiled_bounds [OF assms this] show "y < e" by simp
  qed
  then show ?thesis by (rule before_all)
qed

lemma tiled_sum: "tiled h s as e \<Longrightarrow> s + sum_list (map (size_at h) as) = e"
proof (induction as arbitrary: s)
  case Nil
  then show ?case by simp
next
  case (Cons a as)
  from Cons.prems obtain n where n: "h s = Some n" "a = s"
    and t: "tiled h (s + unat (node_size n)) as e"
    by (auto split: option.splits)
  from Cons.IH [OF t] n show ?case by (simp add: size_at_def)
qed

lemma split_sizes:
  "sum_list (map (\<lambda>a. if live_at h a then 0 else size_at h a) as)
   + sum_list (map (\<lambda>a. if live_at h a then size_at h a else 0) as)
   = sum_list (map (size_at h) as)"
  by (induction as) simp_all

text \<open>An entry slides down to the total size of the live entries before it.\<close>

lemma slide_eq_live_before:
  assumes "tiled h 0 as e" and "x \<in> set as \<or> x = e"
  shows "slide h as x = live_before h as x" and "freed_before h as x \<le> x"
proof -
  have "freed_before h as x + live_before h as x = x"
  proof (cases "x = e")
    case True
    with before_end [OF assms(1)] split_sizes [of h as] tiled_sum [OF assms(1)]
    show ?thesis by (simp add: freed_before_def live_before_def)
  next
    case False
    with assms(2) obtain ds rs where s: "as = ds @ x # rs" by (auto dest: split_list)
    from tiled_gap [of h 0 ds x rs e] assms(1) s have "tiled h 0 ds x" by simp
    from tiled_sum [OF this] before_at(1) [of h 0 ds x rs e] assms(1) s split_sizes [of h ds]
    show ?thesis by (simp add: freed_before_def live_before_def)
  qed
  then show "slide h as x = live_before h as x" and "freed_before h as x \<le> x"
    by (simp_all add: slide_def)
qed

lemma live_before_step:
  assumes "distinct as" and "x \<in> set as" and "live_at h x" and "x < a"
  shows "live_before h as x + size_at h x \<le> live_before h as a"
  using assms(1,2)
proof (induction as)
  case Nil
  then show ?case by simp
next
  case (Cons b bs)
  let ?w = "\<lambda>a. if live_at h a then size_at h a else 0"
  have mono: "before ?w bs x \<le> before ?w bs a"
    using assms(4) by (intro before_mono) simp
  show ?case
  proof (cases "b = x")
    case True
    with mono assms(3,4) show ?thesis
      by (simp add: live_before_def before_def)
  next
    case False
    with Cons.prems have "x \<in> set bs" "distinct bs" by simp_all
    from Cons.IH [OF this(2,1)] assms(4) show ?thesis
      by (auto simp: live_before_def before_def)
  qed
qed

lemma slide_ptr_simps [simp]:
  "slide_ptr f Null = Null"
  "slide_ptr f (Bucket j) = Bucket j"
  "slide_ptr f (Node x) = Node (f x)"
  by (simp_all add: slide_ptr_def)

lemma slide_ptr_Null_iff [simp]: "slide_ptr f q = Null \<longleftrightarrow> q = Null"
  by (cases q) simp_all

lemma relink_fields [simp]:
  "next_ptr (relink f n) = slide_ptr f (next_ptr n)"
  "prev_ptr (relink f n) = slide_ptr f (prev_ptr n)"
  "node_size (relink f n) = node_size n"
  "content (relink f n) = content n"
  by (simp_all add: relink_def content_def)

lemma is_free_relink [simp]: "is_free (relink f n) = is_free n"
  by (simp add: is_free_def)

lemma dom_ptrs_defined: "q \<in> dom_ptrs c as \<Longrightarrow> \<exists>n. get_node c q = Some n"
  by (auto simp: dom_ptrs_def get_node_def live_at_def split: option.splits)

lemma dom_ptrs_Node: "Node a \<in> dom_ptrs c as \<longleftrightarrow> a \<in> set as \<and> live_at (arena c) a"
  by (simp add: dom_ptrs_def)

lemma dom_ptrs_Bucket: "Bucket j \<in> dom_ptrs c as \<longleftrightarrow> j < length (buckets c)"
  by (simp add: dom_ptrs_def)

lemma dom_ptrs_Null: "Null \<notin> dom_ptrs c as"
  by (simp add: dom_ptrs_def)

lemma psi_le:
  "psi h as p x \<le> x"
  by (simp add: psi_def slide_def)

lemma psi_below:
  assumes "tiled h 0 as e" and "x \<in> set as" and "live_at h x" and "a \<in> set as" and "x < a"
  shows "psi h as a x + size_at h x \<le> slide h as a"
proof -
  from assms(1,2) have "slide h as x = live_before h as x" by (simp add: slide_eq_live_before(1))
  moreover from assms(1,4) have "slide h as a = live_before h as a"
    by (simp add: slide_eq_live_before(1))
  moreover from live_before_step [OF tiled_distinct [OF assms(1)] assms(2,3,5)]
  have "live_before h as x + size_at h x \<le> live_before h as a" .
  ultimately show ?thesis using assms(5) by (simp add: psi_def)
qed

lemma psi_inj:
  assumes "tiled h 0 as e" and "x \<in> set as" and "y \<in> set as" and "live_at h x" and "live_at h y"
    and "psi h as p x = psi h as p y"
  shows "x = y"
proof (rule ccontr)
  assume ne: "x \<noteq> y"
  have pos: "\<And>z. z \<in> set as \<Longrightarrow> 0 < size_at h z" using tiled_bounds [OF assms(1)] by simp
  have lt: "\<And>u v. u \<in> set as \<Longrightarrow> v \<in> set as \<Longrightarrow> live_at h u \<Longrightarrow> u < v
                \<Longrightarrow> slide h as u < slide h as v"
  proof -
    fix u v assume u: "u \<in> set as" "v \<in> set as" "live_at h u" "u < v"
    from psi_below [OF assms(1) u(1,3,2,4)] pos [OF u(1)] u(4)
    show "slide h as u < slide h as v" by (simp add: psi_def)
  qed
  have sl: "\<And>z. slide h as z \<le> z" by (simp add: slide_def)
  consider "x < y" | "y < x" using ne by arith
  then show False
  proof cases
    case 1
    show False
    proof (cases "y < p")
      case True
      with 1 assms(6) lt [OF assms(2,3,4) 1] show False by (simp add: psi_def)
    next
      case False
      with 1 assms(6) sl [of x] show False by (auto simp: psi_def split: if_splits)
    qed
  next
    case 2
    show False
    proof (cases "x < p")
      case True
      with 2 assms(6) lt [OF assms(3,2,5) 2] show False by (simp add: psi_def)
    next
      case False
      with 2 assms(6) sl [of y] show False by (auto simp: psi_def split: if_splits)
    qed
  qed
qed

lemma slide_ptr_psi_inj:
  assumes "tiled (arena c) 0 as e" and "q \<in> dom_ptrs c as" and "r \<in> dom_ptrs c as"
    and "slide_ptr (psi (arena c) as p) q = slide_ptr (psi (arena c) as p) r"
  shows "q = r"
proof (cases q)
  case Null
  with assms(2) show ?thesis by (simp add: dom_ptrs_Null)
next
  case (Bucket j)
  with assms(4) show ?thesis by (cases r) simp_all
next
  case (Node x)
  with assms(4) obtain y where r: "r = Node y" and e: "psi (arena c) as p x = psi (arena c) as p y"
    by (cases r) simp_all
  from assms(2,3) Node r have "x \<in> set as" "y \<in> set as" "live_at (arena c) x" "live_at (arena c) y"
    by (simp_all add: dom_ptrs_Node)
  from psi_inj [OF assms(1) this e] Node r show ?thesis by simp
qed

lemma relink_shift:
  "slide_ptr f (next_ptr n) = slide_ptr g (next_ptr n)
   \<Longrightarrow> slide_ptr f (prev_ptr n) = slide_ptr g (prev_ptr n) \<Longrightarrow> relink f n = relink g n"
  by (simp add: relink_def)

lemma psi_shift:
  assumes "tiled h 0 (ds @ a # rs) e"
  shows "x \<in> set (ds @ a # rs) \<Longrightarrow> x \<noteq> a
           \<Longrightarrow> psi h as (a + size_at h a) x = psi h as a x"
    and "psi h as (a + size_at h a) a = slide h as a"
    and "psi h as a a = a"
proof -
  from tiled_gap [OF assms] have g: "\<forall>y\<in>set ds. y < a" "\<forall>y\<in>set rs. a + size_at h a \<le> y"
    "0 < size_at h a" by simp_all
  show "x \<in> set (ds @ a # rs) \<Longrightarrow> x \<noteq> a \<Longrightarrow> psi h as (a + size_at h a) x = psi h as a x"
    using g by (auto simp: psi_def)
  show "psi h as (a + size_at h a) a = slide h as a" using g(3) by (simp add: psi_def)
  show "psi h as a a = a" by (simp add: psi_def)
qed

lemma slide_ptr_shift:
  assumes "tiled (arena c) 0 (ds @ a # rs) e" and "r \<in> dom_ptrs c (ds @ a # rs) \<or> r = Null"
    and "r \<noteq> Node a"
  shows "slide_ptr (psi (arena c) as (a + size_at (arena c) a)) r
         = slide_ptr (psi (arena c) as a) r"
proof (cases r)
  case (Node x)
  with assms(2,3) have "x \<in> set (ds @ a # rs)" "x \<noteq> a" by (auto simp: dom_ptrs_Node)
  from psi_shift(1) [OF assms(1) this] Node show ?thesis by simp
qed simp_all

lemma linked_ptrs:
  assumes "linked c as" and "q \<in> dom_ptrs c as" and "get_node c q = Some n"
  shows "(next_ptr n = Null \<or> next_ptr n \<in> dom_ptrs c as)
         \<and> (prev_ptr n = Null \<or> prev_ptr n \<in> dom_ptrs c as)"
proof -
  have a: "next_ptr n = Null \<or> next_ptr n \<in> dom_ptrs c as"
    using assms unfolding linked_def by blast
  have b: "prev_ptr n = Null \<or> prev_ptr n \<in> dom_ptrs c as"
  proof (cases q)
    case Null
    with assms(2) show ?thesis by (simp add: dom_ptrs_Null)
  next
    case (Bucket j)
    with assms(2,3) have "j < length (buckets c)" "n = buckets c ! j"
      by (auto simp: dom_ptrs_Bucket get_node_def)
    with assms(1) show ?thesis unfolding linked_def by blast
  next
    case (Node x)
    with assms(3) have "arena c x = Some n" by (simp add: get_node_def)
    with assms(1,2) Node show ?thesis unfolding linked_def by blast
  qed
  from a b show ?thesis ..
qed

lemma linked_next_target:
  assumes "linked c as" and "q \<in> dom_ptrs c as" and "get_node c q = Some m"
    and "next_ptr m = Node a" and "arena c a = Some n0"
  shows "prev_ptr n0 = q"
proof -
  from assms(1,2,3,4) have "\<exists>b k. next_ptr m = Node b \<and> arena c b = Some k \<and> prev_ptr k = q"
    unfolding linked_def by (metis ptr.distinct(3))
  with assms(4,5) show ?thesis by auto
qed

lemma linked_prev_target:
  assumes "linked c as" and "q \<in> dom_ptrs c as" and "get_node c q = Some m"
    and "prev_ptr m = Node a" and "arena c a = Some n0"
  shows "next_ptr n0 = q"
proof (cases q)
  case Null
  with assms(2) show ?thesis by (simp add: dom_ptrs_Null)
next
  case (Bucket j)
  with assms(2,3) have "j < length (buckets c)" "m = buckets c ! j"
    by (auto simp: dom_ptrs_Bucket get_node_def)
  with assms(1) have "prev_ptr m = Null" unfolding linked_def by blast
  with assms(4) show ?thesis by simp
next
  case (Node x)
  with assms(3) have x: "arena c x = Some m" by (simp add: get_node_def)
  from assms(1,2) Node x
  have "\<exists>k. get_node c (prev_ptr m) = Some k \<and> next_ptr k = Node x"
    unfolding linked_def by blast
  with assms(4,5) Node show ?thesis by (simp add: get_node_def)
qed

lemma psi_outside:
  assumes "tiled h 0 (ds @ a # rs) e" and "x \<in> set (ds @ a # rs)" and "live_at h x" and "x \<noteq> a"
  shows "psi h (ds @ a # rs) a x < slide h (ds @ a # rs) a
         \<or> a + size_at h a \<le> psi h (ds @ a # rs) a x"
proof -
  from tiled_gap [OF assms(1)] have g: "\<forall>y\<in>set ds. y < a" "\<forall>y\<in>set rs. a + size_at h a \<le> y"
    by simp_all
  from assms(2,4) consider "x \<in> set ds" | "x \<in> set rs" by auto
  then show ?thesis
  proof cases
    case 1
    then have xa: "x < a" using g(1) by simp
    have ain: "a \<in> set (ds @ a # rs)" by simp
    from psi_below [OF assms(1,2,3) ain xa] tiled_bounds [OF assms(1,2)]
    show ?thesis by simp
  next
    case 2
    then have "a + size_at h a \<le> x" using g(2) by simp
    then show ?thesis by (simp add: psi_def)
  qed
qed

lemma same_frame_arena: "same_frame c (c\<lparr>arena := h\<rparr>)"
  by (simp add: same_frame_def)

text \<open>Passing a free entry.\<close>

lemma pk_free:
  assumes t: "tiled (arena c0) 0 as e" and s: "as = ds @ a # rs" and lk: "linked c0 as"
    and fr: "\<not> live_at (arena c0) a" and inv: "pk_inv c0 as a c"
  shows "pk_inv c0 as (a + size_at (arena c0) a) c"
proof -
  let ?h = "arena c0"
  let ?f = "psi ?h as a"
  let ?g = "psi ?h as (a + size_at ?h a)"
  have ts: "tiled ?h 0 (ds @ a # rs) e" using t s by simp
  have na: "Node a \<notin> dom_ptrs c0 as" using fr by (simp add: dom_ptrs_Node)
  have sh: "\<And>r. r \<in> dom_ptrs c0 as \<or> r = Null \<Longrightarrow> slide_ptr ?g r = slide_ptr ?f r"
  proof -
    fix r assume r: "r \<in> dom_ptrs c0 as \<or> r = Null"
    then have "r \<noteq> Node a" using na by auto
    with slide_ptr_shift [OF ts, of r as] r s show "slide_ptr ?g r = slide_ptr ?f r" by simp
  qed
  have "\<And>q. q \<in> dom_ptrs c0 as \<Longrightarrow>
          get_node c (slide_ptr ?g q) = map_option (relink ?g) (get_node c0 q)"
  proof -
    fix q assume q: "q \<in> dom_ptrs c0 as"
    from dom_ptrs_defined [OF q] obtain n where n: "get_node c0 q = Some n" by blast
    from linked_ptrs [OF lk q n] have
      "next_ptr n \<in> dom_ptrs c0 as \<or> next_ptr n = Null"
      "prev_ptr n \<in> dom_ptrs c0 as \<or> prev_ptr n = Null" by auto
    then have "relink ?g n = relink ?f n" by (intro relink_shift sh)
    moreover from inv q have "get_node c (slide_ptr ?f q) = map_option (relink ?f) (get_node c0 q)"
      by (simp add: pk_inv_def)
    ultimately show "get_node c (slide_ptr ?g q) = map_option (relink ?g) (get_node c0 q)"
      using sh [of q] q n by simp
  qed
  moreover have "\<And>x. x \<in> set as \<Longrightarrow> a + size_at ?h a \<le> x \<Longrightarrow> \<not> live_at ?h x
                   \<Longrightarrow> arena c x = ?h x"
    using inv by (simp add: pk_inv_def)
  ultimately show ?thesis using inv by (simp add: pk_inv_def)
qed

text \<open>Passing a live entry with no hole before it.\<close>

lemma pk_stay:
  assumes t: "tiled (arena c0) 0 as e" and s: "as = ds @ a # rs"
    and d: "freed_before (arena c0) as a = 0" and inv: "pk_inv c0 as a c"
    and live: "live_at (arena c0) a"
  shows "pk_inv c0 as (a + size_at (arena c0) a) c"
proof -
  let ?h = "arena c0"
  have ts: "tiled ?h 0 (ds @ a # rs) e" using t s by simp
  from tiled_gap [OF ts] have "0 < size_at ?h a" by simp
  have "\<And>x. psi ?h as (a + size_at ?h a) x = psi ?h as a x"
  proof -
    fix x
    show "psi ?h as (a + size_at ?h a) x = psi ?h as a x"
    proof (cases "x < a \<or> a + size_at ?h a \<le> x")
      case True
      then show ?thesis by (auto simp: psi_def)
    next
      case False
      then have x: "a \<le> x" "x < a + size_at ?h a" by auto
      have "freed_before ?h as x = 0"
      proof -
        from tiled_gap [OF ts] have g: "\<forall>y\<in>set ds. y < a" "\<forall>y\<in>set rs. a + size_at ?h a \<le> y"
          by simp_all
        have "before w (ds @ a # rs) x \<le> before w (ds @ a # rs) a + (if a < x then w a else 0)" for w
        proof -
          have r: "before w rs x = 0" using g(2) x by (intro before_none) auto
          have dd: "before w ds x = sum_list (map w ds)" using g(1) x by (intro before_all) auto
          have da: "before w ds a = sum_list (map w ds)" using g(1) by (intro before_all) auto
          have ra: "before w rs a = 0" using g(2) by (intro before_none) auto
          have sp: "\<And>y. before w (ds @ a # rs) y = before w ds y + (if a < y then w a else 0) + before w rs y"
            by (simp add: before_def)
          show ?thesis unfolding sp using r dd da ra by simp
        qed
        from this [of "\<lambda>a. if live_at ?h a then 0 else size_at ?h a"] d s
        have "freed_before ?h as x \<le> (if a < x then (if live_at ?h a then 0 else size_at ?h a) else 0)"
          by (simp add: freed_before_def)
        moreover have "freed_before ?h as a \<le> freed_before ?h as x"
          unfolding freed_before_def using x(1) by (rule before_mono)
        moreover have "(if a < x then (if live_at ?h a then 0 else size_at ?h a) else 0) = 0"
          using live by simp
        ultimately show ?thesis by simp
      qed
      then show ?thesis using x by (simp add: psi_def slide_def)
    qed
  qed
  then have "psi ?h as (a + size_at ?h a) = psi ?h as a" by (rule ext)
  with inv show ?thesis by (simp add: pk_inv_def)
qed

text \<open>Moving a live entry down over the holes before it.\<close>

lemma pk_move:
  assumes t: "tiled (arena c0) 0 as e" and s: "as = ds @ a # rs" and lk: "linked c0 as"
    and live: "live_at (arena c0) a" and inv: "pk_inv c0 as a c"
  shows "\<exists>c'. move_node (slide (arena c0) as a) a c = Some c'
           \<and> pk_inv c0 as (a + size_at (arena c0) a) c'"
proof -
  let ?h = "arena c0"
  let ?W = "get_node c0"
  let ?V = "get_node c"
  let ?D = "dom_ptrs c0 as"
  let ?f = "psi ?h as a"
  let ?g = "psi ?h as (a + size_at ?h a)"
  let ?F = "slide_ptr ?f"
  let ?G = "slide_ptr ?g"
  let ?dst = "slide ?h as a"
  have ts: "tiled ?h 0 (ds @ a # rs) e" using t s by simp
  have ain: "a \<in> set as" using s by simp
  have aD: "Node a \<in> ?D" using ain live by (simp add: dom_ptrs_Node)
  from live obtain n0 where n0: "?h a = Some n0" and nf: "\<not> is_free n0"
    by (auto simp: live_at_def split: option.splits)
  have V0a: "?W (Node a) = Some n0" using n0 by (simp add: get_node_def)
  have sz: "size_at ?h a = unat (node_size n0)" using n0 by (simp add: size_at_def)
  have fa: "?f a = a" by (simp add: psi_def)
  have ga: "?g a = ?dst" using psi_shift(2) [OF ts] by simp
  have dle: "?dst \<le> a" by (simp add: slide_def)
  have pos: "0 < size_at ?h a" using tiled_gap [OF ts] by simp
  have invq: "\<And>q. q \<in> ?D \<Longrightarrow> ?V (?F q) = map_option (relink ?f) (?W q)"
    using inv by (simp add: pk_inv_def)
  have inj: "\<And>q r. q \<in> ?D \<Longrightarrow> r \<in> ?D \<Longrightarrow> ?F q = ?F r \<Longrightarrow> q = r"
    using slide_ptr_psi_inj [OF t] by blast
  have sh: "\<And>r. r \<in> ?D \<or> r = Null \<Longrightarrow> r \<noteq> Node a \<Longrightarrow> ?G r = ?F r"
    using slide_ptr_shift [OF ts, of _ as] s by simp
  have out: "\<And>q x. q \<in> ?D \<Longrightarrow> q \<noteq> Node a \<Longrightarrow> ?F q = Node x
               \<Longrightarrow> x < ?dst \<or> a + size_at ?h a \<le> x"
  proof -
    fix q x assume q: "q \<in> ?D" "q \<noteq> Node a" "?F q = Node x"
    then obtain y where y: "q = Node y" "x = ?f y" by (cases q) auto
    with q have "y \<in> set (ds @ a # rs)" "live_at ?h y" "y \<noteq> a"
      using s by (auto simp: dom_ptrs_Node)
    from psi_outside [OF ts this] y s show "x < ?dst \<or> a + size_at ?h a \<le> x" by simp
  qed
  \<comment> \<open>the node at \<open>a\<close> and its predecessor\<close>
  let ?n = "relink ?f n0"
  have Va: "?V (Node a) = Some ?n" using invq [OF aD] fa V0a by simp
  have ca: "arena c a = Some ?n" using Va by (simp add: get_node_def)
  from lk aD n0 obtain m0 where
    pD: "prev_ptr n0 \<in> ?D" and pa: "prev_ptr n0 \<noteq> Node a" and pn: "prev_ptr n0 \<noteq> next_ptr n0"
    and m0: "?W (prev_ptr n0) = Some m0" and m0n: "next_ptr m0 = Node a"
    unfolding linked_def by blast
  let ?P = "?F (prev_ptr n0)"
  let ?mP = "relink ?f m0"
  have VP: "?V ?P = Some ?mP" using invq [OF pD] m0 by simp
  have Pa: "?P \<noteq> Node a"
  proof
    assume "?P = Node a"
    then have "?F (prev_ptr n0) = ?F (Node a)" using fa by simp
    from inj [OF pD aD this] pa show False by simp
  qed
  from set_next_view [OF VP, of "Node ?dst"] obtain c1 where
    c1: "set_next ?P (Node ?dst) c = Some c1"
    and V1: "get_node c1 = ?V(?P := Some (?mP\<lparr>next_ptr := Node ?dst\<rparr>))"
    and f1: "same_frame c c1" by blast
  have c1a: "arena c1 a = Some ?n" using V1 Va Pa by (simp add: get_node_Node [symmetric])
  \<comment> \<open>its successor, if any\<close>
  have succ: "\<exists>c2. (if next_ptr ?n \<noteq> Null then set_prev (next_ptr ?n) (Node ?dst) c1 else Some c1)
                  = Some c2
            \<and> same_frame c1 c2
            \<and> (\<forall>q. q \<in> ?D \<longrightarrow> q \<noteq> Node a \<longrightarrow> get_node c2 (?F q) = map_option (relink ?g) (?W q))
            \<and> get_node c2 (Node a) = Some ?n
            \<and> (\<forall>x. (\<forall>q. q \<in> ?D \<longrightarrow> ?F q \<noteq> Node x) \<longrightarrow> arena c2 x = arena c x)"
  proof (cases "next_ptr n0 = Null")
    case True
    have r: "\<And>q. q \<in> ?D \<Longrightarrow> q \<noteq> Node a \<Longrightarrow> get_node c1 (?F q) = map_option (relink ?g) (?W q)"
    proof -
      fix q assume q: "q \<in> ?D" "q \<noteq> Node a"
      from dom_ptrs_defined [OF q(1)] obtain k where k: "?W q = Some k" by blast
      from linked_ptrs [OF lk q(1) k] have kp:
        "next_ptr k \<in> ?D \<or> next_ptr k = Null" "prev_ptr k \<in> ?D \<or> prev_ptr k = Null" by auto
      have kpa: "prev_ptr k \<noteq> Node a"
      proof
        assume "prev_ptr k = Node a"
        from linked_prev_target [OF lk q(1) k this n0] True q(1) show False
          by (simp add: dom_ptrs_Null)
      qed
      show "get_node c1 (?F q) = map_option (relink ?g) (?W q)"
      proof (cases "q = prev_ptr n0")
        case True
        then have km: "k = m0" using k m0 by simp
        have "relink ?g m0 = ?mP\<lparr>next_ptr := Node ?dst\<rparr>"
          using m0n ga sh [OF kp(2) kpa] km by (simp add: relink_def)
        then show ?thesis using V1 True m0 by simp
      next
        case False
        then have ne: "?F q \<noteq> ?P" using inj [OF q(1) pD] by blast
        have kna: "next_ptr k \<noteq> Node a"
        proof
          assume "next_ptr k = Node a"
          from linked_next_target [OF lk q(1) k this n0] False show False by simp
        qed
        have "relink ?g k = relink ?f k"
          using sh [OF kp(1) kna] sh [OF kp(2) kpa] by (rule relink_shift)
        then show ?thesis using V1 ne invq [OF q(1)] k by simp
      qed
    qed
    have o: "\<And>x. (\<forall>q. q \<in> ?D \<longrightarrow> ?F q \<noteq> Node x) \<Longrightarrow> arena c1 x = arena c x"
    proof -
      fix x assume "\<forall>q. q \<in> ?D \<longrightarrow> ?F q \<noteq> Node x"
      with pD have "?P \<noteq> Node x" by blast
      with V1 show "arena c1 x = arena c x"
        by (simp add: get_node_Node [symmetric])
    qed
    show ?thesis using True r o c1a same_frame_refl [of c1] by (simp add: get_node_Node)
  next
    case False
    from lk aD V0a False obtain sa k0 where
      sD: "next_ptr n0 \<in> ?D" and sna: "next_ptr n0 \<noteq> Node a"
      and sN: "next_ptr n0 = Node sa" and k0: "?h sa = Some k0" and k0p: "prev_ptr k0 = Node a"
      unfolding linked_def by blast
    let ?S = "?F (next_ptr n0)"
    let ?kS = "relink ?f k0"
    have V0s: "?W (next_ptr n0) = Some k0" using sN k0 by (simp add: get_node_def)
    have SP: "?S \<noteq> ?P" using inj [OF sD pD] pn by auto
    have V1S: "get_node c1 ?S = Some ?kS" using V1 SP invq [OF sD] V0s by simp
    have Sa: "?S \<noteq> Node a"
    proof
      assume "?S = Node a"
      then have "?F (next_ptr n0) = ?F (Node a)" using fa by simp
      from inj [OF sD aD this] sna show False by simp
    qed
    have SN: "?S \<noteq> Null" using False by simp
    from set_prev_view [OF V1S, of "Node ?dst"] obtain c2 where
      c2: "set_prev ?S (Node ?dst) c1 = Some c2"
      and V2: "get_node c2 = (get_node c1)(?S := Some (?kS\<lparr>prev_ptr := Node ?dst\<rparr>))"
      and f2: "same_frame c1 c2" by blast
    have c2a: "get_node c2 (Node a) = Some ?n" using V2 V1 Va Pa Sa by simp
    have r: "\<And>q. q \<in> ?D \<Longrightarrow> q \<noteq> Node a \<Longrightarrow> get_node c2 (?F q) = map_option (relink ?g) (?W q)"
    proof -
      fix q assume q: "q \<in> ?D" "q \<noteq> Node a"
      from dom_ptrs_defined [OF q(1)] obtain k where k: "?W q = Some k" by blast
      from linked_ptrs [OF lk q(1) k] have kp:
        "next_ptr k \<in> ?D \<or> next_ptr k = Null" "prev_ptr k \<in> ?D \<or> prev_ptr k = Null" by auto
      show "get_node c2 (?F q) = map_option (relink ?g) (?W q)"
      proof (cases "q = prev_ptr n0")
        case True
        then have km: "k = m0" using k m0 by simp
        have kpa: "prev_ptr k \<noteq> Node a"
        proof
          assume "prev_ptr k = Node a"
          from linked_prev_target [OF lk q(1) k this n0] True pn show False by simp
        qed
        have "relink ?g m0 = ?mP\<lparr>next_ptr := Node ?dst\<rparr>"
          using m0n ga sh [OF kp(2) kpa] km by (simp add: relink_def)
        then show ?thesis using V2 V1 True m0 SP by simp
      next
        case nP: False
        then have ne: "?F q \<noteq> ?P" using inj [OF q(1) pD] by blast
        have kna: "next_ptr k \<noteq> Node a"
        proof
          assume "next_ptr k = Node a"
          from linked_next_target [OF lk q(1) k this n0] nP show False by simp
        qed
        show ?thesis
        proof (cases "q = next_ptr n0")
          case True
          then have kk: "k = k0" using k V0s by simp
          have "relink ?g k0 = ?kS\<lparr>prev_ptr := Node ?dst\<rparr>"
            using k0p ga sh [OF kp(1) kna] kk by (simp add: relink_def)
          then show ?thesis using V2 True V0s by simp
        next
          case False
          then have ne2: "?F q \<noteq> ?S" using inj [OF q(1) sD] by blast
          have kpa: "prev_ptr k \<noteq> Node a"
          proof
            assume "prev_ptr k = Node a"
            from linked_prev_target [OF lk q(1) k this n0] False show False by simp
          qed
          have "relink ?g k = relink ?f k"
            using sh [OF kp(1) kna] sh [OF kp(2) kpa] by (rule relink_shift)
          then show ?thesis using V2 V1 ne ne2 invq [OF q(1)] k by simp
        qed
      qed
    qed
    have o: "\<And>x. (\<forall>q. q \<in> ?D \<longrightarrow> ?F q \<noteq> Node x) \<Longrightarrow> arena c2 x = arena c x"
    proof -
      fix x assume "\<forall>q. q \<in> ?D \<longrightarrow> ?F q \<noteq> Node x"
      with pD sD have "?P \<noteq> Node x" "?S \<noteq> Node x" by blast+
      with V2 V1 show "arena c2 x = arena c x"
        by (simp add: get_node_Node [symmetric])
    qed
    show ?thesis using False c2 f2 r o c2a by simp
  qed
  then obtain c2 where
    c2: "(if next_ptr ?n \<noteq> Null then set_prev (next_ptr ?n) (Node ?dst) c1 else Some c1) = Some c2"
    and f2: "same_frame c1 c2"
    and r2: "\<And>q. q \<in> ?D \<Longrightarrow> q \<noteq> Node a \<Longrightarrow> get_node c2 (?F q) = map_option (relink ?g) (?W q)"
    and a2: "get_node c2 (Node a) = Some ?n"
    and o2: "\<And>x. (\<forall>q. q \<in> ?D \<longrightarrow> ?F q \<noteq> Node x) \<Longrightarrow> arena c2 x = arena c x"
    by blast
  let ?len = "unat (node_size ?n)"
  let ?c3 = "c2\<lparr>arena := overwrite ?dst ?len (Some ?n) (arena c2)\<rparr>"
  have mv: "move_node ?dst a c = Some ?c3"
    using ca c1 c1a c2 a2 by (simp add: move_node_def get_node_Node)
  have len: "?len = size_at ?h a" using sz by simp
  have f3: "same_frame c0 ?c3"
  proof -
    from inv have "same_frame c0 c" by (simp add: pk_inv_def)
    with f1 f2 same_frame_arena [of c2] show ?thesis by (blast intro: same_frame_trans)
  qed
  have g1: "\<And>q. q \<in> ?D \<Longrightarrow> get_node ?c3 (?G q) = map_option (relink ?g) (?W q)"
  proof -
    fix q assume q: "q \<in> ?D"
    show "get_node ?c3 (?G q) = map_option (relink ?g) (?W q)"
    proof (cases "q = Node a")
      case True
      have "relink ?g n0 = ?n"
      proof (rule relink_shift)
        from linked_ptrs [OF lk aD V0a] have
          "next_ptr n0 \<in> ?D \<or> next_ptr n0 = Null" "prev_ptr n0 \<in> ?D \<or> prev_ptr n0 = Null"
          by auto
        moreover have "next_ptr n0 \<noteq> Node a"
          using lk aD V0a unfolding linked_def by (cases "next_ptr n0 = Null") auto
        ultimately show "?G (next_ptr n0) = ?F (next_ptr n0)" "?G (prev_ptr n0) = ?F (prev_ptr n0)"
          using sh pa by auto
      qed
      then show ?thesis using True ga V0a by (simp add: get_node_def overwrite_def)
    next
      case False
      have e: "?G q = ?F q" using sh q False by simp
      have "get_node ?c3 (?F q) = get_node c2 (?F q)"
      proof (cases "?F q")
        case (Node x)
        from out [OF q False Node] len dle pos show ?thesis
          using Node by (auto simp: get_node_def overwrite_def)
      qed (simp_all add: get_node_def)
      with r2 [OF q False] e show ?thesis by simp
    qed
  qed
  have g2: "\<And>x. x \<in> set as \<Longrightarrow> a + size_at ?h a \<le> x \<Longrightarrow> \<not> live_at ?h x
             \<Longrightarrow> arena ?c3 x = ?h x"
  proof -
    fix x assume x: "x \<in> set as" "a + size_at ?h a \<le> x" "\<not> live_at ?h x"
    have "\<forall>q. q \<in> ?D \<longrightarrow> ?F q \<noteq> Node x"
    proof (intro allI impI notI)
      fix q assume q: "q \<in> ?D" "?F q = Node x"
      then obtain y where y: "q = Node y" "x = ?f y" by (cases q) auto
      with q have yl: "live_at ?h y" "y \<in> set as" by (simp_all add: dom_ptrs_Node)
      show False
      proof (cases "y < a")
        case True
        with y(2) psi_le [of ?h as a y] x(2) show False by simp
      next
        case False
        with y(2) have "x = y" by (simp add: psi_def)
        with yl x(3) show False by simp
      qed
    qed
    from o2 [OF this] have "arena c2 x = arena c x" .
    moreover from inv x have "arena c x = ?h x" by (simp add: pk_inv_def)
    moreover have "arena ?c3 x = arena c2 x"
      using x(2) len dle pos by (simp add: overwrite_def)
    ultimately show "arena ?c3 x = ?h x" by simp
  qed
  have "pk_inv c0 as (a + size_at ?h a) ?c3"
    unfolding pk_inv_def using f3 g1 g2 by blast
  with mv show ?thesis by blast
qed

text \<open>The loop of \<^verbatim>\<open>pack_buffer\<close> keeps the invariant up to the frontier.\<close>

lemma pk_inv_at:
  assumes inv: "pk_inv c0 as a c" and ain: "a \<in> set as" and n0: "arena c0 a = Some n0"
  shows "\<exists>n. arena c a = Some n \<and> node_size n = node_size n0 \<and> is_free n = is_free n0"
proof (cases "live_at (arena c0) a")
  case True
  then have "Node a \<in> dom_ptrs c0 as" using ain by (simp add: dom_ptrs_Node)
  with inv have "get_node c (slide_ptr (psi (arena c0) as a) (Node a))
                 = map_option (relink (psi (arena c0) as a)) (get_node c0 (Node a))"
    unfolding pk_inv_def by blast
  then have "arena c a = Some (relink (psi (arena c0) as a) n0)"
    using n0 by (simp add: psi_def get_node_def)
  then show ?thesis by simp
next
  case False
  with inv ain have "arena c a = arena c0 a" unfolding pk_inv_def by simp
  then show ?thesis using n0 by simp
qed

lemma pack_loop_inv:
  assumes t: "tiled (arena c0) 0 as e" and lk: "linked c0 as"
  shows "as = ds @ rs \<Longrightarrow> tiled (arena c0) p rs e \<Longrightarrow> pk_inv c0 as p c
         \<Longrightarrow> d = freed_before (arena c0) as p
         \<Longrightarrow> \<exists>c'. pack_loop p e d c = Some (freed_before (arena c0) as e, c') \<and> pk_inv c0 as e c'"
proof (induction rs arbitrary: ds p c d)
  case Nil
  then have "p = e" by simp
  with Nil show ?case by simp
next
  case (Cons a rs)
  let ?h = "arena c0"
  from Cons.prems(2) obtain n0 where pa: "p = a" and n0: "?h a = Some n0"
    and nz: "node_size n0 \<noteq> 0" and tr: "tiled ?h (a + unat (node_size n0)) rs e"
    by (auto split: option.splits)
  have sz: "size_at ?h a = unat (node_size n0)" using n0 by (simp add: size_at_def)
  have s: "as = ds @ a # rs" using Cons.prems(1) .
  have ts: "tiled ?h 0 (ds @ a # rs) e" using t s by simp
  have ain: "a \<in> set as" using s by simp
  have inv: "pk_inv c0 as a c" using Cons.prems(3) pa by simp
  from pk_inv_at [OF inv ain n0] obtain n where n: "arena c a = Some n"
    and ns: "node_size n = node_size n0" and nf: "is_free n = is_free n0" by blast
  have pos: "0 < unat (node_size n0)" using nz by (simp add: unat_gt_0)
  from tiled_le [OF tr] pos have ae: "a \<noteq> e" "\<not> e < a" by simp_all
  have live: "live_at ?h a = (\<not> is_free n0)" using n0 by (simp add: live_at_def)
  have d: "d = freed_before ?h as a" using Cons.prems(4) pa by simp
  have s': "as = (ds @ [a]) @ rs" using s by simp
  let ?w = "\<lambda>a. if live_at ?h a then 0 else size_at ?h a"
  have fb: "freed_before ?h as (a + unat (node_size n0)) = d + ?w a"
    using before_at [OF ts, of ?w] d s sz by (simp add: freed_before_def)
  show ?case
  proof (cases "is_free n0")
    case True
    then have fr: "\<not> live_at ?h a" using live by simp
    from pk_free [OF t s lk fr inv] have i: "pk_inv c0 as (a + unat (node_size n0)) c"
      using sz by simp
    have d': "d + unat (node_size n0) = freed_before ?h as (a + unat (node_size n0))"
      using fb fr sz by simp
    have fl: "(next_ptr n = Null \<and> prev_ptr n = Null) = True"
      using nf True by (simp add: is_free_def)
    have step: "pack_loop p e d c
                = pack_loop (a + unat (node_size n0)) e (d + unat (node_size n0)) c"
      by (subst pack_loop.simps) (simp add: pa ae n ns nz fl)
    from Cons.IH [OF s' tr i d'] show ?thesis unfolding step .
  next
    case False
    then have lv: "live_at ?h a" using live by simp
    have d': "d = freed_before ?h as (a + unat (node_size n0))" using fb lv by simp
    have fl: "(next_ptr n = Null \<and> prev_ptr n = Null) = False"
      using nf False by (simp add: is_free_def)
    show ?thesis
    proof (cases "0 < d")
      case True
      from pk_move [OF t s lk lv inv] obtain c1 where
        mv: "move_node (slide ?h as a) a c = Some c1"
        and i: "pk_inv c0 as (a + unat (node_size n0)) c1" using sz by auto
      have mv': "move_node (a - d) a c = Some c1" using mv d by (simp add: slide_def)
      have step: "pack_loop p e d c = pack_loop (a + unat (node_size n0)) e d c1"
        by (subst pack_loop.simps) (simp add: pa ae n ns nz fl True mv')
      from Cons.IH [OF s' tr i d'] show ?thesis unfolding step .
    next
      case z: False
      then have "freed_before ?h as a = 0" using d by simp
      from pk_stay [OF t s this inv lv] have i: "pk_inv c0 as (a + unat (node_size n0)) c"
        using sz by simp
      have step: "pack_loop p e d c = pack_loop (a + unat (node_size n0)) e d c"
        by (subst pack_loop.simps) (simp add: pa ae n ns nz fl z)
      from Cons.IH [OF s' tr i d'] show ?thesis unfolding step .
    qed
  qed
qed

lemma pk_inv_start: "pk_inv c as 0 c"
proof -
  have "\<And>r. slide_ptr (psi (arena c) as 0) r = r"
    by (simp add: slide_ptr_def psi_def split: ptr.splits)
  then have r: "relink (psi (arena c) as 0) = (\<lambda>n. n)" by (simp add: relink_def fun_eq_iff)
  show ?thesis
    unfolding pk_inv_def r
    by (auto simp: same_frame_refl slide_ptr_def psi_def option.map_ident split: ptr.splits)
qed

lemma pack_loop_total:
  assumes t: "tiled (arena c) 0 as (next_p c)" and lk: "linked c as"
  shows "\<exists>c'. pack_loop 0 (next_p c) 0 c = Some (freed_before (arena c) as (next_p c), c')
              \<and> pk_inv c as (next_p c) c'"
proof -
  have "0 = freed_before (arena c) as 0" by (simp add: freed_before_def before_def)
  from pack_loop_inv [OF t lk _ t pk_inv_start this, of "[]"] show ?thesis by simp
qed

text \<open>The links of a member of a doubly-linked list.\<close>

lemma dl_member:
  assumes d: "dl V p0 L" and di: "distinct (p0 # L)" and q: "q \<in> set (p0 # L)"
    and n: "V q = Some n" and nn: "Null \<notin> set (p0 # L)"
  shows "next_ptr n \<noteq> Null \<longrightarrow>
           next_ptr n \<in> set L \<and> next_ptr n \<noteq> q \<and> (\<exists>m. V (next_ptr n) = Some m \<and> prev_ptr m = q)"
    and "q \<noteq> p0 \<longrightarrow>
           prev_ptr n \<in> set (p0 # L) \<and> prev_ptr n \<noteq> q \<and> prev_ptr n \<noteq> next_ptr n
           \<and> (\<exists>m. V (prev_ptr n) = Some m \<and> next_ptr m = q)"
proof -
  show "next_ptr n \<noteq> Null \<longrightarrow>
           next_ptr n \<in> set L \<and> next_ptr n \<noteq> q \<and> (\<exists>m. V (next_ptr n) = Some m \<and> prev_ptr m = q)"
  proof (cases "q = p0")
    case True
    show ?thesis
    proof (cases L)
      case Nil
      with d n True show ?thesis by simp
    next
      case (Cons y ys)
      with d n True di show ?thesis by (auto split: option.splits)
    qed
  next
    case False
    with q have "q \<in> set L" by simp
    then obtain xs ys where L: "L = xs @ q # ys" by (auto simp: in_set_conv_decomp)
    from dl_at [OF d [unfolded L]] n have
      nx: "next_ptr n = (case ys of [] \<Rightarrow> Null | y # _ \<Rightarrow> y)"
      and pv: "(case ys of [] \<Rightarrow> True | y # _ \<Rightarrow> (case V y of None \<Rightarrow> False | Some k \<Rightarrow> prev_ptr k = q))"
      by auto
    show ?thesis
    proof (cases ys)
      case Nil
      with nx show ?thesis by simp
    next
      case (Cons y ys')
      with nx pv di L show ?thesis by (auto split: option.splits)
    qed
  qed
  show "q \<noteq> p0 \<longrightarrow>
           prev_ptr n \<in> set (p0 # L) \<and> prev_ptr n \<noteq> q \<and> prev_ptr n \<noteq> next_ptr n
           \<and> (\<exists>m. V (prev_ptr n) = Some m \<and> next_ptr m = q)"
  proof
    assume "q \<noteq> p0"
    with q have "q \<in> set L" by simp
    then obtain xs ys where L: "L = xs @ q # ys" by (auto simp: in_set_conv_decomp)
    from dl_at [OF d [unfolded L]] n obtain m where
      pr: "prev_ptr n = last (p0 # xs)" and m: "V (last (p0 # xs)) = Some m" "next_ptr m = q"
      and nx: "next_ptr n = (case ys of [] \<Rightarrow> Null | y # _ \<Rightarrow> y)"
      by auto
    have lin: "last (p0 # xs) \<in> set (p0 # xs)" by (rule last_in_set) simp
    have a: "prev_ptr n \<in> set (p0 # L)" using pr lin L by auto
    have b: "prev_ptr n \<noteq> q" using pr lin di L by auto
    have c: "prev_ptr n \<noteq> next_ptr n"
    proof (cases ys)
      case Nil
      with nx have "next_ptr n = Null" by simp
      with a nn show ?thesis by auto
    next
      case (Cons y ys')
      with nx have "next_ptr n \<in> set ys" by simp
      with pr lin di L show ?thesis by auto
    qed
    from a b c m pr show "prev_ptr n \<in> set (p0 # L) \<and> prev_ptr n \<noteq> q \<and> prev_ptr n \<noteq> next_ptr n
           \<and> (\<exists>m. V (prev_ptr n) = Some m \<and> next_ptr m = q)" by simp
  qed
qed

lemma packable_chain:
  assumes p: "packable c as bl" and j: "j < length bl"
  shows "dl (get_node c) (Bucket j) (map Node (bl ! j))"
    and "distinct (Bucket j # map Node (bl ! j))"
    and "Null \<notin> set (Bucket j # map Node (bl ! j))"
    and "set (Bucket j # map Node (bl ! j)) \<subseteq> dom_ptrs c as"
    and "set (bl ! j) \<subseteq> set as" and "\<forall>a\<in>set (bl ! j). live_at (arena c) a"
    and "distinct (bl ! j)"
proof -
  from p j show "dl (get_node c) (Bucket j) (map Node (bl ! j))" by (simp add: packable_def)
  have m: "bl ! j \<in> set bl" using j by simp
  from p have "distinct (concat bl)" by (simp add: packable_def)
  with m show dj: "distinct (bl ! j)" by (auto simp: distinct_concat_iff)
  then show "distinct (Bucket j # map Node (bl ! j))" by (auto simp: distinct_map inj_on_def)
  show "Null \<notin> set (Bucket j # map Node (bl ! j))" by auto
  from m have "set (bl ! j) \<subseteq> set (concat bl)" by auto
  with p have s: "set (bl ! j) \<subseteq> set (filter (live_at (arena c)) as)" by (simp add: packable_def)
  then show "set (bl ! j) \<subseteq> set as" "\<forall>a\<in>set (bl ! j). live_at (arena c) a" by auto
  from s p j show "set (Bucket j # map Node (bl ! j)) \<subseteq> dom_ptrs c as"
    by (auto simp: dom_ptrs_def packable_def)
qed

lemma packable_dom:
  assumes p: "packable c as bl" and q: "q \<in> dom_ptrs c as"
  shows "\<exists>j<length bl. q \<in> set (Bucket j # map Node (bl ! j))"
proof (cases q)
  case Null
  with q show ?thesis by (simp add: dom_ptrs_Null)
next
  case (Bucket j)
  with q p show ?thesis by (auto simp: dom_ptrs_Bucket packable_def)
next
  case (Node a)
  with q have "a \<in> set (filter (live_at (arena c)) as)" by (simp add: dom_ptrs_Node)
  with p have "a \<in> set (concat bl)" by (simp add: packable_def)
  then obtain ys where "ys \<in> set bl" "a \<in> set ys" by auto
  then obtain j where "j < length bl" "a \<in> set (bl ! j)" by (auto simp: in_set_conv_nth)
  with Node show ?thesis by auto
qed

lemma packable_linked:
  assumes p: "packable c as bl"
  shows "linked c as"
proof -
  let ?V = "get_node c"
  let ?D = "dom_ptrs c as"
  have a: "\<And>q n. q \<in> ?D \<Longrightarrow> ?V q = Some n \<Longrightarrow> next_ptr n \<noteq> Null \<Longrightarrow>
          next_ptr n \<in> ?D \<and> next_ptr n \<noteq> q
          \<and> (\<exists>b m. next_ptr n = Node b \<and> arena c b = Some m \<and> prev_ptr m = q)"
  proof -
    fix q n assume q: "q \<in> ?D" and n: "?V q = Some n" and x: "next_ptr n \<noteq> Null"
    from packable_dom [OF p q] obtain j where j: "j < length bl"
      and qj: "q \<in> set (Bucket j # map Node (bl ! j))" by blast
    from dl_member(1) [OF packable_chain(1,2) [OF p j] qj n packable_chain(3) [OF p j]] x
    obtain m where r: "next_ptr n \<in> set (map Node (bl ! j))" "next_ptr n \<noteq> q"
      "?V (next_ptr n) = Some m" "prev_ptr m = q" by blast
    from r(1) obtain b where b: "next_ptr n = Node b" by auto
    from r(1) packable_chain(4) [OF p j] have "next_ptr n \<in> ?D" by auto
    with r b show "next_ptr n \<in> ?D \<and> next_ptr n \<noteq> q
          \<and> (\<exists>b m. next_ptr n = Node b \<and> arena c b = Some m \<and> prev_ptr m = q)"
      by (simp add: get_node_def)
  qed
  have b: "\<And>a n. Node a \<in> ?D \<Longrightarrow> arena c a = Some n \<Longrightarrow>
          prev_ptr n \<in> ?D \<and> prev_ptr n \<noteq> Node a \<and> prev_ptr n \<noteq> next_ptr n
          \<and> (\<exists>m. ?V (prev_ptr n) = Some m \<and> next_ptr m = Node a)"
  proof -
    fix a n assume q: "Node a \<in> ?D" and n: "arena c a = Some n"
    from packable_dom [OF p q] obtain j where j: "j < length bl"
      and qj: "Node a \<in> set (Bucket j # map Node (bl ! j))" by blast
    have n': "?V (Node a) = Some n" using n by (simp add: get_node_def)
    from dl_member(2) [OF packable_chain(1,2) [OF p j] qj n' packable_chain(3) [OF p j]]
    obtain m where r: "prev_ptr n \<in> set (Bucket j # map Node (bl ! j))" "prev_ptr n \<noteq> Node a"
      "prev_ptr n \<noteq> next_ptr n" "?V (prev_ptr n) = Some m" "next_ptr m = Node a" by auto
    from r(1) packable_chain(4) [OF p j] have "prev_ptr n \<in> ?D" by blast
    with r show "prev_ptr n \<in> ?D \<and> prev_ptr n \<noteq> Node a \<and> prev_ptr n \<noteq> next_ptr n
          \<and> (\<exists>m. ?V (prev_ptr n) = Some m \<and> next_ptr m = Node a)" by simp
  qed
  have c: "\<And>j. j < length (buckets c) \<Longrightarrow> prev_ptr (buckets c ! j) = Null"
    using p by (simp add: packable_def)
  show ?thesis unfolding linked_def using a b c by blast
qed

lemma get_node_next_p [simp]: "get_node (c\<lparr>next_p := v\<rparr>) = get_node c"
  by (simp add: get_node_def fun_eq_iff split: ptr.splits)

text \<open>A doubly-linked list is carried along by a relocation of its members.\<close>

lemma dl_image:
  assumes "\<And>q. q \<in> set (p # ps) \<Longrightarrow> V' (slide_ptr f q) = map_option (relink f) (V q)"
  shows "dl V p ps \<Longrightarrow> dl V' (slide_ptr f p) (map (slide_ptr f) ps)"
  using assms
proof (induction ps arbitrary: p)
  case Nil
  then show ?case by (auto split: option.splits)
next
  case (Cons q qs)
  from Cons.prems(1) obtain n m where n: "V p = Some n" "next_ptr n = q"
    and m: "V q = Some m" "prev_ptr m = p" and r: "dl V q qs"
    by (auto split: option.splits)
  have 1: "V' (slide_ptr f p) = Some (relink f n)" using Cons.prems(2) [of p] n by simp
  have 2: "V' (slide_ptr f q) = Some (relink f m)" using Cons.prems(2) [of q] m by simp
  have 3: "dl V' (slide_ptr f q) (map (slide_ptr f) qs)"
    using Cons.IH [OF r] Cons.prems(2) by simp
  show ?case using 1 2 3 n m by simp
qed

text \<open>After the pass the live entries tile the arena up to the new frontier.\<close>

lemma tiled_packed:
  assumes t: "tiled h 0 as e"
    and h': "\<And>a. a \<in> set as \<Longrightarrow> live_at h a
              \<Longrightarrow> \<exists>n. h' (slide h as a) = Some n \<and> unat (node_size n) = size_at h a"
  shows "as = ds @ rs \<Longrightarrow> tiled h p rs e
         \<Longrightarrow> tiled h' (live_before h as p) (map (slide h as) (filter (live_at h) rs))
               (live_before h as e)"
proof (induction rs arbitrary: ds p)
  case Nil
  then show ?case by simp
next
  case (Cons a rs)
  from Cons.prems(2) obtain n0 where pa: "p = a" and n0: "h a = Some n0"
    and nz: "node_size n0 \<noteq> 0" and tr: "tiled h (a + unat (node_size n0)) rs e"
    by (auto split: option.splits)
  have sz: "size_at h a = unat (node_size n0)" using n0 by (simp add: size_at_def)
  have s: "as = ds @ a # rs" using Cons.prems(1) .
  have ts: "tiled h 0 (ds @ a # rs) e" using t s by simp
  have ain: "a \<in> set as" using s by simp
  have s': "as = (ds @ [a]) @ rs" using s by simp
  let ?w = "\<lambda>a. if live_at h a then size_at h a else 0"
  have lb: "live_before h as (a + unat (node_size n0)) = live_before h as a + ?w a"
    using before_at [OF ts, of ?w] s sz by (simp add: live_before_def)
  note ih = Cons.IH [OF s' tr]
  show ?case
  proof (cases "live_at h a")
    case True
    from h' [OF ain True] obtain n where n: "h' (slide h as a) = Some n"
      "unat (node_size n) = size_at h a" by blast
    have sl: "slide h as a = live_before h as a"
      using slide_eq_live_before(1) [OF t] ain by simp
    have nz': "node_size n \<noteq> 0" using n(2) sz nz by (auto simp: unat_eq_0)
    show ?thesis using True pa n sl nz' ih lb sz by simp
  next
    case False
    then show ?thesis using pa ih lb by simp
  qed
qed

lemma psi_end:
  assumes t: "tiled h 0 as e" and x: "x \<in> set as"
  shows "psi h as e x = slide h as x"
  using tiled_bounds [OF t x] by (simp add: psi_def)

lemma slide_ptr_end:
  assumes t: "tiled (arena c) 0 as e" and r: "r \<in> dom_ptrs c as \<or> r = Null"
  shows "slide_ptr (psi (arena c) as e) r = slide_ptr (slide (arena c) as) r"
proof (cases r)
  case (Node x)
  with r have "x \<in> set as" by (simp add: dom_ptrs_Node)
  with psi_end [OF t] Node show ?thesis by simp
qed simp_all

lemma sum_live:
  "sum_list (map (\<lambda>a. if P a then f a else (0::nat)) as) = sum_list (map f (filter P as))"
  by (induction as) simp_all

lemma sum_dead:
  "sum_list (map (\<lambda>a. if P a then (0::nat) else f a) as)
   = sum_list (map f (filter (\<lambda>a. \<not> P a) as))"
  by (induction as) simp_all

lemma pack_buffer_relocates:
  assumes p: "packable c as bl"
  shows "\<exists>c'. pack_buffer c = Some c'
           \<and> same_frame c (c'\<lparr>next_p := next_p c\<rparr>)
           \<and> next_p c' = next_p c - freed_before (arena c) as (next_p c)
           \<and> (\<forall>q. q \<in> dom_ptrs c as \<longrightarrow>
                 get_node c' (slide_ptr (slide (arena c) as) q)
                 = map_option (relink (slide (arena c) as)) (get_node c q))"
proof -
  let ?h = "arena c"
  let ?e = "next_p c"
  from p have t: "tiled ?h 0 as ?e" by (simp add: packable_def)
  have lk: "linked c as" using p by (rule packable_linked)
  from pack_loop_total [OF t lk] obtain c1 where
    l: "pack_loop 0 ?e 0 c = Some (freed_before ?h as ?e, c1)" and inv: "pk_inv c as ?e c1"
    by blast
  let ?c' = "c1\<lparr>next_p := next_p c1 - freed_before ?h as ?e\<rparr>"
  have pb: "pack_buffer c = Some ?c'" using l by (simp add: pack_buffer_def)
  from inv have f: "same_frame c c1" by (simp add: pk_inv_def)
  then have np: "next_p c1 = ?e" unfolding same_frame_def by (cases c, cases c1) auto
  have f': "same_frame c (?c'\<lparr>next_p := ?e\<rparr>)"
    using f np unfolding same_frame_def by (cases c, cases c1) auto
  have r: "\<And>q. q \<in> dom_ptrs c as \<Longrightarrow>
              get_node ?c' (slide_ptr (slide ?h as) q)
              = map_option (relink (slide ?h as)) (get_node c q)"
  proof -
    fix q assume q: "q \<in> dom_ptrs c as"
    from dom_ptrs_defined [OF q] obtain n where n: "get_node c q = Some n" by blast
    from linked_ptrs [OF lk q n] have
      "next_ptr n \<in> dom_ptrs c as \<or> next_ptr n = Null"
      "prev_ptr n \<in> dom_ptrs c as \<or> prev_ptr n = Null" by auto
    then have "relink (psi ?h as ?e) n = relink (slide ?h as) n"
      using slide_ptr_end [OF t] by (intro relink_shift) simp_all
    moreover have "slide_ptr (psi ?h as ?e) q = slide_ptr (slide ?h as) q"
      using slide_ptr_end [OF t] q by simp
    moreover from inv q have "get_node c1 (slide_ptr (psi ?h as ?e) q)
        = map_option (relink (psi ?h as ?e)) (get_node c q)" unfolding pk_inv_def by blast
    ultimately show "get_node ?c' (slide_ptr (slide ?h as) q)
              = map_option (relink (slide ?h as)) (get_node c q)" using n by simp
  qed
  show ?thesis using pb f' np r by auto
qed

text \<open>
  C8. Compaction of a well-formed cache --- the entries at the offsets \<open>as\<close> tile the
  arena from its start to the frontier, and the bucket lists \<open>bl\<close> hold exactly the
  entries that are not free --- returns. It leaves everything but the arena, the bucket
  array's links and the frontier as it was; the frontier has decreased by the total size
  of the free entries, and is now the total size of the live entries; the live entry
  that was at offset \<open>a\<close> is now at \<open>slide (arena c) as a\<close>, that is \<open>a\<close> less the total size
  of the free entries before it, with the same content; every bucket's list is the list
  it was, at the new offsets; and the live entries, in their order, tile the arena from
  its start to the new frontier.
\<close>

theorem pack_buffer_slides_live_entries:
  assumes "packable c as bl"
  shows "\<exists>c'. pack_buffer c = Some c'
           \<and> same_frame c (c'\<lparr>next_p := next_p c\<rparr>)
           \<and> next_p c' = next_p c
               - sum_list (map (size_at (arena c)) (filter (\<lambda>a. \<not> live_at (arena c) a) as))
           \<and> next_p c' = sum_list (map (size_at (arena c)) (filter (live_at (arena c)) as))
           \<and> (\<forall>a\<in>set as. live_at (arena c) a \<longrightarrow>
                 map_option content (arena c' (slide (arena c) as a))
                 = map_option content (arena c a))
           \<and> (\<forall>j<length bl. bucket_chain c' j (map (slide (arena c) as) (bl ! j)))
           \<and> tiled (arena c') 0 (map (slide (arena c) as) (filter (live_at (arena c)) as))
                (next_p c')"
proof -
  let ?h = "arena c"
  let ?e = "next_p c"
  let ?s = "slide ?h as"
  from assms have t: "tiled ?h 0 as ?e" by (simp add: packable_def)
  from pack_buffer_relocates [OF assms] obtain c' where
    pb: "pack_buffer c = Some c'" and f: "same_frame c (c'\<lparr>next_p := ?e\<rparr>)"
    and np: "next_p c' = ?e - freed_before ?h as ?e"
    and r: "\<And>q. q \<in> dom_ptrs c as \<Longrightarrow>
              get_node c' (slide_ptr ?s q) = map_option (relink ?s) (get_node c q)"
    by blast
  have fb: "freed_before ?h as ?e
            = sum_list (map (size_at ?h) (filter (\<lambda>a. \<not> live_at ?h a) as))"
    using before_end [OF t] by (simp add: freed_before_def sum_dead)
  have lb: "live_before ?h as ?e = sum_list (map (size_at ?h) (filter (live_at ?h) as))"
    using before_end [OF t] by (simp add: live_before_def sum_live)
  have le: "live_before ?h as ?e = ?e - freed_before ?h as ?e"
    using slide_eq_live_before(1) [OF t, of ?e] by (simp add: slide_def)
  have at: "\<And>a. a \<in> set as \<Longrightarrow> live_at ?h a
              \<Longrightarrow> \<exists>n0. ?h a = Some n0 \<and> arena c' (?s a) = Some (relink ?s n0)"
  proof -
    fix a assume a: "a \<in> set as" "live_at ?h a"
    then obtain n0 where n0: "?h a = Some n0" by (auto simp: live_at_def split: option.splits)
    from a have "Node a \<in> dom_ptrs c as" by (simp add: dom_ptrs_Node)
    from r [OF this] n0 show "\<exists>n0. ?h a = Some n0 \<and> arena c' (?s a) = Some (relink ?s n0)"
      by (simp add: get_node_def)
  qed
  have 1: "\<forall>a\<in>set as. live_at ?h a \<longrightarrow>
             map_option content (arena c' (?s a)) = map_option content (?h a)"
    using at by fastforce
  have 2: "\<forall>j<length bl. bucket_chain c' j (map ?s (bl ! j))"
  proof (intro allI impI)
    fix j assume j: "j < length bl"
    note ch = packable_chain [OF assms j]
    have "dl (get_node c') (slide_ptr ?s (Bucket j)) (map (slide_ptr ?s) (map Node (bl ! j)))"
    proof (rule dl_image [OF _ ch(1)])
      fix q assume "q \<in> set (Bucket j # map Node (bl ! j))"
      with ch(4) have "q \<in> dom_ptrs c as" by blast
      then show "get_node c' (slide_ptr ?s q) = map_option (relink ?s) (get_node c q)" by (rule r)
    qed
    then have d: "dl (get_node c') (Bucket j) (map Node (map ?s (bl ! j)))"
      by (simp add: comp_def)
    have "inj_on ?s (set (bl ! j))"
    proof (rule inj_onI)
      fix x y assume xy: "x \<in> set (bl ! j)" "y \<in> set (bl ! j)" "?s x = ?s y"
      with ch(5,6) have m: "x \<in> set as" "y \<in> set as" "live_at ?h x" "live_at ?h y" by auto
      from xy(3) psi_end [OF t] m(1,2) have "psi ?h as ?e x = psi ?h as ?e y" by simp
      from psi_inj [OF t m this] show "x = y" .
    qed
    with ch(7) have di: "distinct (map ?s (bl ! j))" by (simp add: distinct_map)
    from f have "length (buckets c') = length (buckets c)" by (simp add: same_frame_def)
    with assms j have "j < length (buckets c')" by (simp add: packable_def)
    with d di show "bucket_chain c' j (map ?s (bl ! j))" by (simp add: bucket_chain_def)
  qed
  have "tiled (arena c') (live_before ?h as 0) (map ?s (filter (live_at ?h) as))
          (live_before ?h as ?e)"
  proof (rule tiled_packed [OF t _ _ t, of _ "[]"])
    fix a assume a: "a \<in> set as" "live_at ?h a"
    from at [OF this] show "\<exists>n. arena c' (?s a) = Some n \<and> unat (node_size n) = size_at ?h a"
      by (auto simp: size_at_def)
  qed simp
  then have 3: "tiled (arena c') 0 (map ?s (filter (live_at ?h) as)) (next_p c')"
    using le np by (simp add: live_before_def before_def)
  show ?thesis using pb f np fb lb le 1 2 3 by auto
qed

lemma all_less_two: "(\<forall>j<Suc (Suc 0). P j) \<longleftrightarrow> P 0 \<and> P (Suc 0)"
  by (auto simp: less_Suc_eq)

theorem pack_buffer_slides_live_entries_witness:
  "packable one_hole [0, 40] [[], [40]]
   \<and> (\<exists>c'. pack_buffer one_hole = Some c'
          \<and> next_p c' = 36
          \<and> bucket_chain c' 1 [0]
          \<and> map_option content (arena c' 0) = map_option content (arena one_hole 40)
          \<and> tiled (arena c') 0 [0] (next_p c'))"
proof -
  have l: "live_at (arena one_hole) 40" "\<not> live_at (arena one_hole) 0"
    by (simp_all add: live_at_def is_free_def one_hole_def)
  have sz: "size_at (arena one_hole) 0 = 40" "size_at (arena one_hole) 40 = 36"
    by (simp_all add: size_at_def one_hole_def)
  have t: "tiled (arena one_hole) 0 [0, 40] (next_p one_hole)"
    by (simp add: one_hole_def)
  have d: "\<forall>j<length [[], [40::nat]]. dl (get_node one_hole) (Bucket j) (map Node ([[], [40]] ! j))
             \<and> prev_ptr (buckets one_hole ! j) = Null"
    by (simp add: all_less_two get_node_def one_hole_def sentinel_def)
  have p: "packable one_hole [0, 40] [[], [40]]"
    unfolding packable_def using t d l by (simp add: one_hole_def)
  have s: "slide (arena one_hole) [0, 40] 40 = 0"
    using l sz by (simp add: slide_def freed_before_def before_def)
  from pack_buffer_slides_live_entries [OF p] l sz s show ?thesis
    using p by (auto simp: all_less_two)
qed

section \<open>Eviction\<close>

lemma content_fields:
  assumes "content z = content w"
  shows "hit_count z = hit_count w" and "key_bytes z = key_bytes w"
    and "node_size z = node_size w" and "graph_id z = graph_id w"
    and "poly_bytes z = poly_bytes w"
  using assms by (cases z, cases w, simp add: content_def)+

lemma victim_cong:
  assumes "min_replace_size c' = min_replace_size c"
    and "map_option content (arena c' a) = map_option content (arena c a)"
  shows "victim K c' hc a = victim K c hc a"
proof (cases "arena c a")
  case None
  with assms(2) show ?thesis by (simp add: victim_def)
next
  case (Some n)
  with assms(2) obtain n' where n': "arena c' a = Some n'" "content n' = content n" by auto
  from content_fields(1,2) [OF n'(2)] n'(1) Some assms(1) show ?thesis
    by (simp add: victim_def)
qed

lemma size_at_cong:
  assumes "map_option content (arena c' a) = map_option content (arena c a)"
  shows "size_at (arena c') a = size_at (arena c) a"
proof (cases "arena c a")
  case None
  with assms show ?thesis by (simp add: size_at_def)
next
  case (Some n)
  with assms obtain n' where n': "arena c' a = Some n'" "content n' = content n" by auto
  from content_fields(3) [OF n'(2)] n'(1) Some show ?thesis by (simp add: size_at_def)
qed

lemma add_bytes_simps [simp]:
  "add_bytes K c amount [] = amount"
  "add_bytes K c amount (a # as)
   = add_bytes K c (to_double K (amount + to_double K (real (size_at (arena c) a)))) as"
  by (simp_all add: add_bytes_def)

lemma add_bytes_append:
  "add_bytes K c amount (as @ bs) = add_bytes K c (add_bytes K c amount as) bs"
  by (simp add: add_bytes_def)

lemma add_bytes_cong:
  assumes "\<And>a. map_option content (arena c' a) = map_option content (arena c a)"
  shows "add_bytes K c' amount as = add_bytes K c amount as"
proof -
  have "\<And>a. size_at (arena c') a = size_at (arena c) a" by (rule size_at_cong [OF assms])
  then have "size_at (arena c') = size_at (arena c)" by (simp add: fun_eq_iff)
  then show ?thesis by (simp add: add_bytes_def)
qed

lemma same_frame_min: "same_frame c c' \<Longrightarrow> min_replace_size c' = min_replace_size c"
  unfolding same_frame_def by (cases c, cases c') auto

text \<open>Unlinking a member of a bucket's list.\<close>

lemma remove_from_chain:
  assumes d: "dl (get_node c) (Bucket b) (map Node (xs @ a # ys))"
    and dist: "distinct (xs @ a # ys)"
    and n: "get_node c (Node a) = Some n"
  shows "\<exists>c2. remove_node (Node a) c = Some c2
           \<and> same_frame c c2
           \<and> dl (get_node c2) (Bucket b) (map Node (xs @ ys))
           \<and> (\<forall>x. map_option content (get_node c2 x) = map_option content (get_node c x))
           \<and> (\<forall>x. x \<notin> set (Bucket b # map Node (xs @ a # ys))
                  \<longrightarrow> get_node c2 x = get_node c x)
           \<and> map_option links (get_node c2 (Node a)) = Some (Null, Null)"
proof -
  let ?V = "get_node c"
  let ?L = "map Node xs @ Node a # map Node ys"
  have d': "dl ?V (Bucket b) ?L" using d by simp
  have VN: "?V Null = None" by (rule get_node_Null)
  have dL: "distinct (Bucket b # ?L)"
    using dist by (auto simp: distinct_map inj_on_def)
  from dl_at [OF d'] n obtain m where
    pn: "prev_ptr n = last (Bucket b # map Node xs)"
    and m: "?V (prev_ptr n) = Some m"
    and nn: "next_ptr n = hd_ptr (map Node ys)"
    and yk: "(case map Node ys of [] \<Rightarrow> True
              | y # _ \<Rightarrow> (case ?V y of None \<Rightarrow> False | Some k \<Rightarrow> prev_ptr k = Node a))"
    by (auto simp: hd_ptr_def)
  have pin: "prev_ptr n \<in> set (Bucket b # map Node xs)"
    unfolding pn by (rule last_in_set) simp
  have sin: "next_ptr n = Null \<or> next_ptr n \<in> set (map Node ys)"
    using hd_ptr_cases [of "map Node ys"] nn by (metis list.set_intros(1))
  obtain k where k: "next_ptr n = Null \<or> ?V (next_ptr n) = Some k"
    using yk nn by (cases "map Node ys") (auto simp: hd_ptr_def split: option.splits)
  have d1: "prev_ptr n \<noteq> Node a" using pin dL by auto
  have d2: "next_ptr n \<noteq> Node a" using sin dL by auto
  have d3: "prev_ptr n \<noteq> next_ptr n"
    using pin sin dL m VN by (cases "next_ptr n = Null") auto
  from remove_node_view [OF n m k d1 d2 d3] obtain c2 where
    r: "remove_node (Node a) c = Some c2" and f2: "same_frame c c2"
    and V2: "get_node c2 =
               (if next_ptr n = Null
                then ?V(prev_ptr n := Some (m\<lparr>next_ptr := next_ptr n\<rparr>),
                        Node a := Some (n\<lparr>next_ptr := Null, prev_ptr := Null\<rparr>))
                else ?V(prev_ptr n := Some (m\<lparr>next_ptr := next_ptr n\<rparr>),
                        next_ptr n := Some (k\<lparr>prev_ptr := prev_ptr n\<rparr>),
                        Node a := Some (n\<lparr>next_ptr := Null, prev_ptr := Null\<rparr>)))"
    by blast
  let ?V2 = "get_node c2"
  have dl2: "dl ?V2 (Bucket b) (map Node xs @ map Node ys)"
    by (rule dl_unlink [OF d' dL n m k V2 VN])
  have c2a: "\<And>x. map_option content (?V2 x) = map_option content (?V x)"
    by (rule unlink_frame(1) [OF V2 n m k])
  have c2b: "\<And>x. x \<notin> set (Bucket b # ?L) \<Longrightarrow> ?V2 x = ?V x"
  proof -
    fix x assume x: "x \<notin> set (Bucket b # ?L)"
    have "x \<noteq> Node a" "x \<noteq> prev_ptr n" using x pin by auto
    moreover have "x \<noteq> next_ptr n \<or> next_ptr n = Null" using x sin by auto
    ultimately show "?V2 x = ?V x"
      using V2 by (cases "next_ptr n = Null") auto
  qed
  have a2: "map_option links (?V2 (Node a)) = Some (Null, Null)"
    using V2 by (simp add: links_def)
  show ?thesis using r f2 dl2 c2a c2b a2 by simp
qed

text \<open>
  The walk of one round over a bucket's list: \<open>xs\<close> are the entries it has passed and
  kept, \<open>ys\<close> the ones still before it.
\<close>

lemma unused_walk_chain:
  assumes "dl (get_node c) (Bucket b) (map Node (xs @ ys))" and "distinct (xs @ ys)"
  shows "\<exists>c'. unused_walk K hc (hd_ptr (map Node ys)) (count, amount, c)
               = Some (count + of_nat (length (filter (victim K c hc) ys)),
                       add_bytes K c amount (filter (victim K c hc) ys),
                       c')
           \<and> same_frame c c'
           \<and> dl (get_node c') (Bucket b) (map Node (xs @ filter (\<lambda>a. \<not> victim K c hc a) ys))
           \<and> (\<forall>x. map_option content (get_node c' x) = map_option content (get_node c x))
           \<and> (\<forall>x. x \<notin> set (Bucket b # map Node (xs @ ys)) \<longrightarrow> get_node c' x = get_node c x)
           \<and> (\<forall>a\<in>set ys. victim K c hc a \<longrightarrow>
                  map_option links (get_node c' (Node a)) = Some (Null, Null))"
  using assms
proof (induction ys arbitrary: xs c count amount)
  case Nil
  show ?case
    using Nil.prems(1) by (subst unused_walk.simps) (simp add: hd_ptr_def same_frame_refl)
next
  case (Cons y ys)
  let ?V = "get_node c"
  have d': "dl ?V (Bucket b) (map Node xs @ Node y # map Node ys)" using Cons.prems(1) by simp
  from dl_at [OF d'] obtain n where n: "?V (Node y) = Some n"
    and nn: "next_ptr n = hd_ptr (map Node ys)" by (auto simp: hd_ptr_def)
  have ay: "arena c y = Some n" using n by (simp add: get_node_def)
  have hd: "hd_ptr (map Node (y # ys)) = Node y" by (simp add: hd_ptr_def)
  show ?case
  proof (cases "victim K c hc y")
    case True
    then have t: "hit_count n < hc \<and> graph_size K (key_bytes n) < min_replace_size c"
      using ay by (simp add: victim_def)
    from remove_from_chain [OF Cons.prems(1,2) n] obtain c1 where
      r: "remove_node (Node y) c = Some c1" and f1: "same_frame c c1"
      and d1: "dl (get_node c1) (Bucket b) (map Node (xs @ ys))"
      and k1: "\<And>x. map_option content (get_node c1 x) = map_option content (?V x)"
      and o1: "\<And>x. x \<notin> set (Bucket b # map Node (xs @ y # ys)) \<Longrightarrow> get_node c1 x = ?V x"
      and l1: "map_option links (get_node c1 (Node y)) = Some (Null, Null)" by blast
    have di: "distinct (xs @ ys)" using Cons.prems(2) by simp
    have ka: "\<And>a. map_option content (arena c1 a) = map_option content (arena c a)"
      using k1 [of "Node _"] by (simp add: get_node_Node)
    have vc: "\<And>a. victim K c1 hc a = victim K c hc a"
      by (rule victim_cong [OF same_frame_min [OF f1] ka])
    have sc: "\<And>a. size_at (arena c1) a = size_at (arena c) a"
      by (rule size_at_cong [OF ka])
    have vc': "victim K c1 hc = victim K c hc" using vc by (simp add: fun_eq_iff)
    have sc': "size_at (arena c1) = size_at (arena c)" using sc by (simp add: fun_eq_iff)
    let ?am = "to_double K (amount + to_double K (real (unat (node_size n))))"
    have ab: "\<And>x as. add_bytes K c1 x as = add_bytes K c x as"
      by (rule add_bytes_cong [OF ka])
    from Cons.IH [OF d1 di, of "count + 1" ?am]
    obtain c' where
      w: "unused_walk K hc (hd_ptr (map Node ys)) (count + 1, ?am, c1)
          = Some (count + 1 + of_nat (length (filter (victim K c hc) ys)),
                  add_bytes K c ?am (filter (victim K c hc) ys), c')"
      and f': "same_frame c1 c'"
      and d2: "dl (get_node c') (Bucket b) (map Node (xs @ filter (\<lambda>a. \<not> victim K c hc a) ys))"
      and k2: "\<And>x. map_option content (get_node c' x) = map_option content (get_node c1 x)"
      and o2: "\<And>x. x \<notin> set (Bucket b # map Node (xs @ ys)) \<Longrightarrow> get_node c' x = get_node c1 x"
      and l2: "\<And>a. a \<in> set ys \<Longrightarrow> victim K c hc a \<Longrightarrow>
                  map_option links (get_node c' (Node a)) = Some (Null, Null)"
      unfolding vc' sc' ab by blast
    have step: "unused_walk K hc (hd_ptr (map Node (y # ys))) (count, amount, c)
                = unused_walk K hc (hd_ptr (map Node ys)) (count + 1, ?am, c1)"
      unfolding hd by (subst unused_walk.simps) (simp add: n t r nn)
    have sy: "size_at (arena c) y = unat (node_size n)" using ay by (simp add: size_at_def)
    have yn: "Node y \<notin> set (Bucket b # map Node (xs @ ys))" using Cons.prems(2) by auto
    have 1: "unused_walk K hc (hd_ptr (map Node (y # ys))) (count, amount, c)
             = Some (count + of_nat (length (filter (victim K c hc) (y # ys))),
                     add_bytes K c amount (filter (victim K c hc) (y # ys)), c')"
      unfolding step w using True sy by simp
    have 2: "same_frame c c'" using f1 f' by (rule same_frame_trans)
    have 3: "dl (get_node c') (Bucket b)
               (map Node (xs @ filter (\<lambda>a. \<not> victim K c hc a) (y # ys)))"
      using d2 True by simp
    have 4: "\<forall>x. map_option content (get_node c' x) = map_option content (?V x)"
      using k1 k2 by simp
    have 5: "\<forall>x. x \<notin> set (Bucket b # map Node (xs @ y # ys)) \<longrightarrow> get_node c' x = ?V x"
      using o1 o2 by auto
    have 6: "\<forall>a\<in>set (y # ys). victim K c hc a \<longrightarrow>
               map_option links (get_node c' (Node a)) = Some (Null, Null)"
      using l2 l1 o2 [OF yn] by auto
    show ?thesis using 1 2 3 4 5 6 by blast
  next
    case False
    then have t: "(hit_count n < hc \<and> graph_size K (key_bytes n) < min_replace_size c) = False"
      using ay by (simp add: victim_def)
    have d1: "dl ?V (Bucket b) (map Node ((xs @ [y]) @ ys))" using Cons.prems(1) by simp
    have di: "distinct ((xs @ [y]) @ ys)" using Cons.prems(2) by simp
    from Cons.IH [OF d1 di, of count amount]
    obtain c' where
      w: "unused_walk K hc (hd_ptr (map Node ys)) (count, amount, c)
          = Some (count + of_nat (length (filter (victim K c hc) ys)),
                  add_bytes K c amount (filter (victim K c hc) ys), c')"
      and f': "same_frame c c'"
      and d2: "dl (get_node c') (Bucket b)
                 (map Node ((xs @ [y]) @ filter (\<lambda>a. \<not> victim K c hc a) ys))"
      and k2: "\<forall>x. map_option content (get_node c' x) = map_option content (?V x)"
      and o2: "\<forall>x. x \<notin> set (Bucket b # map Node ((xs @ [y]) @ ys)) \<longrightarrow> get_node c' x = ?V x"
      and l2: "\<forall>a\<in>set ys. victim K c hc a \<longrightarrow>
                  map_option links (get_node c' (Node a)) = Some (Null, Null)"
      by blast
    have step: "unused_walk K hc (hd_ptr (map Node (y # ys))) (count, amount, c)
                = unused_walk K hc (hd_ptr (map Node ys)) (count, amount, c)"
      unfolding hd by (subst unused_walk.simps) (simp add: n nn t)
    have 1: "unused_walk K hc (hd_ptr (map Node (y # ys))) (count, amount, c)
             = Some (count + of_nat (length (filter (victim K c hc) (y # ys))),
                     add_bytes K c amount (filter (victim K c hc) (y # ys)), c')"
      unfolding step w using False by simp
    have 3: "dl (get_node c') (Bucket b)
               (map Node (xs @ filter (\<lambda>a. \<not> victim K c hc a) (y # ys)))"
      using d2 False by simp
    have 5: "\<forall>x. x \<notin> set (Bucket b # map Node (xs @ y # ys)) \<longrightarrow> get_node c' x = ?V x"
      using o2 by simp
    have 6: "\<forall>a\<in>set (y # ys). victim K c hc a \<longrightarrow>
               map_option links (get_node c' (Node a)) = Some (Null, Null)"
      using l2 False by simp
    show ?thesis using 1 f' 3 k2 5 6 by blast
  qed
qed

text \<open>One round over the buckets \<open>is\<close>, with \<open>ch j\<close> the list of bucket \<open>j\<close>.\<close>

lemma unused_buckets_chains:
  assumes "\<forall>j<nb. dl (get_node c) (Bucket j) (map Node (ch j))"
    and "\<forall>j<nb. distinct (ch j)"
    and "\<forall>i<nb. \<forall>j<nb. i \<noteq> j \<longrightarrow> set (ch i) \<inter> set (ch j) = {}"
    and "nb = length (buckets c)"
    and "distinct is" and "\<forall>i\<in>set is. i < nb"
  shows "\<exists>c'. unused_buckets K hc is (count, amount, c)
               = Some (count + of_nat (sum_list (map (\<lambda>j. length (filter (victim K c hc) (ch j))) is)),
                       add_bytes K c amount (concat (map (\<lambda>j. filter (victim K c hc) (ch j)) is)),
                       c')
           \<and> same_frame c c'
           \<and> (\<forall>j<nb. dl (get_node c') (Bucket j)
                  (map Node (if j \<in> set is then filter (\<lambda>a. \<not> victim K c hc a) (ch j) else ch j)))
           \<and> (\<forall>x. map_option content (get_node c' x) = map_option content (get_node c x))
           \<and> (\<forall>x. (\<forall>j\<in>set is. x \<notin> set (Bucket j # map Node (ch j))) \<longrightarrow> get_node c' x = get_node c x)
           \<and> (\<forall>j\<in>set is. \<forall>a\<in>set (ch j). victim K c hc a \<longrightarrow>
                  map_option links (get_node c' (Node a)) = Some (Null, Null))"
  using assms
proof (induction "is" arbitrary: c ch count amount)
  case Nil
  then show ?case by (simp add: same_frame_refl)
next
  case (Cons i "is")
  let ?V = "get_node c"
  let ?P = "victim K c hc"
  let ?S = "size_at (arena c)"
  have i: "i < nb" "i \<notin> set is" "distinct is" "\<forall>j\<in>set is. j < nb"
    using Cons.prems(5,6) by simp_all
  have di: "dl ?V (Bucket i) (map Node ([] @ ch i))" "distinct ([] @ ch i)"
    using Cons.prems(1,2) i(1) by simp_all
  from dl_next [OF di(1)] i(1) Cons.prems(4)
  have hd: "next_ptr (buckets c ! i) = hd_ptr (map Node (ch i))"
    by (simp add: get_node_Bucket)
  from unused_walk_chain [OF di, of K hc count amount] obtain c1 where
    w: "unused_walk K hc (hd_ptr (map Node (ch i))) (count, amount, c)
        = Some (count + of_nat (length (filter ?P (ch i))),
                add_bytes K c amount (filter ?P (ch i)), c1)"
    and f1: "same_frame c c1"
    and d1: "dl (get_node c1) (Bucket i) (map Node (filter (\<lambda>a. \<not> ?P a) (ch i)))"
    and k1: "\<And>x. map_option content (get_node c1 x) = map_option content (?V x)"
    and o1: "\<And>x. x \<notin> set (Bucket i # map Node (ch i)) \<Longrightarrow> get_node c1 x = ?V x"
    and l1: "\<And>a. a \<in> set (ch i) \<Longrightarrow> ?P a \<Longrightarrow>
                map_option links (get_node c1 (Node a)) = Some (Null, Null)"
    by auto
  let ?ch = "ch(i := filter (\<lambda>a. \<not> ?P a) (ch i))"
  have ka: "\<And>a. map_option content (arena c1 a) = map_option content (arena c a)"
    using k1 [of "Node _"] by (simp add: get_node_Node)
  have "\<And>a. victim K c1 hc a = ?P a"
    by (rule victim_cong [OF same_frame_min [OF f1] ka])
  then have vc: "victim K c1 hc = ?P" by (simp add: fun_eq_iff)
  have sc: "\<And>x as. add_bytes K c1 x as = add_bytes K c x as"
    by (rule add_bytes_cong [OF ka])
  have other: "\<And>j x. j < nb \<Longrightarrow> j \<noteq> i \<Longrightarrow> x \<in> set (Bucket j # map Node (ch j))
                 \<Longrightarrow> x \<notin> set (Bucket i # map Node (ch i))"
    using Cons.prems(3) i(1) by auto
  have p1: "\<forall>j<nb. dl (get_node c1) (Bucket j) (map Node (?ch j))"
  proof (intro allI impI)
    fix j assume j: "j < nb"
    show "dl (get_node c1) (Bucket j) (map Node (?ch j))"
    proof (cases "j = i")
      case True
      with d1 show ?thesis by simp
    next
      case False
      have "dl (get_node c1) (Bucket j) (map Node (ch j)) = dl ?V (Bucket j) (map Node (ch j))"
      proof (rule dl_cong)
        fix x assume "x \<in> set (Bucket j # map Node (ch j))"
        from o1 [OF other [OF j False this]]
        show "map_option links (get_node c1 x) = map_option links (?V x)" by simp
      qed
      with False Cons.prems(1) j show ?thesis by simp
    qed
  qed
  have p2: "\<forall>j<nb. distinct (?ch j)" using Cons.prems(2) by simp
  have p3: "\<forall>a<nb. \<forall>j<nb. a \<noteq> j \<longrightarrow> set (?ch a) \<inter> set (?ch j) = {}"
    using Cons.prems(3) by auto
  have p4: "nb = length (buckets c1)" using Cons.prems(4) same_frame_length [OF f1] by simp
  have same: "\<And>j. j \<in> set is \<Longrightarrow> ?ch j = ch j" using i(2) by auto
  have m1: "map (\<lambda>j. length (filter ?P (?ch j))) is = map (\<lambda>j. length (filter ?P (ch j))) is"
    using same by (intro map_cong) simp_all
  have m2: "map (\<lambda>j. filter ?P (?ch j)) is = map (\<lambda>j. filter ?P (ch j)) is"
    using same by (intro map_cong) simp_all
  let ?am = "add_bytes K c amount (filter ?P (ch i))"
  from Cons.IH [OF p1 p2 p3 p4 i(3,4), of "count + of_nat (length (filter ?P (ch i)))" ?am]
  obtain c' where
    u: "unused_buckets K hc is (count + of_nat (length (filter ?P (ch i))), ?am, c1)
        = Some (count + of_nat (length (filter ?P (ch i)))
                  + of_nat (sum_list (map (\<lambda>j. length (filter ?P (ch j))) is)),
                add_bytes K c ?am (concat (map (\<lambda>j. filter ?P (ch j)) is)), c')"
    and f2: "same_frame c1 c'"
    and d2: "\<And>j. j < nb \<Longrightarrow> dl (get_node c') (Bucket j)
                (map Node (if j \<in> set is then filter (\<lambda>a. \<not> ?P a) (?ch j) else ?ch j))"
    and k2: "\<And>x. map_option content (get_node c' x) = map_option content (get_node c1 x)"
    and o2: "\<And>x. (\<forall>j\<in>set is. x \<notin> set (Bucket j # map Node (?ch j)))
               \<Longrightarrow> get_node c' x = get_node c1 x"
    and l2: "\<And>j a. j \<in> set is \<Longrightarrow> a \<in> set (?ch j) \<Longrightarrow> ?P a \<Longrightarrow>
                map_option links (get_node c' (Node a)) = Some (Null, Null)"
    unfolding vc sc m1 m2 by blast
  have 1: "unused_buckets K hc (i # is) (count, amount, c)
           = Some (count + of_nat (sum_list (map (\<lambda>j. length (filter ?P (ch j))) (i # is))),
                   add_bytes K c amount (concat (map (\<lambda>j. filter ?P (ch j)) (i # is))),
                   c')"
    using hd w u by (simp add: add.assoc add_bytes_append)
  have 2: "same_frame c c'" using f1 f2 by (rule same_frame_trans)
  have 3: "\<forall>j<nb. dl (get_node c') (Bucket j)
             (map Node (if j \<in> set (i # is) then filter (\<lambda>a. \<not> ?P a) (ch j) else ch j))"
  proof (intro allI impI)
    fix j assume j: "j < nb"
    from d2 [OF j] i(2) show "dl (get_node c') (Bucket j)
             (map Node (if j \<in> set (i # is) then filter (\<lambda>a. \<not> ?P a) (ch j) else ch j))"
      by (cases "j = i") auto
  qed
  have 4: "\<forall>x. map_option content (get_node c' x) = map_option content (?V x)"
    using k1 k2 by simp
  have 5: "\<forall>x. (\<forall>j\<in>set (i # is). x \<notin> set (Bucket j # map Node (ch j))) \<longrightarrow> get_node c' x = ?V x"
  proof (intro allI impI)
    fix x assume x: "\<forall>j\<in>set (i # is). x \<notin> set (Bucket j # map Node (ch j))"
    then have "\<forall>j\<in>set is. x \<notin> set (Bucket j # map Node (?ch j))" using same by auto
    from o2 [OF this] o1 [of x] x show "get_node c' x = ?V x" by simp
  qed
  have 6: "\<forall>j\<in>set (i # is). \<forall>a\<in>set (ch j). ?P a \<longrightarrow>
             map_option links (get_node c' (Node a)) = Some (Null, Null)"
  proof (intro ballI impI)
    fix j a assume j: "j \<in> set (i # is)" and a: "a \<in> set (ch j)" "?P a"
    show "map_option links (get_node c' (Node a)) = Some (Null, Null)"
    proof (cases "j = i")
      case True
      have "\<forall>j\<in>set is. Node a \<notin> set (Bucket j # map Node (?ch j))"
      proof
        fix j' assume j': "j' \<in> set is"
        then have "j' < nb" "j' \<noteq> i" using i by auto
        with Cons.prems(3) i(1) a(1) True have "a \<notin> set (ch j')" by blast
        with same [OF j'] show "Node a \<notin> set (Bucket j' # map Node (?ch j'))" by auto
      qed
      from o2 [OF this] l1 a True show ?thesis by simp
    next
      case False
      with j have "j \<in> set is" by simp
      from l2 [OF this] a same [OF this] show ?thesis by simp
    qed
  qed
  show ?case using 1 2 3 4 5 6 by blast
qed

text \<open>Lists of lists without a repeated member.\<close>

lemma distinct_concat_nth:
  "distinct (concat bl) \<Longrightarrow> j < length bl \<Longrightarrow> distinct (bl ! j)"
  "distinct (concat bl) \<Longrightarrow> i < length bl \<Longrightarrow> j < length bl \<Longrightarrow> i \<noteq> j
     \<Longrightarrow> set (bl ! i) \<inter> set (bl ! j) = {}"
proof -
  show "distinct (concat bl) \<Longrightarrow> j < length bl \<Longrightarrow> distinct (bl ! j)"
    by (induction bl arbitrary: j) (auto simp: nth_Cons split: nat.splits)
  show "distinct (concat bl) \<Longrightarrow> i < length bl \<Longrightarrow> j < length bl \<Longrightarrow> i \<noteq> j
     \<Longrightarrow> set (bl ! i) \<inter> set (bl ! j) = {}"
  proof (induction bl arbitrary: i j)
    case Nil
    then show ?case by simp
  next
    case (Cons x xs)
    show ?case
    proof (cases i)
      case 0
      with Cons.prems obtain j' where j': "j = Suc j'" "j' < length xs" by (cases j) auto
      then have "xs ! j' \<in> set xs" by simp
      then have "set (xs ! j') \<subseteq> set (concat xs)" by auto
      moreover from Cons.prems(1) have "set x \<inter> set (concat xs) = {}" by simp
      ultimately show ?thesis using 0 j' by auto
    next
      case (Suc i')
      show ?thesis
      proof (cases j)
        case 0
        from Suc Cons.prems have "xs ! i' \<in> set xs" by simp
        then have "set (xs ! i') \<subseteq> set (concat xs)" by auto
        moreover from Cons.prems(1) have "set x \<inter> set (concat xs) = {}" by simp
        ultimately show ?thesis using 0 Suc by auto
      next
        case (Suc j')
        with \<open>i = Suc i'\<close> Cons.prems Cons.IH [of i' j'] show ?thesis by simp
      qed
    qed
  qed
qed

lemma distinct_concat_filter:
  "distinct (concat bl) \<Longrightarrow> distinct (concat (map (filter Q) bl))"
  by (induction bl) auto

lemma concat_filter: "concat (map (filter Q) bl) = filter Q (concat bl)"
  by (induction bl) simp_all

lemma sum_over_buckets:
  "sum_list (map (\<lambda>j. f (bl ! j)) [0..<length bl]) = sum_list (map f bl)"
proof -
  have "map (\<lambda>j. f (bl ! j)) [0..<length bl] = map f (map (\<lambda>j. bl ! j) [0..<length bl])"
    by simp
  also have "\<dots> = map f bl" by (simp only: map_nth)
  finally show ?thesis by simp
qed

lemma concat_over_buckets:
  "concat (map (\<lambda>j. filter P (bl ! j)) [0..<length bl]) = filter P (concat bl)"
proof -
  have "map (\<lambda>j. filter P (bl ! j)) [0..<length bl]
        = map (filter P) (map (\<lambda>j. bl ! j) [0..<length bl])" by simp
  also have "\<dots> = map (filter P) bl" by (simp only: map_nth)
  finally show ?thesis by (simp add: concat_filter)
qed

lemma length_concat_filter:
  "sum_list (map (\<lambda>xs. length (filter P xs)) bl) = length (filter P (concat bl))"
  by (induction bl) simp_all

text \<open>One round over all the buckets.\<close>

lemma unused_round:
  assumes ch: "all_chains c bl"
  shows "\<exists>c'. unused_buckets K hc [0..<length (buckets c)] (0, amount, c)
               = Some (of_nat (length (filter (victim K c hc) (concat bl))),
                       add_bytes K c amount (filter (victim K c hc) (concat bl)),
                       c')
           \<and> same_frame c c'
           \<and> all_chains c' (map (filter (\<lambda>a. \<not> victim K c hc a)) bl)
           \<and> (\<forall>x. map_option content (get_node c' x) = map_option content (get_node c x))
           \<and> (\<forall>a. a \<notin> set (concat bl) \<longrightarrow> arena c' a = arena c a)
           \<and> (\<forall>a\<in>set (concat bl). victim K c hc a \<longrightarrow>
                  map_option links (arena c' a) = Some (Null, Null))"
proof -
  let ?nb = "length bl"
  let ?P = "victim K c hc"
  let ?ch = "\<lambda>j. bl ! j"
  from ch have len: "?nb = length (buckets c)" and dc: "distinct (concat bl)"
    and d: "\<forall>j<?nb. dl (get_node c) (Bucket j) (map Node (?ch j))"
    by (simp_all add: all_chains_def)
  have p2: "\<forall>j<?nb. distinct (?ch j)" using distinct_concat_nth(1) [OF dc] by simp
  have p3: "\<forall>i<?nb. \<forall>j<?nb. i \<noteq> j \<longrightarrow> set (?ch i) \<inter> set (?ch j) = {}"
    using distinct_concat_nth(2) [OF dc] by simp
  have p5: "distinct [0..<?nb]" "\<forall>i\<in>set [0..<?nb]. i < ?nb" by simp_all
  from unused_buckets_chains [OF d p2 p3 len p5, of K hc 0 amount] obtain c' where
    u: "unused_buckets K hc [0..<?nb] (0, amount, c)
        = Some (0 + of_nat (sum_list (map (\<lambda>j. length (filter ?P (bl ! j))) [0..<?nb])),
                add_bytes K c amount (concat (map (\<lambda>j. filter ?P (bl ! j)) [0..<?nb])), c')"
    and f: "same_frame c c'"
    and d': "\<And>j. j < ?nb \<Longrightarrow> dl (get_node c') (Bucket j)
                (map Node (if j \<in> set [0..<?nb] then filter (\<lambda>a. \<not> ?P a) (bl ! j) else bl ! j))"
    and k: "\<And>x. map_option content (get_node c' x) = map_option content (get_node c x)"
    and o: "\<And>x. (\<forall>j\<in>set [0..<?nb]. x \<notin> set (Bucket j # map Node (bl ! j)))
              \<Longrightarrow> get_node c' x = get_node c x"
    and l: "\<And>j a. j \<in> set [0..<?nb] \<Longrightarrow> a \<in> set (bl ! j) \<Longrightarrow> ?P a \<Longrightarrow>
              map_option links (get_node c' (Node a)) = Some (Null, Null)"
    by blast
  have s1: "sum_list (map (\<lambda>j. length (filter ?P (bl ! j))) [0..<?nb])
            = length (filter ?P (concat bl))"
    by (simp only: sum_over_buckets [of "\<lambda>xs. length (filter ?P xs)" bl] length_concat_filter)
  have s2: "concat (map (\<lambda>j. filter ?P (bl ! j)) [0..<?nb]) = filter ?P (concat bl)"
    by (rule concat_over_buckets)
  have 1: "unused_buckets K hc [0..<length (buckets c)] (0, amount, c)
           = Some (of_nat (length (filter ?P (concat bl))),
                   add_bytes K c amount (filter ?P (concat bl)), c')"
  proof -
    from u have "unused_buckets K hc [0..<?nb] (0, amount, c)
           = Some (of_nat (length (filter ?P (concat bl))),
                   add_bytes K c amount (filter ?P (concat bl)), c')"
      unfolding s1 s2 by simp
    then show ?thesis unfolding len .
  qed
  have 3: "all_chains c' (map (filter (\<lambda>a. \<not> ?P a)) bl)"
    unfolding all_chains_def
    using len same_frame_length [OF f] distinct_concat_filter [OF dc] d' by simp
  have 5: "\<forall>a. a \<notin> set (concat bl) \<longrightarrow> arena c' a = arena c a"
  proof (intro allI impI)
    fix a assume a: "a \<notin> set (concat bl)"
    have "\<forall>j\<in>set [0..<?nb]. Node a \<notin> set (Bucket j # map Node (bl ! j))"
    proof
      fix j assume "j \<in> set [0..<?nb]"
      then have "bl ! j \<in> set bl" by simp
      with a show "Node a \<notin> set (Bucket j # map Node (bl ! j))" by auto
    qed
    from o [OF this] show "arena c' a = arena c a" by (simp add: get_node_Node)
  qed
  have 6: "\<forall>a\<in>set (concat bl). ?P a \<longrightarrow> map_option links (arena c' a) = Some (Null, Null)"
  proof (intro ballI impI)
    fix a assume a: "a \<in> set (concat bl)" "?P a"
    then obtain ys where "ys \<in> set bl" "a \<in> set ys" by auto
    then obtain j where "j < ?nb" "a \<in> set (bl ! j)" by (metis in_set_conv_nth)
    with l [of j a] a(2) show "map_option links (arena c' a) = Some (Null, Null)"
      by (simp add: get_node_Node)
  qed
  show ?thesis using 1 f 3 k 5 6 by blast
qed

lemma of_nat_less_word: "h < k \<Longrightarrow> k < 2 ^ 32 \<Longrightarrow> (of_nat h :: 32 word) < of_nat k"
  by (simp add: word_less_nat_alt unat_of_nat take_bit_nat_eq_self)

lemma ucast_count: "n < 2 ^ 32 \<Longrightarrow> (ucast (of_nat n :: 32 word) :: 64 word) = of_nat n"
  by (simp add: ucast_eq unsigned_of_nat take_bit_nat_eq_self)

lemma filter_split_length:
  "(\<And>a. P a \<Longrightarrow> Q a) \<Longrightarrow>
   length (filter P xs) + length (filter Q (filter (\<lambda>a. \<not> P a) xs)) = length (filter Q xs)"
  by (induction xs) auto

lemma filter_not_not:
  "(\<And>a. P a \<Longrightarrow> Q a) \<Longrightarrow>
   filter (\<lambda>a. \<not> Q a) (filter (\<lambda>a. \<not> P a) xs) = filter (\<lambda>a. \<not> Q a) xs"
  by (induction xs) auto

lemma victim_mono:
  assumes "h < k" and "k < 2 ^ 32" and "victim K c (of_nat h) a"
  shows "victim K c (of_nat k) a"
  using assms(3) of_nat_less_word [OF assms(1,2)]
  by (auto simp: victim_def split: option.splits)

lemma get_node_numentries [simp]: "get_node (c\<lparr>numentries := v\<rparr>) = get_node c"
  by (rule ext) (simp add: get_node_def split: ptr.splits)

lemma all_chains_numentries [simp]: "all_chains (c\<lparr>numentries := v\<rparr>) bl = all_chains c bl"
  by (simp add: all_chains_def)

text \<open>One more round.\<close>

lemma evicted_step:
  assumes ch: "all_chains c0 bl" and small: "length (concat bl) < 2 ^ 32" and k: "Suc h < 2 ^ 32"
    and ev: "evicted K c0 bl h c"
  shows "\<exists>c1 count. unused_buckets K (of_nat h + 1) [0..<length (buckets c)]
                 (0, removed_amount K c0 bl h, c)
               = Some (count, removed_amount K c0 bl (Suc h), c1)
           \<and> evicted K c0 bl (Suc h) (c1\<lparr>numentries := numentries c1 - ucast count\<rparr>)"
proof -
  let ?L = "concat bl"
  let ?P = "victim K c0 (of_nat h)"
  let ?Q = "victim K c0 (of_nat (Suc h))"
  let ?S = "size_at (arena c0)"
  let ?bl = "map (filter (\<lambda>a. \<not> ?P a)) bl"
  from ev have chc: "all_chains c ?bl"
    and rec: "c = c0\<lparr>buckets := buckets c, arena := arena c,
                numentries := numentries c0 - of_nat (length (filter ?P ?L))\<rparr>"
    and k0: "\<And>a. map_option content (arena c a) = map_option content (arena c0 a)"
    and o0: "\<And>a. a \<notin> set ?L \<Longrightarrow> arena c a = arena c0 a"
    and l0: "\<And>a. a \<in> set ?L \<Longrightarrow> ?P a \<Longrightarrow> map_option links (arena c a) = Some (Null, Null)"
    unfolding evicted_def by blast+
  have mr: "min_replace_size c = min_replace_size c0" by (subst rec) simp
  have hq: "(of_nat h + 1 :: 32 word) = of_nat (Suc h)" by simp
  have "\<And>a. victim K c (of_nat (Suc h)) a = ?Q a"
    by (rule victim_cong [OF mr k0])
  then have vq: "victim K c (of_nat h + 1) = ?Q" unfolding hq by (simp only: fun_eq_iff) simp
  have sq: "\<And>x as. add_bytes K c x as = add_bytes K c0 x as"
    by (rule add_bytes_cong [OF k0])
  have cc: "concat ?bl = filter (\<lambda>a. \<not> ?P a) ?L" by (rule concat_filter)
  have pq: "\<And>a. ?P a \<Longrightarrow> ?Q a" using victim_mono [OF _ k] by blast
  from unused_round [OF chc, of K "of_nat h + 1" "removed_amount K c0 bl h"]
  obtain c1 where
    u: "unused_buckets K (of_nat h + 1) [0..<length (buckets c)]
          (0, removed_amount K c0 bl h, c)
        = Some (of_nat (length (filter ?Q (filter (\<lambda>a. \<not> ?P a) ?L))),
                add_bytes K c0 (removed_amount K c0 bl h)
                  (filter ?Q (filter (\<lambda>a. \<not> ?P a) ?L)), c1)"
    and f: "same_frame c c1"
    and ch1: "all_chains c1 (map (filter (\<lambda>a. \<not> ?Q a)) ?bl)"
    and k1: "\<And>x. map_option content (get_node c1 x) = map_option content (get_node c x)"
    and o1: "\<And>a. a \<notin> set (filter (\<lambda>a. \<not> ?P a) ?L) \<Longrightarrow> arena c1 a = arena c a"
    and l1: "\<And>a. a \<in> set (filter (\<lambda>a. \<not> ?P a) ?L) \<Longrightarrow> ?Q a
               \<Longrightarrow> map_option links (arena c1 a) = Some (Null, Null)"
    unfolding vq sq cc by blast
  let ?n1 = "length (filter ?Q (filter (\<lambda>a. \<not> ?P a) ?L))"
  let ?count = "of_nat ?n1 :: 32 word"
  let ?c1 = "c1\<lparr>numentries := numentries c1 - ucast ?count\<rparr>"
  have am: "add_bytes K c0 (removed_amount K c0 bl h) (filter ?Q (filter (\<lambda>a. \<not> ?P a) ?L))
            = removed_amount K c0 bl (Suc h)"
    by simp
  have n1: "?n1 < 2 ^ 32"
  proof -
    have "?n1 \<le> length ?L"
      by (meson le_trans length_filter_le)
    from this small show ?thesis by (rule le_less_trans)
  qed
  have nn: "length (filter ?P ?L) + ?n1 = length (filter ?Q ?L)"
    by (rule filter_split_length [OF pq])
  have ne: "numentries c0 - of_nat (length (filter ?P ?L)) - ucast ?count
            = numentries c0 - of_nat (length (filter ?Q ?L))"
    unfolding ucast_count [OF n1] nn [symmetric] by simp
  have "\<And>xs. filter (\<lambda>a. \<not> ?Q a) (filter (\<lambda>a. \<not> ?P a) xs) = filter (\<lambda>a. \<not> ?Q a) xs"
    by (rule filter_not_not [OF pq])
  then have "map (filter (\<lambda>a. \<not> ?Q a)) ?bl = map (filter (\<lambda>a. \<not> ?Q a)) bl"
    by (simp only: map_map comp_def)
  with ch1 have "all_chains c1 (map (filter (\<lambda>a. \<not> ?Q a)) bl)" by (simp only:)
  then have 1: "all_chains ?c1 (map (filter (\<lambda>a. \<not> ?Q a)) bl)" by (simp only: all_chains_numentries)
  from f have f': "c1 = c\<lparr>buckets := buckets c1, arena := arena c1\<rparr>"
    by (simp add: same_frame_def)
  have 2: "?c1 = c0\<lparr>buckets := buckets ?c1, arena := arena ?c1,
                 numentries := numentries c0 - of_nat (length (filter ?Q ?L))\<rparr>"
  proof -
    have "numentries c1 = numentries c0 - of_nat (length (filter ?P ?L))"
      by (subst f', subst rec) simp
    then have "?c1 = c1\<lparr>numentries := numentries c0 - of_nat (length (filter ?Q ?L))\<rparr>"
      using ne by simp
    also have "\<dots> = c0\<lparr>buckets := buckets c1, arena := arena c1,
                 numentries := numentries c0 - of_nat (length (filter ?Q ?L))\<rparr>"
      by (subst f', subst rec) simp
    finally show ?thesis by simp
  qed
  have 3: "\<forall>a. map_option content (arena ?c1 a) = map_option content (arena c0 a)"
    using k1 [of "Node _"] k0 by (simp add: get_node_Node)
  have 4: "\<forall>a. a \<notin> set ?L \<longrightarrow> arena ?c1 a = arena c0 a"
    using o1 o0 by simp
  have 5: "\<forall>a\<in>set ?L. ?Q a \<longrightarrow> map_option links (arena ?c1 a) = Some (Null, Null)"
  proof (intro ballI impI)
    fix a assume a: "a \<in> set ?L" "?Q a"
    show "map_option links (arena ?c1 a) = Some (Null, Null)"
    proof (cases "?P a")
      case True
      then have "a \<notin> set (filter (\<lambda>a. \<not> ?P a) ?L)" by simp
      from o1 [OF this] l0 [OF a(1) True] show ?thesis by simp
    next
      case False
      with a(1) have "a \<in> set (filter (\<lambda>a. \<not> ?P a) ?L)" by simp
      from l1 [OF this a(2)] show ?thesis by simp
    qed
  qed
  have "evicted K c0 bl (Suc h) ?c1"
    unfolding evicted_def using 1 2 3 4 5 by blast
  with u am show ?thesis by auto
qed

text \<open>The rounds, up to the first one after which enough has been removed.\<close>

lemma unused_rounds_evicts:
  assumes ch: "all_chains c0 bl" and small: "length (concat bl) < 2 ^ 32" and k: "k < 2 ^ 32"
    and more: "\<forall>i. h < i \<and> i < k \<longrightarrow> below_ratio K p orig (removed_amount K c0 bl i)"
    and stop: "\<not> below_ratio K p orig (removed_amount K c0 bl k)"
  shows "h < k \<Longrightarrow> evicted K c0 bl h c
         \<Longrightarrow> \<exists>c'. unused_rounds K p orig (of_nat h) (removed_amount K c0 bl h) c = Some c'
                  \<and> evicted K c0 bl k c'"
  using more
proof (induction "k - h" arbitrary: h c)
  case 0
  then show ?case by simp
next
  case (Suc d)
  have hk: "Suc h < 2 ^ 32" using Suc.prems(1) k by simp
  from evicted_step [OF ch small hk Suc.prems(2)] obtain c1 count where
    u: "unused_buckets K (of_nat h + 1) [0..<length (buckets c)]
          (0, removed_amount K c0 bl h, c)
        = Some (count, removed_amount K c0 bl (Suc h), c1)"
    and ev: "evicted K c0 bl (Suc h) (c1\<lparr>numentries := numentries c1 - ucast count\<rparr>)"
    by blast
  let ?c1 = "c1\<lparr>numentries := numentries c1 - ucast count\<rparr>"
  let ?x = "removed_amount K c0 bl (Suc h)"
  have hq: "(of_nat h + 1 :: 32 word) = of_nat (Suc h)" by simp
  show ?case
  proof (cases "Suc h = k")
    case True
    with stop have t: "below_ratio K p orig ?x = False" by (simp del: removed_amount.simps)
    have "unused_rounds K p orig (of_nat h) (removed_amount K c0 bl h) c = Some ?c1"
      by (subst unused_rounds.simps) (simp only: u t option.case prod.case if_False)
    with ev True show ?thesis by blast
  next
    case False
    with Suc.prems(1) have lt: "Suc h < k" by simp
    with Suc.prems(3) have t: "below_ratio K p orig ?x = True"
      by (simp del: removed_amount.simps)
    have step: "unused_rounds K p orig (of_nat h) (removed_amount K c0 bl h) c
               = unused_rounds K p orig (of_nat (Suc h)) ?x ?c1"
      by (subst unused_rounds.simps) (simp only: u [unfolded hq] t option.case prod.case if_True hq)
    have d: "d = k - Suc h" using Suc.hyps(2) by simp
    have m: "\<forall>i. Suc h < i \<and> i < k \<longrightarrow> below_ratio K p orig (removed_amount K c0 bl i)"
      using Suc.prems(3) by simp
    from Suc.hyps(1) [OF d lt ev m] show ?thesis unfolding step .
  qed
qed

lemma evicted_start:
  assumes "all_chains c bl"
  shows "evicted K c bl 0 c"
proof -
  have v: "\<And>a. victim K c (of_nat 0) a = False"
    by (simp add: victim_def split: option.splits)
  have "map (filter (\<lambda>a. \<not> victim K c (of_nat 0) a)) bl = bl"
    unfolding v by (induction bl) simp_all
  then show "evicted K c bl 0 c"
    unfolding evicted_def using assms v by simp
qed

text \<open>
  C7, as the code has it. Let \<open>bl\<close> be the bucket lists of the cache, with fewer than
  \<open>2^32\<close> entries. After the round with counter \<open>h\<close> the loop goes on when
  \<^verbatim>\<open>(amount / orig_size) < p\<close>, a comparison in \<^verbatim>\<open>double\<close>: \<^verbatim>\<open>amount\<close> is the rounded sum
  \<open>removed_amount K c bl h\<close> of the sizes of the entries removed so far, \<^verbatim>\<open>orig_size\<close> is
  \<^verbatim>\<open>next_p - start_p\<close> at the start, and the quotient is rounded. Let \<open>k\<close>, less than
  \<open>2^32\<close>, be the first \<open>h = 1, 2, ...\<close> after which this test fails. Then
  \<^verbatim>\<open>remove_unused_nodes(p)\<close> returns, and it has removed from the bucket lists exactly
  the entries with \<^verbatim>\<open>hit_count < k\<close> and a graph of fewer than \<^verbatim>\<open>min_replace_size\<close>
  vertices: every list is the list it was without them, in the same order, so an entry of
  a graph with \<^verbatim>\<open>min_replace_size\<close> vertices or more is still there; the removed entries
  have both links null; \<^verbatim>\<open>numentries\<close> has decreased by their number; nothing else but
  the bucket array and the arena has changed, and no entry has changed but in its links.
\<close>

theorem remove_unused_nodes_evicts_by_usage:
  assumes "all_chains c bl" and "length (concat bl) < 2 ^ 32"
    and "0 < k" and "k < 2 ^ 32"
    and "\<forall>i. 0 < i \<and> i < k \<longrightarrow> below_ratio K p (next_p c) (removed_amount K c bl i)"
    and "\<not> below_ratio K p (next_p c) (removed_amount K c bl k)"
  shows "\<exists>c'. remove_unused_nodes K p c = Some c'
           \<and> all_chains c' (map (filter (\<lambda>a. \<not> victim K c (of_nat k) a)) bl)
           \<and> c' = c\<lparr>buckets := buckets c', arena := arena c',
                      numentries := numentries c
                        - of_nat (length (filter (victim K c (of_nat k)) (concat bl)))\<rparr>
           \<and> (\<forall>a. map_option content (arena c' a) = map_option content (arena c a))
           \<and> (\<forall>a. a \<notin> set (concat bl) \<longrightarrow> arena c' a = arena c a)
           \<and> (\<forall>a\<in>set (concat bl). victim K c (of_nat k) a \<longrightarrow>
                  map_option links (arena c' a) = Some (Null, Null))"
proof -
  from unused_rounds_evicts [OF assms(1,2,4,5,6) assms(3) evicted_start [OF assms(1)]]
  obtain c' where "unused_rounds K p (next_p c) (of_nat 0) (removed_amount K c bl 0) c = Some c'"
    and "evicted K c bl k c'" by blast
  then show ?thesis
    unfolding remove_unused_nodes_def evicted_def by simp
qed

theorem remove_unused_nodes_evicts_by_usage_witness:
  "all_chains two_entries [[], [40, 0]]
   \<and> removed_amount demo_platform two_entries [[], [40, 0]] 1 = 40
   \<and> removed_amount demo_platform two_entries [[], [40, 0]] 2 = 40
   \<and> removed_amount demo_platform two_entries [[], [40, 0]] 3 = 76
   \<and> below_ratio demo_platform (5 / 8) (next_p two_entries) 40
   \<and> \<not> below_ratio demo_platform (5 / 8) (next_p two_entries) 76
   \<and> (\<exists>c'. remove_unused_nodes demo_platform (5 / 8) two_entries = Some c'
          \<and> all_chains c' [[], []]
          \<and> numentries c' = 0
          \<and> map_option links (arena c' 0) = Some (Null, Null)
          \<and> map_option links (arena c' 40) = Some (Null, Null))"
proof -
  let ?K = "demo_platform"
  let ?bl = "[[], [40, 0 :: nat]]"
  have ch: "all_chains two_entries ?bl"
    by (simp add: all_chains_def all_less_two get_node_def two_entries_def sentinel_def)
  have v0: "\<And>a. \<not> victim ?K two_entries (of_nat 0) a"
    by (simp add: victim_def split: option.splits)
  have v1: "\<not> victim ?K two_entries (of_nat 1) 40"
    "victim ?K two_entries (of_nat 1) 0"
    "\<not> victim ?K two_entries (of_nat 2) 40"
    "victim ?K two_entries (of_nat 2) 0"
    "victim ?K two_entries (of_nat 3) 40"
    "victim ?K two_entries (of_nat 3) 0"
    by (simp_all add: victim_def two_entries_def demo_platform_def)
  have sz: "size_at (arena two_entries) 0 = 40" "size_at (arena two_entries) 40 = 36"
    by (simp_all add: size_at_def two_entries_def)
  have td: "to_double ?K = binary64" by (simp add: demo_platform_def)
  have r1: "removed_amount ?K two_entries ?bl 1 = 40"
    using v0 v1 sz by (simp add: td binary64_small_nat)
  have r2: "removed_amount ?K two_entries ?bl 2 = 40"
    unfolding numeral_2_eq_2 removed_amount.simps(2) [of _ _ _ "Suc 0"]
    using r1 v1 by simp
  have r3: "removed_amount ?K two_entries ?bl 3 = 76"
    unfolding numeral_3_eq_3 removed_amount.simps(2) [of _ _ _ "Suc (Suc 0)"]
    using r2 v1 sz by (simp add: numeral_2_eq_2 [symmetric] td binary64_small_nat)
  have np: "next_p two_entries = 76" by (simp add: two_entries_def)
  have ne: "numentries two_entries = 2" by (simp add: two_entries_def)
  have q: "binary64 (10 / 19) = 4740631186705785 / 9007199254740992"
    using binary64_up [of "10 / 19" 53] by (simp add: round_even_def)
  have b40: "below_ratio ?K (5 / 8) (next_p two_entries) 40"
    unfolding np by (simp add: below_ratio_def td binary64_small_nat q)
  have b76: "\<not> below_ratio ?K (5 / 8) (next_p two_entries) 76"
    unfolding np by (simp add: below_ratio_def td binary64_small_nat)
  have more: "\<forall>i. 0 < i \<and> i < 3 \<longrightarrow>
      below_ratio ?K (5 / 8) (next_p two_entries) (removed_amount ?K two_entries ?bl i)"
  proof (intro allI impI)
    fix i :: nat assume "0 < i \<and> i < 3"
    then have "i = 1 \<or> i = 2" by auto
    then show "below_ratio ?K (5 / 8) (next_p two_entries) (removed_amount ?K two_entries ?bl i)"
      using r1 r2 b40 by auto
  qed
  have stop: "\<not> below_ratio ?K (5 / 8) (next_p two_entries) (removed_amount ?K two_entries ?bl 3)"
    using r3 b76 by simp
  have small: "length (concat ?bl) < 2 ^ 32" "0 < (3::nat)" "(3::nat) < 2 ^ 32" by simp_all
  from remove_unused_nodes_evicts_by_usage [OF ch small more stop]
  obtain c' where
    1: "remove_unused_nodes ?K (5 / 8) two_entries = Some c'"
    and 2: "all_chains c' (map (filter (\<lambda>a. \<not> victim ?K two_entries (of_nat 3) a)) ?bl)"
    and 3: "c' = two_entries\<lparr>buckets := buckets c', arena := arena c',
              numentries := numentries two_entries
                - of_nat (length (filter (victim ?K two_entries (of_nat 3)) (concat ?bl)))\<rparr>"
    and 5: "\<forall>a\<in>set (concat ?bl). victim ?K two_entries (of_nat 3) a \<longrightarrow>
              map_option links (arena c' a) = Some (Null, Null)"
    by blast
  from 2 v1 have 2: "all_chains c' [[], []]" by simp
  have "numentries c' = numentries two_entries
          - of_nat (length (filter (victim ?K two_entries (of_nat 3)) (concat ?bl)))"
    by (subst 3) simp
  then have 3: "numentries c' = 0" using v1 ne by simp
  from 5 v1 have 5: "map_option links (arena c' 0) = Some (Null, Null)"
    "map_option links (arena c' 40) = Some (Null, Null)" by simp_all
  from 1 2 3 5 ch r1 r2 r3 b40 b76 show ?thesis by blast
qed

text \<open>One round on the cache \<open>two_large\<close>.\<close>

lemma stops_below_ratio:
  "all_chains two_large [[], [646761704, 0]]
   \<and> removed_bytes demo_platform two_large [[], [646761704, 0]] 1 = 646761704
   \<and> real 646761704 < replacement two_large * real (next_p two_large)
   \<and> (\<exists>c'. remove_unused_nodes demo_platform (replacement two_large) two_large = Some c'
          \<and> all_chains c' [[], [646761704]]
          \<and> numentries c' = 1
          \<and> map_option links (arena c' 0) = Some (Null, Null))"
proof -
  let ?K = "demo_platform"
  let ?bl = "[[], [646761704, 0 :: nat]]"
  let ?p = "replacement two_large"
  have ch: "all_chains two_large ?bl"
    by (simp add: all_chains_def all_less_two get_node_def two_large_def sentinel_def)
  have v0: "\<And>a. \<not> victim ?K two_large (of_nat 0) a"
    by (simp add: victim_def split: option.splits)
  have v1: "victim ?K two_large (of_nat 1) 0" "\<not> victim ?K two_large (of_nat 1) 646761704"
    by (simp_all add: victim_def two_large_def demo_platform_def)
  have sz: "size_at (arena two_large) 0 = 646761704"
    by (simp add: size_at_def two_large_def)
  have td: "to_double ?K = binary64" by (simp add: demo_platform_def)
  have e1: "binary64 646761704 = 646761704" using binary64_up [of 646761704 23] by simp
  have e2: "binary64 2155872261 = 2155872261" using binary64_up [of 2155872261 21] by simp
  have e3: "binary64 (646761704 / 2155872261) = 5033165 / 16777216"
    using binary64_up [of "646761704 / 2155872261" 54] by (simp add: round_even_def)
  have r1: "removed_amount ?K two_large ?bl 1 = 646761704"
    using v0 v1 sz by (simp add: td e1)
  have b1: "removed_bytes ?K two_large ?bl 1 = 646761704"
    using v1 sz by (simp add: removed_bytes_def)
  have np: "next_p two_large = 2155872261" by (simp add: two_large_def)
  have p: "?p = 5033165 / 16777216" by (simp add: two_large_def)
  have ne: "numentries two_large = 2" by (simp add: two_large_def)
  have less: "real 646761704 < ?p * real (next_p two_large)" unfolding p np by simp
  have stop: "\<not> below_ratio ?K ?p (next_p two_large) (removed_amount ?K two_large ?bl 1)"
    unfolding r1 np p by (simp add: below_ratio_def td e2 e3)
  have more: "\<forall>i. 0 < i \<and> i < 1 \<longrightarrow>
      below_ratio ?K ?p (next_p two_large) (removed_amount ?K two_large ?bl i)" by simp
  have small: "length (concat ?bl) < 2 ^ 32" "(1::nat) < 2 ^ 32" by simp_all
  have "remove_unused_nodes ?K ?p two_large
        = unused_rounds ?K ?p (next_p two_large) (of_nat 0) (removed_amount ?K two_large ?bl 0)
            two_large"
    by (simp add: remove_unused_nodes_def)
  with unused_rounds_evicts [OF ch small more stop _ evicted_start [OF ch]]
  obtain c' where 1: "remove_unused_nodes ?K ?p two_large = Some c'"
    and ev: "evicted ?K two_large ?bl 1 c'" by auto
  from ev have 2: "all_chains c' (map (filter (\<lambda>a. \<not> victim ?K two_large (of_nat 1) a)) ?bl)"
    and 3: "c' = two_large\<lparr>buckets := buckets c', arena := arena c',
              numentries := numentries two_large
                - of_nat (length (filter (victim ?K two_large (of_nat 1)) (concat ?bl)))\<rparr>"
    and 5: "\<forall>a\<in>set (concat ?bl). victim ?K two_large (of_nat 1) a \<longrightarrow>
              map_option links (arena c' a) = Some (Null, Null)"
    unfolding evicted_def by blast+
  from 5 v1 have 5: "map_option links (arena c' 0) = Some (Null, Null)" by simp
  from 2 v1 have 2: "all_chains c' [[], [646761704]]" by simp
  have "numentries c' = numentries two_large
          - of_nat (length (filter (victim ?K two_large (of_nat 1)) (concat ?bl)))"
    by (subst 3) simp
  then have 3: "numentries c' = 1" using v1 ne by simp
  from ch b1 less 1 2 3 5 show ?thesis by blast
qed

text \<open>
  In the cache \<open>two_large\<close> the first round removes 646761704 bytes of the 2155872261 in
  use, which is less than the ratio \<open>5033165 / 2^24\<close> of them. The quotient of the two
  numbers is rounded up to the ratio, the test of the loop fails, and
  \<^verbatim>\<open>remove_unused_nodes\<close> returns after this round: one of the two entries has been
  removed, and the entry that was hit once is still the first of its list.
\<close>

theorem remove_unused_nodes_stops_below_ratio:
  "removed_bytes demo_platform two_large [[], [646761704, 0]] 1 = 646761704
   \<and> real 646761704 < replacement two_large * real (next_p two_large)
   \<and> numentries two_large = 2
   \<and> map_option numentries
         (remove_unused_nodes demo_platform (replacement two_large) two_large) = Some 1
   \<and> Option.bind (remove_unused_nodes demo_platform (replacement two_large) two_large)
         (links_at 0) = Some (Null, Null)
   \<and> Option.bind (remove_unused_nodes demo_platform (replacement two_large) two_large)
         (links_at 646761704) = Some (Null, Bucket 1)"
proof -
  from stops_below_ratio obtain c' where
    b: "removed_bytes demo_platform two_large [[], [646761704, 0]] 1 = 646761704"
    and l: "real 646761704 < replacement two_large * real (next_p two_large)"
    and r: "remove_unused_nodes demo_platform (replacement two_large) two_large = Some c'"
    and ch: "all_chains c' [[], [646761704]]" and n: "numentries c' = 1"
    and z: "map_option links (arena c' 0) = Some (Null, Null)"
    by blast
  from ch have "\<forall>j<length [[], [646761704::nat]].
      dl (get_node c') (Bucket j) (map Node ([[], [646761704]] ! j))"
    unfolding all_chains_def by blast
  then have "dl (get_node c') (Bucket (Suc 0)) (map Node ([[], [646761704]] ! Suc 0))"
    by (simp add: all_less_two)
  then have "dl (get_node c') (Bucket 1) [Node 646761704]" by simp
  then have "links_at 646761704 c' = Some (Null, Bucket 1)"
    by (auto simp: links_at_def links_def get_node_def split: option.splits if_splits)
  with b l r n z show ?thesis by (simp add: links_at_def two_large_def)
qed

section \<open>Storing an entry\<close>

text \<open>The loop of \<^verbatim>\<open>alloc_node\<close> runs its body until there is room.\<close>

lemma alloc_loop_evicts:
  "evict_times K n c = Some cn
   \<Longrightarrow> (\<forall>i<n. \<exists>ci. evict_times K i c = Some ci \<and> bufsize ci \<le> next_p ci + len)
   \<Longrightarrow> next_p cn + len < bufsize cn
   \<Longrightarrow> alloc_loop K len c = Some (next_p cn, cn\<lparr>next_p := next_p cn + len\<rparr>)"
proof (induction n arbitrary: c)
  case 0
  then show ?case by (subst alloc_loop.simps) simp
next
  case (Suc n)
  from Suc.prems(2) have full: "bufsize c \<le> next_p c + len" by fastforce
  from Suc.prems(1) obtain c1 where e: "evict_and_pack K c = Some c1"
    and r: "evict_times K n c1 = Some cn" by (auto split: option.splits)
  have "\<forall>i<n. \<exists>ci. evict_times K i c1 = Some ci \<and> bufsize ci \<le> next_p ci + len"
  proof (intro allI impI)
    fix i assume "i < n"
    then have "Suc i < Suc n" by simp
    with Suc.prems(2) obtain ci where "evict_times K (Suc i) c = Some ci"
      "bufsize ci \<le> next_p ci + len" by blast
    with e show "\<exists>ci. evict_times K i c1 = Some ci \<and> bufsize ci \<le> next_p ci + len" by simp
  qed
  from Suc.IH [OF r this Suc.prems(3)] full e show ?case
    by (subst alloc_loop.simps) simp
qed

text \<open>Filling in the new node and linking it in at the head of its bucket's list.\<close>

lemma store_places:
  assumes ch: "bucket_chain cn b as" and below: "\<forall>a\<in>set as. a < r"
    and c1: "next_p c1 = r + len" "buckets c1 = buckets cn" "arena c1 = arena cn"
      "numentries c1 = numentries cn"
    and c2: "c2 = c1\<lparr>arena := overwrite r len (Some raw_node) (arena c1)\<rparr>"
  shows "\<exists>c3 n. insert_node_after (Node r) (Bucket b) c2 = Some c3
           \<and> arena c3 r = Some n
           \<and> next_p c3 = r + len
           \<and> numentries c3 = numentries cn
           \<and> length (buckets c3) = length (buckets cn)
           \<and> content n = content raw_node
           \<and> (\<forall>n'. links n' = links n \<longrightarrow>
                 bucket_chain (c3\<lparr>arena := (arena c3)(r \<mapsto> n'), numentries := numentries c3 + 1\<rparr>)
                   b (r # as))
           \<and> (\<forall>a. a < r \<longrightarrow> map_option content (arena c3 a) = map_option content (arena cn a))"
proof -
  let ?V = "get_node c2"
  from ch have b: "b < length (buckets cn)" and di: "distinct as"
    and d: "dl (get_node cn) (Bucket b) (map Node as)" by (simp_all add: bucket_chain_def)
  have V2: "\<And>x. x \<in> set (Bucket b # map Node as) \<Longrightarrow> ?V x = get_node cn x"
    using below c1 c2 by (auto simp: get_node_def overwrite_def)
  have d2: "dl ?V (Bucket b) (map Node as)"
  proof -
    have "dl ?V (Bucket b) (map Node as) = dl (get_node cn) (Bucket b) (map Node as)"
      by (rule dl_cong) (simp add: V2)
    with d show ?thesis by simp
  qed
  have VN: "?V Null = None" by (rule get_node_Null)
  have a2: "?V (Node r) = Some raw_node" using c2 by (simp add: get_node_def overwrite_def)
  from dl_next [OF d2] obtain m where m: "?V (Bucket b) = Some m"
    and nm: "next_ptr m = hd_ptr (map Node as)" by blast
  have sin: "next_ptr m = Null \<or> next_ptr m \<in> set (map Node as)"
    using hd_ptr_cases [of "map Node as"] nm by (metis list.set_intros(1))
  obtain k where k: "next_ptr m = Null \<or> ?V (next_ptr m) = Some k"
    using sin dl_all_defined [OF d2] by blast
  have dL: "distinct (Bucket b # map Node as)" using di by (auto simp: distinct_map inj_on_def)
  have anin: "Node r \<notin> set (Bucket b # map Node as)" using below by auto
  have e1: "Bucket b \<noteq> Node r" by simp
  have e2: "next_ptr m \<noteq> Node r" using sin anin by auto
  have e3: "next_ptr m \<noteq> Bucket b" using sin by auto
  from insert_node_after_view [OF a2 m k e1 e2 e3] obtain c3 where
    i: "insert_node_after (Node r) (Bucket b) c2 = Some c3" and f3: "same_frame c2 c3"
    and V3: "get_node c3 =
               (if next_ptr m = Null
                then ?V(Node r := Some (raw_node\<lparr>next_ptr := next_ptr m, prev_ptr := Bucket b\<rparr>),
                        Bucket b := Some (m\<lparr>next_ptr := Node r\<rparr>))
                else ?V(Node r := Some (raw_node\<lparr>next_ptr := next_ptr m, prev_ptr := Bucket b\<rparr>),
                        Bucket b := Some (m\<lparr>next_ptr := Node r\<rparr>),
                        next_ptr m := Some (k\<lparr>prev_ptr := Node r\<rparr>)))"
    by blast
  let ?n = "raw_node\<lparr>next_ptr := next_ptr m, prev_ptr := Bucket b\<rparr>"
  have d3: "dl (get_node c3) (Bucket b) (Node r # map Node as)"
    by (rule dl_push [OF d2 anin a2 m k V3 dL VN])
  have ar: "get_node c3 (Node r) = Some ?n" using V3 e2 by simp
  then have ar': "arena c3 r = Some ?n" by (simp add: get_node_def)
  from f3 have eq3: "c3 = c2\<lparr>buckets := buckets c3, arena := arena c3\<rparr>"
    and l3: "length (buckets c3) = length (buckets c2)" by (simp_all add: same_frame_def)
  have np: "next_p c3 = r + len" by (subst eq3) (simp add: c2 c1)
  have ne: "numentries c3 = numentries cn" by (subst eq3) (simp add: c2 c1)
  have lb: "length (buckets c3) = length (buckets cn)" using l3 c2 c1 by simp
  have ch': "\<forall>n'. links n' = links ?n \<longrightarrow>
               bucket_chain (c3\<lparr>arena := (arena c3)(r \<mapsto> n'), numentries := numentries c3 + 1\<rparr>)
                 b (r # as)"
  proof (intro allI impI)
    fix n' assume ln: "links n' = links ?n"
    let ?c' = "c3\<lparr>arena := (arena c3)(r \<mapsto> n'), numentries := numentries c3 + 1\<rparr>"
    have "dl (get_node ?c') (Bucket b) (Node r # map Node as)
          = dl (get_node c3) (Bucket b) (Node r # map Node as)"
    proof (rule dl_cong)
      fix x
      show "map_option links (get_node ?c' x) = map_option links (get_node c3 x)"
        using ar ln by (cases x) (simp_all add: get_node_def)
    qed
    with d3 have "dl (get_node ?c') (Bucket b) (map Node (r # as))" by simp
    moreover have "distinct (r # as)" using di below by auto
    moreover have "b < length (buckets ?c')" using b lb by simp
    ultimately show "bucket_chain ?c' b (r # as)" by (simp add: bucket_chain_def)
  qed
  have k3: "\<forall>a. a < r \<longrightarrow> map_option content (arena c3 a) = map_option content (arena cn a)"
  proof (intro allI impI)
    fix a assume a: "a < r"
    have "map_option content (get_node c3 (Node a)) = map_option content (?V (Node a))"
      by (rule push_frame(1) [OF V3 a2 m k])
    moreover have "?V (Node a) = get_node cn (Node a)"
      using a c1 c2 by (simp add: get_node_def overwrite_def)
    ultimately show "map_option content (arena c3 a) = map_option content (arena cn a)"
      by (simp add: get_node_def)
  qed
  have cn: "content ?n = content raw_node" by simp
  show ?thesis using i ar' np ne lb cn ch' k3 by blast
qed

text \<open>
  What \<^verbatim>\<open>store\<close> does. Let \<open>len\<close> be the size of the entry: header, key and serialized
  polynomial. If \<open>len\<close> is at least \<^verbatim>\<open>bufsize\<close>, \<^verbatim>\<open>store\<close> throws \<^verbatim>\<open>bad_alloc\<close>.
  Otherwise, if running eviction then compaction \<open>n\<close> times gives the cache \<open>cn\<close>, the test
  \<^verbatim>\<open>(next_p - start_p) + size >= bufsize\<close> held before each of these runs and fails in
  \<open>cn\<close>, then \<^verbatim>\<open>store\<close> returns the cache \<open>cn\<close> with the entry written at the frontier
  \<^verbatim>\<open>next_p\<close> of \<open>cn\<close>: the frontier has advanced by \<open>len\<close>, the entry holds the key, the
  polynomial, the graph id, its size and a hit count of 0, it is the first of its bucket's
  list, before the entries \<open>as\<close> the list had, \<^verbatim>\<open>numentries\<close> is one more, and the entries
  before the frontier have changed at most in their links.
\<close>

lemma store_appends_at_frontier:
  assumes len: "len = sizeof_cache_node K + length key + length (write_poly K p)"
  shows "(bufsize c \<le> len \<longrightarrow> store K key p ident c = Some (Inl BadAlloc))
         \<and> (len < bufsize c \<longrightarrow> evict_times K n c = Some cn \<longrightarrow>
              (\<forall>i<n. \<exists>ci. evict_times K i c = Some ci \<and> bufsize ci \<le> next_p ci + len) \<longrightarrow>
              next_p cn + len < bufsize cn \<longrightarrow>
              bucket_chain cn (unat (hash_graph_key K key) mod length (buckets cn)) as \<longrightarrow>
              (\<forall>a\<in>set as. a < next_p cn) \<longrightarrow>
              (\<exists>c'. store K key p ident c = Some (Inr c')
                 \<and> next_p c' = next_p cn + len
                 \<and> numentries c' = numentries cn + 1
                 \<and> bucket_chain c' (unat (hash_graph_key K key) mod length (buckets cn))
                      (next_p cn # as)
                 \<and> map_option content (arena c' (next_p cn))
                     = Some \<lparr>next_ptr = Null, prev_ptr = Null, hit_count = 0, graph_id = ident,
                             node_size = of_nat len, key_bytes = key,
                             poly_bytes = write_poly K p\<rparr>
                 \<and> (\<forall>a<next_p cn. map_option content (arena c' a)
                                     = map_option content (arena cn a))))"
proof (intro conjI impI)
  assume "bufsize c \<le> len"
  then show "store K key p ident c = Some (Inl BadAlloc)"
    using len by (simp add: store_def alloc_node_def Let_def)
next
  let ?b = "unat (hash_graph_key K key) mod length (buckets cn)"
  let ?r = "next_p cn"
  assume small: "len < bufsize c" and ev: "evict_times K n c = Some cn"
    and full: "\<forall>i<n. \<exists>ci. evict_times K i c = Some ci \<and> bufsize ci \<le> next_p ci + len"
    and room: "?r + len < bufsize cn"
    and ch: "bucket_chain cn ?b as" and below: "\<forall>a\<in>set as. a < ?r"
  let ?c1 = "cn\<lparr>next_p := ?r + len\<rparr>"
  let ?c2 = "?c1\<lparr>arena := overwrite ?r len (Some raw_node) (arena ?c1)\<rparr>"
  have al: "alloc_node K len c = Some (Inr (?r, ?c1))"
    using alloc_loop_evicts [OF ev full room] small by (simp add: alloc_node_def)
  from store_places [OF ch below, of ?c1 len ?c2] obtain c3 n0 where
    i: "insert_node_after (Node ?r) (Bucket ?b) ?c2 = Some c3"
    and ar: "arena c3 ?r = Some n0"
    and np: "next_p c3 = ?r + len"
    and ne: "numentries c3 = numentries cn"
    and cn: "content n0 = content raw_node"
    and chn: "\<And>n'. links n' = links n0 \<Longrightarrow>
                bucket_chain (c3\<lparr>arena := (arena c3)(?r \<mapsto> n'), numentries := numentries c3 + 1\<rparr>)
                  ?b (?r # as)"
    and k3: "\<And>a. a < ?r \<Longrightarrow> map_option content (arena c3 a) = map_option content (arena cn a)"
    by auto
  let ?n' = "n0\<lparr>hit_count := 0, graph_id := ident, node_size := of_nat len, key_bytes := key,
                  poly_bytes := write_poly K p\<rparr>"
  let ?c' = "c3\<lparr>arena := (arena c3)(?r \<mapsto> ?n'), numentries := numentries c3 + 1\<rparr>"
  from ch have nb: "length (buckets cn) \<noteq> 0" by (auto simp: bucket_chain_def)
  have st: "store K key p ident c = Some (Inr ?c')"
    using al i ar nb len by (simp add: store_def Let_def)
  have 1: "next_p ?c' = ?r + len" using np by simp
  have 2: "numentries ?c' = numentries cn + 1" using ne by simp
  have 3: "bucket_chain ?c' ?b (?r # as)" by (rule chn) (simp add: links_def)
  have "content ?n' = \<lparr>next_ptr = Null, prev_ptr = Null, hit_count = 0, graph_id = ident,
                        node_size = of_nat len, key_bytes = key, poly_bytes = write_poly K p\<rparr>"
    by (cases n0) (simp add: content_def)
  then have 4: "map_option content (arena ?c' ?r)
                = Some \<lparr>next_ptr = Null, prev_ptr = Null, hit_count = 0, graph_id = ident,
                        node_size = of_nat len, key_bytes = key, poly_bytes = write_poly K p\<rparr>"
    by simp
  have 5: "\<forall>a<?r. map_option content (arena ?c' a) = map_option content (arena cn a)"
    using k3 by simp
  show "\<exists>c'. store K key p ident c = Some (Inr c')
          \<and> next_p c' = ?r + len
          \<and> numentries c' = numentries cn + 1
          \<and> bucket_chain c' ?b (?r # as)
          \<and> map_option content (arena c' ?r)
              = Some \<lparr>next_ptr = Null, prev_ptr = Null, hit_count = 0, graph_id = ident,
                      node_size = of_nat len, key_bytes = key, poly_bytes = write_poly K p\<rparr>
          \<and> (\<forall>a<?r. map_option content (arena c' a) = map_option content (arena cn a))"
    using st 1 2 3 4 5 by blast
qed

text \<open>
  With the cache \<open>two_entries\<close>, of 100 bytes of which 76 are in use, an entry of 36 bytes
  is stored after one run of eviction and compaction, and one of 104 bytes is refused.
\<close>

lemma store_appends_at_frontier_example:
  "(\<exists>cn c'. evict_times demo_platform 1 two_entries = Some cn
       \<and> bufsize two_entries \<le> next_p two_entries + 36
       \<and> next_p cn = 36 \<and> bufsize cn = 100
       \<and> bucket_chain cn 1 [0]
       \<and> store demo_platform [5, 5] [7, 7] 9 two_entries = Some (Inr c')
       \<and> next_p c' = 72 \<and> numentries c' = 2
       \<and> bucket_chain c' 1 [36, 0]
       \<and> map_option key_bytes (arena c' 36) = Some [5, 5])
   \<and> bufsize two_entries \<le> 32 + 2 + 70
   \<and> store demo_platform [5, 5] (replicate 70 0) 9 two_entries = Some (Inl BadAlloc)"
proof -
  let ?K = "demo_platform"
  have q: "binary64 (10 / 19) = 4740631186705785 / 9007199254740992"
    using binary64_up [of "10 / 19" 53] by (simp add: round_even_def)
  have e: "\<exists>cn. evict_times ?K 1 two_entries = Some cn \<and> next_p cn = 36 \<and> bufsize cn = 100
                \<and> bucket_chain cn 1 [0] \<and> numentries cn = 1 \<and> length (buckets cn) = 2"
    by (simp add: cache_defs unused_rounds.simps unused_walk.simps pack_loop.simps
          bucket_chain_def below_ratio_def binary64_small_nat q)
  then obtain cn where cn: "evict_times ?K 1 two_entries = Some cn" "next_p cn = 36"
    "bufsize cn = 100" "bucket_chain cn 1 [0]" "numentries cn = 1" "length (buckets cn) = 2"
    by blast
  have len: "(36::nat) = sizeof_cache_node ?K + length [5, 5 :: byte] + length (write_poly ?K [7, 7])"
    by (simp add: demo_platform_def)
  have h: "unat (hash_graph_key ?K [5, 5]) mod length (buckets cn) = 1"
    unfolding cn(6) by (simp add: demo_platform_def)
  have full: "bufsize two_entries \<le> next_p two_entries + 36" by (simp add: two_entries_def)
  have f: "\<forall>i<1. \<exists>ci. evict_times ?K i two_entries = Some ci \<and> bufsize ci \<le> next_p ci + 36"
    using full by simp
  have s: "36 < bufsize two_entries" by (simp add: two_entries_def)
  have r: "next_p cn + 36 < bufsize cn" using cn by simp
  have b: "\<forall>a\<in>set [0::nat]. a < next_p cn" using cn by simp
  from store_appends_at_frontier [OF len, where c = two_entries and n = 1 and cn = cn
      and as = "[0]" and ident = 9] s cn(1) f r cn(4) b h
  obtain c' where
    1: "store ?K [5, 5] [7, 7] 9 two_entries = Some (Inr c')"
    and 2: "next_p c' = next_p cn + 36" "numentries c' = numentries cn + 1"
    and 3: "bucket_chain c' 1 (next_p cn # [0])"
    and 4: "map_option content (arena c' (next_p cn))
            = Some \<lparr>next_ptr = Null, prev_ptr = Null, hit_count = 0, graph_id = 9,
                    node_size = of_nat 36, key_bytes = [5, 5], poly_bytes = write_poly ?K [7, 7]\<rparr>"
    by auto
  from 4 obtain z where z: "arena c' (next_p cn) = Some z"
    "content z = \<lparr>next_ptr = Null, prev_ptr = Null, hit_count = 0, graph_id = 9,
                    node_size = of_nat 36, key_bytes = [5, 5], poly_bytes = write_poly ?K [7, 7]\<rparr>"
    by auto
  have "key_bytes z = key_bytes (content z)" by (simp add: content_def)
  with z have 5: "map_option key_bytes (arena c' 36) = Some [5, 5]" using cn(2) by simp
  have A: "\<exists>cn c'. evict_times ?K 1 two_entries = Some cn
       \<and> bufsize two_entries \<le> next_p two_entries + 36
       \<and> next_p cn = 36 \<and> bufsize cn = 100
       \<and> bucket_chain cn 1 [0]
       \<and> store ?K [5, 5] [7, 7] 9 two_entries = Some (Inr c')
       \<and> next_p c' = 72 \<and> numentries c' = 2
       \<and> bucket_chain c' 1 [36, 0]
       \<and> map_option key_bytes (arena c' 36) = Some [5, 5]"
    using cn full 1 2 3 5 by auto
  have len2: "(32 + 2 + 70 ::nat)
              = sizeof_cache_node ?K + length [5, 5 :: byte] + length (write_poly ?K (replicate 70 0))"
    by (simp add: demo_platform_def)
  have big: "bufsize two_entries \<le> 32 + 2 + 70" by (simp add: two_entries_def)
  from store_appends_at_frontier [OF len2, where c = two_entries and ident = 9] big
  have B: "store ?K [5, 5] (replicate 70 0) 9 two_entries = Some (Inl BadAlloc)" by blast
  from A big B show ?thesis by blast
qed

text \<open>
  C6. The entry must not be larger than the arena, and \<^verbatim>\<open>alloc_node\<close> says so: ``cannot
  ask for more than the buffer can contain''. Its test is \<^verbatim>\<open>size >= bufsize\<close>: an entry
  of 36 bytes, header, key and polynomial, does not exceed the capacity of an empty cache
  of 36 bytes, and \<^verbatim>\<open>store\<close> throws \<^verbatim>\<open>bad_alloc\<close>.
\<close>

theorem store_refuses_entry_of_full_capacity:
  "sizeof_cache_node demo_platform + length [3, 5 :: byte] + length (write_poly demo_platform [4, 4])
     = capacity empty_cache
   \<and> size_used empty_cache = 0
   \<and> store demo_platform [3, 5] [4, 4] 8 empty_cache = Some (Inl BadAlloc)"
  by (simp add: store_def alloc_node_def Let_def demo_platform_def empty_cache_def capacity_def
        size_used_def)

text \<open>
  The loop of \<^verbatim>\<open>alloc_node\<close> has the same test, \<^verbatim>\<open>>=\<close> under the comment ``if there's
  not enough space left, free up some'': the cache \<open>half_full\<close> has exactly the 36 bytes
  left that the entry needs, and \<^verbatim>\<open>store\<close> evicts the entry the cache holds before it
  writes the new one in its place.
\<close>

lemma store_evicts_on_exact_fit:
  "size_used half_full + (sizeof_cache_node demo_platform + length [5, 5 :: byte]
       + length (write_poly demo_platform [7, 7])) = capacity half_full
   \<and> bucket_chain half_full 1 [0]
   \<and> map_option key_bytes (arena half_full 0) = Some [3, 5]
   \<and> (\<exists>c'. store demo_platform [5, 5] [7, 7] 9 half_full = Some (Inr c')
          \<and> bucket_chain c' 1 [0]
          \<and> map_option key_bytes (arena c' 0) = Some [5, 5]
          \<and> size_used c' = 36 \<and> numentries c' = 1)"
proof -
  let ?K = "demo_platform"
  have a: "size_used half_full + (sizeof_cache_node ?K + length [5, 5 :: byte]
             + length (write_poly ?K [7, 7])) = capacity half_full"
    by (simp add: size_used_def capacity_def half_full_def demo_platform_def)
  have b: "bucket_chain half_full 1 [0]"
    by (simp add: bucket_chain_def get_node_def half_full_def sentinel_def)
  have k: "map_option key_bytes (arena half_full 0) = Some [3, 5]" by (simp add: half_full_def)
  have e: "\<exists>cn. evict_times ?K 1 half_full = Some cn \<and> next_p cn = 0 \<and> bufsize cn = 72
                \<and> bucket_chain cn 1 [] \<and> numentries cn = 0 \<and> length (buckets cn) = 2"
    by (simp add: cache_defs half_full_def unused_rounds.simps unused_walk.simps pack_loop.simps
          bucket_chain_def below_ratio_def binary64_small_nat)
  then obtain cn where cn: "evict_times ?K 1 half_full = Some cn" "next_p cn = 0"
    "bufsize cn = 72" "bucket_chain cn 1 []" "numentries cn = 0" "length (buckets cn) = 2"
    by blast
  have len: "(36::nat) = sizeof_cache_node ?K + length [5, 5 :: byte] + length (write_poly ?K [7, 7])"
    by (simp add: demo_platform_def)
  have h: "unat (hash_graph_key ?K [5, 5]) mod length (buckets cn) = 1"
    unfolding cn(6) by (simp add: demo_platform_def)
  have full: "bufsize half_full \<le> next_p half_full + 36" by (simp add: half_full_def)
  have f: "\<forall>i<1. \<exists>ci. evict_times ?K i half_full = Some ci \<and> bufsize ci \<le> next_p ci + 36"
    using full by simp
  have s: "36 < bufsize half_full" by (simp add: half_full_def)
  have r: "next_p cn + 36 < bufsize cn" using cn by simp
  have bl: "\<forall>a\<in>set ([]::nat list). a < next_p cn" by simp
  from store_appends_at_frontier [OF len, where c = half_full and n = 1 and cn = cn
      and as = "[]" and ident = 9] s cn(1) f r cn(4) bl h
  obtain c' where
    1: "store ?K [5, 5] [7, 7] 9 half_full = Some (Inr c')"
    and 2: "next_p c' = next_p cn + 36" "numentries c' = numentries cn + 1"
    and 3: "bucket_chain c' 1 [next_p cn]"
    and 4: "map_option content (arena c' (next_p cn))
            = Some \<lparr>next_ptr = Null, prev_ptr = Null, hit_count = 0, graph_id = 9,
                    node_size = of_nat 36, key_bytes = [5, 5], poly_bytes = write_poly ?K [7, 7]\<rparr>"
    by auto
  from 4 obtain z where z: "arena c' (next_p cn) = Some z"
    "content z = \<lparr>next_ptr = Null, prev_ptr = Null, hit_count = 0, graph_id = 9,
                    node_size = of_nat 36, key_bytes = [5, 5], poly_bytes = write_poly ?K [7, 7]\<rparr>"
    by auto
  have "key_bytes z = key_bytes (content z)" by (simp add: content_def)
  with z have 5: "map_option key_bytes (arena c' 0) = Some [5, 5]" using cn(2) by simp
  have "\<exists>c'. store ?K [5, 5] [7, 7] 9 half_full = Some (Inr c')
          \<and> bucket_chain c' 1 [0]
          \<and> map_option key_bytes (arena c' 0) = Some [5, 5]
          \<and> size_used c' = 36 \<and> numentries c' = 1"
    using 1 2 3 5 cn by (auto simp: size_used_def)
  with a b k show ?thesis by blast
qed

end
